theory Spec2Isabelle
  imports Complex_Main "HOL-Library.Multiset"
begin

section \<open>Data model of the ambulance dispatch core (main.cpp)\<close>

text \<open>
  The C++ types are embedded as follows.
  \<^item> A \<open>float\<close> is an IEEE 754 binary32 value: a finite number \<open>Val x\<close>, one of the two
    infinities, or not-a-number. Every arithmetic operation of the source on floats is
    the exact operation on the reals followed by one rounding to binary32 (round to
    nearest, ties to even, gradual underflow, overflow to infinity), which is how the
    program is evaluated with single-precision scalar arithmetic and no fused
    multiply-add. \<open>sqrtf\<close> is correctly rounded. The two zeros of binary32 are
    identified: they compare equal, and the source divides only by values it has
    compared to be above 1.
  \<^item> A \<open>double\<close> clock reading (\<open>createdAt\<close>, \<open>GetTime()\<close>) is a real number: the source
    only stores and compares clock readings.
  \<^item> \<open>int\<close> values are modelled as HOL integers. The two places where the source
    increments a counter that a caller controls (\<open>aid++\<close>, \<open>nextEmergencyId++\<close>) yield
    \<open>None\<close> where the 32-bit increment would overflow (undefined behaviour in C++).
  \<^item> A call that yields no defined result (the path loop never leaves, or undefined
    behaviour) is \<open>None\<close>; every function that can reach such a call returns an option.
  \<^item> The raylib calls \<open>GetTime()\<close> and \<open>GetFrameTime()\<close> are inputs: the clock reading
    \<open>now\<close> and the frame time \<open>dt\<close> are parameters of the functions that read them.
  \<^item> Record fields keep the names of the C++ members, except \<open>id\<close> (\<open>em_id\<close>, \<open>amb_id\<close>),
    the coordinates \<open>x\<close>, \<open>y\<close> (\<open>vx\<close>, \<open>vy\<close>), \<open>Hospital::location\<close> (\<open>hosp_location\<close>) and
    \<open>queue_\<close> (\<open>queue\<close>). The member \<open>Ambulance::color\<close> is used for drawing only and is
    left out.
\<close>

subsection \<open>Binary32 arithmetic\<close>

datatype float = Val real | PInf | NInf | NaN

definition INT_MAX :: int where
  "INT_MAX = 2147483647"

text \<open>\<open>numeric_limits<float>::max()\<close>, that is \<open>(2^24 - 1) * 2^104\<close>.\<close>

definition FLT_MAX :: real where
  "FLT_MAX = 340282346638528859811704183484516925440"

text \<open>The nearest integer, the even one of the two when \<open>q\<close> lies half-way.\<close>

definition round_even :: "real \<Rightarrow> int" where
  "round_even q =
     (let f = \<lfloor>q\<rfloor>
      in if q - of_int f < 1 / 2 then f
         else if q - of_int f > 1 / 2 then f + 1
         else if even f then f else f + 1)"

text \<open>
  The binary exponent of \<open>x\<close>, not below that of the subnormal numbers, and the unit in
  the last place of the 24-bit significand at that exponent.
\<close>

definition expo32 :: "real \<Rightarrow> int" where
  "expo32 x = max \<lfloor>log 2 \<bar>x\<bar>\<rfloor> (- 126)"

definition ulp32 :: "real \<Rightarrow> real" where
  "ulp32 x = 2 powr of_int (expo32 x - 23)"

text \<open>Rounding to the binary32 grid, with the exponent unbounded above.\<close>

definition round32 :: "real \<Rightarrow> real" where
  "round32 x = (if x = 0 then 0 else of_int (round_even (x / ulp32 x)) * ulp32 x)"

text \<open>Rounding to binary32: a rounded value beyond \<open>FLT_MAX\<close> is an infinity.\<close>

definition rnd :: "real \<Rightarrow> float" where
  "rnd x =
     (let r = round32 x
      in if r > FLT_MAX then PInf else if r < - FLT_MAX then NInf else Val r)"

fun fneg :: "float \<Rightarrow> float" where
  "fneg (Val x) = Val (- x)"
| "fneg PInf = NInf"
| "fneg NInf = PInf"
| "fneg NaN = NaN"

fun fabs :: "float \<Rightarrow> float" where
  "fabs (Val x) = Val \<bar>x\<bar>"
| "fabs PInf = PInf"
| "fabs NInf = PInf"
| "fabs NaN = NaN"

fun fadd :: "float \<Rightarrow> float \<Rightarrow> float" where
  "fadd (Val x) (Val y) = rnd (x + y)"
| "fadd (Val x) PInf = PInf"
| "fadd (Val x) NInf = NInf"
| "fadd PInf (Val y) = PInf"
| "fadd PInf PInf = PInf"
| "fadd NInf (Val y) = NInf"
| "fadd NInf NInf = NInf"
| "fadd PInf NInf = NaN"
| "fadd NInf PInf = NaN"
| "fadd NaN b = NaN"
| "fadd (Val x) NaN = NaN"
| "fadd PInf NaN = NaN"
| "fadd NInf NaN = NaN"

definition fsub :: "float \<Rightarrow> float \<Rightarrow> float" where
  "fsub a b = fadd a (fneg b)"

text \<open>The infinity with the sign of a product or quotient of two signs.\<close>

definition inf_of :: "bool \<Rightarrow> float" where
  "inf_of positive = (if positive then PInf else NInf)"

fun fmul :: "float \<Rightarrow> float \<Rightarrow> float" where
  "fmul (Val x) (Val y) = rnd (x * y)"
| "fmul (Val x) PInf = (if x = 0 then NaN else inf_of (0 < x))"
| "fmul (Val x) NInf = (if x = 0 then NaN else inf_of (x < 0))"
| "fmul PInf (Val y) = (if y = 0 then NaN else inf_of (0 < y))"
| "fmul NInf (Val y) = (if y = 0 then NaN else inf_of (y < 0))"
| "fmul PInf PInf = PInf"
| "fmul PInf NInf = NInf"
| "fmul NInf PInf = NInf"
| "fmul NInf NInf = PInf"
| "fmul NaN b = NaN"
| "fmul (Val x) NaN = NaN"
| "fmul PInf NaN = NaN"
| "fmul NInf NaN = NaN"

text \<open>
  Division. A zero divisor is taken as the positive zero; the source reaches a division
  only with a divisor that it has compared to be above 1.
\<close>

fun fdiv :: "float \<Rightarrow> float \<Rightarrow> float" where
  "fdiv (Val x) (Val y) =
     (if y = 0 then (if x = 0 then NaN else inf_of (0 < x)) else rnd (x / y))"
| "fdiv (Val x) PInf = Val 0"
| "fdiv (Val x) NInf = Val 0"
| "fdiv PInf (Val y) = inf_of (0 \<le> y)"
| "fdiv NInf (Val y) = inf_of (y < 0)"
| "fdiv PInf PInf = NaN"
| "fdiv PInf NInf = NaN"
| "fdiv NInf PInf = NaN"
| "fdiv NInf NInf = NaN"
| "fdiv NaN b = NaN"
| "fdiv (Val x) NaN = NaN"
| "fdiv PInf NaN = NaN"
| "fdiv NInf NaN = NaN"

fun fsqrt :: "float \<Rightarrow> float" where
  "fsqrt (Val x) = (if x < 0 then NaN else rnd (sqrt x))"
| "fsqrt PInf = PInf"
| "fsqrt NInf = NaN"
| "fsqrt NaN = NaN"

text \<open>The comparisons \<open><\<close> and \<open><=\<close> on floats: false as soon as one side is not-a-number.\<close>

fun flt :: "float \<Rightarrow> float \<Rightarrow> bool" where
  "flt (Val x) (Val y) = (x < y)"
| "flt (Val x) PInf = True"
| "flt NInf (Val y) = True"
| "flt NInf PInf = True"
| "flt (Val x) NInf = False"
| "flt PInf b = False"
| "flt NInf NInf = False"
| "flt NaN b = False"
| "flt (Val x) NaN = False"
| "flt NInf NaN = False"

fun fle :: "float \<Rightarrow> float \<Rightarrow> bool" where
  "fle (Val x) (Val y) = (x \<le> y)"
| "fle (Val x) PInf = True"
| "fle NInf (Val y) = True"
| "fle NInf PInf = True"
| "fle NInf NInf = True"
| "fle PInf PInf = True"
| "fle (Val x) NInf = False"
| "fle PInf (Val y) = False"
| "fle PInf NInf = False"
| "fle NaN b = False"
| "fle (Val x) NaN = False"
| "fle PInf NaN = False"
| "fle NInf NaN = False"

text \<open>The conversion of an \<open>int\<close> to \<open>float\<close>, as in \<open>x * blockSize\<close>.\<close>

definition float_of_int :: "int \<Rightarrow> float" where
  "float_of_int n = rnd (of_int n)"

text \<open>The float literals \<open>0.8f\<close> and \<open>0.4f\<close>: the binary32 values nearest to 0.8 and 0.4.\<close>

definition lit_0_8f :: float where
  "lit_0_8f = Val (13421773 / 16777216)"

definition lit_0_4f :: float where
  "lit_0_4f = Val (13421773 / 33554432)"

text \<open>
  The expression \<open>sqrtf(dx * dx + dy * dy)\<close>, which the source writes out at each of
  its five uses.
\<close>

definition hypot32 :: "float \<Rightarrow> float \<Rightarrow> float" where
  "hypot32 dx dy = fsqrt (fadd (fmul dx dx) (fmul dy dy))"

subsection \<open>Records\<close>

datatype Vector2 = Vector2 (vx: float) (vy: float)

datatype Status = IDLE | TO_SCENE | ON_SCENE | RETURNING

record Ambulance =
  amb_id :: int
  pos :: Vector2
  parkingPos :: Vector2
  speed :: float
  path :: "Vector2 list"
  currentPathIndex :: int
  busy :: bool
  assignedEmergencyId :: int
  assignedPatientName :: string
  assignedHouseId :: int
  status :: Status
  onSceneTimer :: float

record PatientInfo =
  name :: string
  age :: int
  severity :: string
  desc :: string
  houseNumber :: int

record Emergency =
  em_id :: int
  patient :: PatientInfo
  location :: Vector2
  priority :: int
  createdAt :: real
  assignedHospital :: int

record Hospital =
  hosp_location :: Vector2
  ambulances :: "Ambulance list"
  queue :: "Emergency list"
  nextEmergencyId :: int
  handledCount :: int
  onSceneDurationSec :: float

section \<open>The pending queue\<close>

text \<open>
  \<open>EmergencyCompare\<close> is the comparator handed to \<open>std::priority_queue\<close>:
  \<open>EmergencyCompare a b\<close> holds when \<open>a\<close> ranks after \<open>b\<close>.
\<close>

definition EmergencyCompare :: "Emergency \<Rightarrow> Emergency \<Rightarrow> bool" where
  "EmergencyCompare a b =
     (if priority a \<noteq> priority b then priority a > priority b
      else createdAt a > createdAt b)"

text \<open>
  \<open>std::priority_queue<Emergency, vector<Emergency>, EmergencyCompare>\<close> is modelled by its
  contract. The queue is the list of the stored elements; \<open>push\<close> adds one; \<open>top\<close> is
  an element that no stored element is ranked before by the comparator (the scan
  \<open>pq_best\<close> keeps the candidate unless the comparator ranks it after the next element);
  \<open>pop\<close> removes that element. The standard leaves open which of several elements of
  equal rank \<open>top\<close> returns; the model returns the one stored first. \<open>top\<close> and \<open>pop\<close> of
  an empty queue are undefined in C++; the source calls them on non-empty queues only.
\<close>

definition pq_push :: "Emergency \<Rightarrow> Emergency list \<Rightarrow> Emergency list" where
  "pq_push e q = q @ [e]"

fun pq_best :: "Emergency \<Rightarrow> Emergency list \<Rightarrow> Emergency" where
  "pq_best b [] = b"
| "pq_best b (e # es) = pq_best (if EmergencyCompare b e then e else b) es"

fun pq_top :: "Emergency list \<Rightarrow> Emergency" where
  "pq_top (e # es) = pq_best e es"

definition pq_pop :: "Emergency list \<Rightarrow> Emergency list" where
  "pq_pop q = remove1 (pq_top q) q"

text \<open>The loop of \<open>peekAllPending\<close>: pop the copy until it is empty, appending each top.\<close>

function pq_drain :: "Emergency list \<Rightarrow> Emergency list \<Rightarrow> Emergency list" where
  "pq_drain copy out =
     (if copy = [] then out else pq_drain (pq_pop copy) (out @ [pq_top copy]))"
  by pat_completeness auto
termination
proof (relation "measure (\<lambda>(copy, out). length copy)")
  show "wf (measure (\<lambda>(copy, out). length copy))" by simp
next
  fix copy out :: "Emergency list"
  assume ne: "copy \<noteq> []"
  have mem: "pq_best b es \<in> set (b # es)" for b es
    by (induction es arbitrary: b) auto
  from ne obtain e es where c: "copy = e # es" by (cases copy) auto
  from mem [of e es] have "pq_top copy \<in> set copy" by (simp add: c)
  with ne have "length (pq_pop copy) < length copy"
    by (simp add: pq_pop_def length_remove1 Suc_pred')
  then show "((pq_pop copy, out @ [pq_top copy]), copy, out)
      \<in> measure (\<lambda>(copy, out). length copy)"
    by simp
qed

declare pq_drain.simps [simp del]

definition peekAllPending :: "Hospital \<Rightarrow> Emergency list" where
  "peekAllPending h = pq_drain (queue h) []"

section \<open>Construction and intake\<close>

fun make_ambulances :: "int \<Rightarrow> Vector2 list \<Rightarrow> Ambulance list" where
  "make_ambulances aid [] = []"
| "make_ambulances aid (p # ps) =
     \<lparr>amb_id = aid, pos = p, parkingPos = p, speed = Val 150, path = [],
      currentPathIndex = 0, busy = False, assignedEmergencyId = - 1,
      assignedPatientName = [], assignedHouseId = - 1, status = IDLE,
      onSceneTimer = Val 0\<rparr> # make_ambulances (aid + 1) ps"

definition Hospital_ctor :: "Vector2 \<Rightarrow> Vector2 list \<Rightarrow> int \<Rightarrow> float \<Rightarrow> Hospital option" where
  "Hospital_ctor loc parkingPositions startAmbId onSceneDuration =
     (if parkingPositions \<noteq> [] \<and> startAmbId + int (length parkingPositions) > INT_MAX
      then None
      else Some \<lparr>hosp_location = loc,
                 ambulances = make_ambulances startAmbId parkingPositions,
                 queue = [], nextEmergencyId = 1, handledCount = 0,
                 onSceneDurationSec = onSceneDuration\<rparr>)"

definition receiveEmergency :: "Emergency \<Rightarrow> real \<Rightarrow> Hospital \<Rightarrow> Hospital option" where
  "receiveEmergency incoming now h =
     (if nextEmergencyId h \<ge> INT_MAX then None
      else let e = incoming\<lparr>em_id := nextEmergencyId h, createdAt := now\<rparr>
           in Some (h\<lparr>nextEmergencyId := nextEmergencyId h + 1,
                      queue := pq_push e (queue h)\<rparr>))"

section \<open>Path finding on the road grid\<close>

text \<open>
  The body of the double loop of \<open>findNearestRoadPoint\<close> for the intersection in column
  \<open>x\<close> of row \<open>y\<close>; the pair is \<open>(minDist, nearest)\<close>.
\<close>

definition road_scan_step ::
  "Vector2 \<Rightarrow> float \<Rightarrow> float \<Rightarrow> float \<Rightarrow> int \<Rightarrow> int \<Rightarrow> float \<times> Vector2 \<Rightarrow> float \<times> Vector2" where
  "road_scan_step target startX startY blockSize y x acc =
     (let inter = Vector2 (fadd startX (fmul (float_of_int x) blockSize))
                          (fadd startY (fmul (float_of_int y) blockSize));
          dx = fsub (vx target) (vx inter);
          dy = fsub (vy target) (vy inter);
          d = hypot32 dx dy
      in if flt d (fst acc) then (d, inter) else acc)"

text \<open>The scan starts from \<open>minDist = 1e9f\<close>, a binary32 number, and \<open>nearest = target\<close>.\<close>

definition findNearestRoadPoint ::
  "Vector2 \<Rightarrow> float \<Rightarrow> float \<Rightarrow> float \<Rightarrow> int \<Rightarrow> int \<Rightarrow> Vector2" where
  "findNearestRoadPoint target startX startY blockSize blocksX blocksY =
     snd (fold (\<lambda>y. fold (road_scan_step target startX startY blockSize y) [0..blocksX])
            [0..blocksY] (Val 1000000000, target))"

text \<open>
  The test \<open>fabsf(a - b) > 1.0f\<close> of the \<open>while\<close> loop of \<open>findPathOnRoads\<close>, and one pass
  through the body of the loop.
\<close>

definition apart :: "float \<Rightarrow> float \<Rightarrow> bool" where
  "apart a b = flt (Val 1) (fabs (fsub a b))"

definition path_step :: "float \<Rightarrow> Vector2 \<Rightarrow> Vector2 \<Rightarrow> Vector2" where
  "path_step blockSize e cur =
     (if apart (vx cur) (vx e)
      then Vector2 (fadd (vx cur) (if flt (vx cur) (vx e) then blockSize else fneg blockSize))
             (vy cur)
      else if apart (vy cur) (vy e)
      then Vector2 (vx cur)
             (fadd (vy cur) (if flt (vy cur) (vy e) then blockSize else fneg blockSize))
      else cur)"

text \<open>
  The \<open>while\<close> loop itself. Nothing bounds the number of passes, so the loop is a
  partial function: \<open>None\<close> when it never leaves.
\<close>

partial_function (option) path_loop ::
  "float \<Rightarrow> Vector2 \<Rightarrow> Vector2 \<Rightarrow> Vector2 list \<Rightarrow> Vector2 list option" where
  "path_loop blockSize e cur pth =
     (if apart (vx cur) (vx e) \<or> apart (vy cur) (vy e)
      then path_loop blockSize e (path_step blockSize e cur)
             (pth @ [path_step blockSize e cur])
      else Some pth)"

definition findPathOnRoads ::
  "Vector2 \<Rightarrow> Vector2 \<Rightarrow> float \<Rightarrow> float \<Rightarrow> float \<Rightarrow> int \<Rightarrow> int \<Rightarrow> Vector2 list option" where
  "findPathOnRoads start endp startX startY blockSize blocksX blocksY =
     (let s = findNearestRoadPoint start startX startY blockSize blocksX blocksY;
          e = findNearestRoadPoint endp startX startY blockSize blocksX blocksY
      in case path_loop blockSize e s [s] of
           None \<Rightarrow> None
         | Some pth \<Rightarrow> Some (pth @ [endp]))"

section \<open>Matching\<close>

text \<open>
  The loop of \<open>findNearestAvailableAmbulance\<close> over the roster, from index \<open>i\<close> on; the
  pair is \<open>(best, bestd)\<close>.
\<close>

fun nearest_scan :: "Vector2 \<Rightarrow> Ambulance list \<Rightarrow> nat \<Rightarrow> int \<times> float \<Rightarrow> int \<times> float" where
  "nearest_scan target [] i acc = acc"
| "nearest_scan target (a # as) i acc =
     nearest_scan target as (Suc i)
       (if status a = IDLE \<and> \<not> busy a
        then let dx = fsub (vx (pos a)) (vx target);
                 dy = fsub (vy (pos a)) (vy target);
                 d = hypot32 dx dy
             in if flt d (snd acc) then (int i, d) else acc
        else acc)"

definition findNearestAvailableAmbulance :: "Ambulance list \<Rightarrow> Vector2 \<Rightarrow> int" where
  "findNearestAvailableAmbulance ambs target =
     fst (nearest_scan target ambs 0 (- 1, Val FLT_MAX))"

text \<open>The assignments of \<open>dispatchVehicles\<close> to the matched ambulance.\<close>

definition assign :: "Ambulance \<Rightarrow> Emergency \<Rightarrow> Vector2 list \<Rightarrow> Ambulance" where
  "assign amb em pth =
     amb\<lparr>path := pth, currentPathIndex := 0, busy := True,
         assignedEmergencyId := em_id em,
         assignedPatientName := name (patient em),
         assignedHouseId := houseNumber (patient em),
         status := TO_SCENE, onSceneTimer := Val 0\<rparr>"

text \<open>
  The body of the \<open>while (!queue_.empty())\<close> loop of \<open>dispatchVehicles\<close> for the popped
  emergency \<open>em\<close>, on the roster and the backlog collected so far.
\<close>

definition dispatch_body ::
  "float \<Rightarrow> float \<Rightarrow> float \<Rightarrow> int \<Rightarrow> int \<Rightarrow> Emergency \<Rightarrow> Ambulance list \<Rightarrow> Emergency list
     \<Rightarrow> (Ambulance list \<times> Emergency list) option" where
  "dispatch_body startX startY blockSize blocksX blocksY em ambs backlog =
     (let idx = findNearestAvailableAmbulance ambs (location em)
      in if idx \<ge> 0
         then (case findPathOnRoads (pos (ambs ! nat idx)) (location em)
                      startX startY blockSize blocksX blocksY of
                 None \<Rightarrow> None
               | Some pth \<Rightarrow>
                   Some (ambs[nat idx := assign (ambs ! nat idx) em pth], backlog))
         else Some (ambs, backlog @ [em]))"

text \<open>The loop itself: pop the top, run the body, until the queue is empty.\<close>

function dispatch_loop ::
  "float \<Rightarrow> float \<Rightarrow> float \<Rightarrow> int \<Rightarrow> int \<Rightarrow> Emergency list \<Rightarrow> Ambulance list \<Rightarrow> Emergency list
     \<Rightarrow> (Ambulance list \<times> Emergency list) option" where
  "dispatch_loop startX startY blockSize blocksX blocksY q ambs backlog =
     (if q = [] then Some (ambs, backlog)
      else case dispatch_body startX startY blockSize blocksX blocksY (pq_top q) ambs backlog of
             None \<Rightarrow> None
           | Some (ambs', backlog') \<Rightarrow>
               dispatch_loop startX startY blockSize blocksX blocksY (pq_pop q) ambs' backlog')"
  by pat_completeness auto
termination
proof (relation "measure (\<lambda>(startX, startY, blockSize, blocksX, blocksY, q, ambs, backlog). length q)")
  show "wf (measure (\<lambda>(startX, startY, blockSize, blocksX, blocksY, q, ambs, backlog). length q))"
    by simp
next
  fix startX startY blockSize :: float and blocksX blocksY :: int
    and q backlog backlog' :: "Emergency list" and ambs ambs' :: "Ambulance list"
  assume ne: "q \<noteq> []"
  have mem: "pq_best b es \<in> set (b # es)" for b es
    by (induction es arbitrary: b) auto
  from ne obtain e es where c: "q = e # es" by (cases q) auto
  from mem [of e es] have "pq_top q \<in> set q" by (simp add: c)
  with ne have "length (pq_pop q) < length q"
    by (simp add: pq_pop_def length_remove1 Suc_pred')
  then show "((startX, startY, blockSize, blocksX, blocksY, pq_pop q, ambs', backlog'),
       startX, startY, blockSize, blocksX, blocksY, q, ambs, backlog)
      \<in> measure (\<lambda>(startX, startY, blockSize, blocksX, blocksY, q, ambs, backlog). length q)"
    by simp
qed

declare dispatch_loop.simps [simp del]

definition dispatchVehicles ::
  "float \<Rightarrow> float \<Rightarrow> float \<Rightarrow> int \<Rightarrow> int \<Rightarrow> Hospital \<Rightarrow> Hospital option" where
  "dispatchVehicles startX startY blockSize blocksX blocksY h =
     (if queue h = [] then Some h
      else case dispatch_loop startX startY blockSize blocksX blocksY
                  (queue h) (ambulances h) [] of
             None \<Rightarrow> None
           | Some (ambs, backlog) \<Rightarrow>
               Some (h\<lparr>ambulances := ambs, queue := fold pq_push backlog []\<rparr>))"

section \<open>The vehicle state machine\<close>

text \<open>
  The body of the loop of \<open>updateAfterMovement\<close> for one ambulance, on the ambulance and
  \<open>handledCount\<close>. \<open>path.back()\<close> of an empty vector is undefined. \<open>handledCount++\<close> is
  modelled without overflow: the count stays below \<open>nextEmergencyId\<close>.
\<close>

definition update_ambulance ::
  "float \<Rightarrow> float \<Rightarrow> float \<Rightarrow> int \<Rightarrow> int \<Rightarrow> float \<Rightarrow> float \<Rightarrow> Ambulance \<Rightarrow> int
     \<Rightarrow> (Ambulance \<times> int) option" where
  "update_ambulance startX startY blockSize blocksX blocksY duration dt amb hc =
     (if status amb = TO_SCENE
      then (if currentPathIndex amb \<ge> int (length (path amb))
            then Some (amb\<lparr>status := ON_SCENE, onSceneTimer := duration\<rparr>, hc)
            else if path amb = [] then None
            else let targ = last (path amb);
                     dx = fsub (vx targ) (vx (pos amb));
                     dy = fsub (vy targ) (vy (pos amb))
                 in if flt (hypot32 dx dy) (Val 4)
                    then Some (amb\<lparr>currentPathIndex := int (length (path amb)),
                                   status := ON_SCENE, onSceneTimer := duration\<rparr>, hc)
                    else Some (amb, hc))
      else if status amb = ON_SCENE
      then (let amb1 = amb\<lparr>onSceneTimer := fsub (onSceneTimer amb) dt\<rparr>
            in if fle (onSceneTimer amb1) (Val 0)
               then (case findPathOnRoads (pos amb1) (parkingPos amb1)
                            startX startY blockSize blocksX blocksY of
                       None \<Rightarrow> None
                     | Some pth \<Rightarrow>
                         Some (amb1\<lparr>path := pth, currentPathIndex := 0,
                                    status := RETURNING, assignedEmergencyId := - 1,
                                    assignedPatientName := [], assignedHouseId := - 1\<rparr>,
                               hc + 1))
               else Some (amb1, hc))
      else if status amb = RETURNING
      then (let targ = parkingPos amb;
                dx = fsub (vx targ) (vx (pos amb));
                dy = fsub (vy targ) (vy (pos amb))
            in if flt (hypot32 dx dy) (Val 4)
                  \<or> currentPathIndex amb \<ge> int (length (path amb))
               then Some (amb\<lparr>pos := parkingPos amb, path := [], currentPathIndex := 0,
                              status := IDLE, busy := False\<rparr>, hc)
               else Some (amb, hc))
      else Some (amb, hc))"

fun update_loop ::
  "float \<Rightarrow> float \<Rightarrow> float \<Rightarrow> int \<Rightarrow> int \<Rightarrow> float \<Rightarrow> float \<Rightarrow> Ambulance list \<Rightarrow> int
     \<Rightarrow> (Ambulance list \<times> int) option" where
  "update_loop startX startY blockSize blocksX blocksY duration dt [] hc = Some ([], hc)"
| "update_loop startX startY blockSize blocksX blocksY duration dt (amb # ambs) hc =
     (case update_ambulance startX startY blockSize blocksX blocksY duration dt amb hc of
        None \<Rightarrow> None
      | Some (amb', hc') \<Rightarrow>
          (case update_loop startX startY blockSize blocksX blocksY duration dt ambs hc' of
             None \<Rightarrow> None
           | Some (ambs', hc'') \<Rightarrow> Some (amb' # ambs', hc'')))"

definition updateAfterMovement ::
  "float \<Rightarrow> float \<Rightarrow> float \<Rightarrow> int \<Rightarrow> int \<Rightarrow> float \<Rightarrow> Hospital \<Rightarrow> Hospital option" where
  "updateAfterMovement startX startY blockSize blocksX blocksY dt h =
     (case update_loop startX startY blockSize blocksX blocksY (onSceneDurationSec h) dt
             (ambulances h) (handledCount h) of
        None \<Rightarrow> None
      | Some (ambs, hc) \<Rightarrow> Some (h\<lparr>ambulances := ambs, handledCount := hc\<rparr>))"

section \<open>The simulation step of \<open>main\<close>\<close>

text \<open>
  The motion integration that \<open>main\<close> runs on every ambulance before it calls
  \<open>dispatchVehicles\<close> and \<open>updateAfterMovement\<close>. Indexing the path with a negative
  \<open>currentPathIndex\<close> is undefined.
\<close>

definition move_ambulance :: "float \<Rightarrow> Ambulance \<Rightarrow> Ambulance option" where
  "move_ambulance dt amb =
     (if path amb \<noteq> [] \<and> currentPathIndex amb < int (length (path amb))
      then (if currentPathIndex amb < 0 then None
            else let t = path amb ! nat (currentPathIndex amb);
                     dx = fsub (vx t) (vx (pos amb));
                     dy = fsub (vy t) (vy (pos amb));
                     dist = hypot32 dx dy
                 in if flt (Val 3) dist
                    then let dx1 = fdiv dx dist;
                             dy1 = fdiv dy dist;
                             sp = (if status amb = RETURNING then fmul (speed amb) lit_0_8f
                                   else speed amb)
                         in Some (amb\<lparr>pos := Vector2
                                    (fadd (vx (pos amb)) (fmul (fmul dx1 sp) dt))
                                    (fadd (vy (pos amb)) (fmul (fmul dy1 sp) dt))\<rparr>)
                    else Some (amb\<lparr>currentPathIndex := currentPathIndex amb + 1\<rparr>))
      else (if status amb = IDLE
            then let tgt = parkingPos amb;
                     dx = fsub (vx tgt) (vx (pos amb));
                     dy = fsub (vy tgt) (vy (pos amb));
                     dist = hypot32 dx dy
                 in if flt (Val 1) dist
                    then Some (amb\<lparr>pos := Vector2
                             (fadd (vx (pos amb))
                                (fmul (fmul (fmul (fdiv dx dist) (speed amb)) lit_0_4f) dt))
                             (fadd (vy (pos amb))
                                (fmul (fmul (fmul (fdiv dy dist) (speed amb)) lit_0_4f) dt))\<rparr>)
                    else Some amb
            else Some amb))"

fun move_loop :: "float \<Rightarrow> Ambulance list \<Rightarrow> Ambulance list option" where
  "move_loop dt [] = Some []"
| "move_loop dt (amb # ambs) =
     (case move_ambulance dt amb of
        None \<Rightarrow> None
      | Some amb' \<Rightarrow>
          (case move_loop dt ambs of
             None \<Rightarrow> None
           | Some ambs' \<Rightarrow> Some (amb' # ambs')))"

definition move_ambulances :: "float \<Rightarrow> Hospital \<Rightarrow> Hospital option" where
  "move_ambulances dt h =
     (case move_loop dt (ambulances h) of
        None \<Rightarrow> None
      | Some ambs \<Rightarrow> Some (h\<lparr>ambulances := ambs\<rparr>))"

text \<open>One frame for one hospital: motion, then dispatch, then the state machine.\<close>

definition tick ::
  "float \<Rightarrow> float \<Rightarrow> float \<Rightarrow> int \<Rightarrow> int \<Rightarrow> float \<Rightarrow> Hospital \<Rightarrow> Hospital option" where
  "tick startX startY blockSize blocksX blocksY dt h =
     (case move_ambulances dt h of
        None \<Rightarrow> None
      | Some h1 \<Rightarrow>
          (case dispatchVehicles startX startY blockSize blocksX blocksY h1 of
             None \<Rightarrow> None
           | Some h2 \<Rightarrow> updateAfterMovement startX startY blockSize blocksX blocksY dt h2))"

text \<open>
  The states a hospital can be in: constructed, then any sequence of intakes, motion
  steps, dispatch passes and state-machine updates that return.
\<close>

inductive reachable :: "Hospital \<Rightarrow> bool" where
  r_ctor: "Hospital_ctor loc parkingPositions startAmbId onSceneDuration = Some h
            \<Longrightarrow> reachable h"
| r_receive: "reachable h \<Longrightarrow> receiveEmergency incoming now h = Some h' \<Longrightarrow> reachable h'"
| r_move: "reachable h \<Longrightarrow> move_ambulances dt h = Some h' \<Longrightarrow> reachable h'"
| r_dispatch: "reachable h
            \<Longrightarrow> dispatchVehicles startX startY blockSize blocksX blocksY h = Some h'
            \<Longrightarrow> reachable h'"
| r_update: "reachable h
            \<Longrightarrow> updateAfterMovement startX startY blockSize blocksX blocksY dt h = Some h'
            \<Longrightarrow> reachable h'"

section \<open>Vocabulary of the properties\<close>

text \<open>
  \<open>best_first a b\<close>: \<open>a\<close> is not ranked after \<open>b\<close>, that is, the pair (priority, createdAt)
  of \<open>a\<close> is lexicographically at most that of \<open>b\<close>.
\<close>

definition best_first :: "Emergency \<Rightarrow> Emergency \<Rightarrow> bool" where
  "best_first a b =
     (priority a < priority b \<or> (priority a = priority b \<and> createdAt a \<le> createdAt b))"


text \<open>
  \<open>is_f32 c\<close>: \<open>c\<close> is a number of the binary32 grid, a significand of at most 24 bits
  times a power of two not below the smallest subnormal number.
\<close>

definition is_f32 :: "real \<Rightarrow> bool" where
  "is_f32 c = (\<exists>m k :: int. c = of_int m * 2 powr of_int k \<and> \<bar>m\<bar> < 16777216 \<and> - 149 \<le> k)"

text \<open>
  \<open>eligible\<close> is the test of \<open>findNearestAvailableAmbulance\<close>. \<open>euclid\<close> is the exact
  straight-line distance between two points with finite coordinates. \<open>dist32\<close> is the
  distance as the program computes it, in binary32. \<open>measured\<close> reads the computed distance
  as a real number; a computed distance that is not a finite number (an infinity after
  overflow, or not-a-number) counts as \<open>FLT_MAX\<close>, the start value of the running minimum
  of the scan: such a distance is never below the running minimum.
\<close>

definition eligible :: "Ambulance \<Rightarrow> bool" where
  "eligible a = (status a = IDLE \<and> \<not> busy a)"

fun euclid :: "Vector2 \<Rightarrow> Vector2 \<Rightarrow> real option" where
  "euclid (Vector2 (Val x1) (Val y1)) (Vector2 (Val x2) (Val y2))
     = Some (sqrt ((x1 - x2)\<^sup>2 + (y1 - y2)\<^sup>2))"
| "euclid p q = None"

definition dist32 :: "Vector2 \<Rightarrow> Vector2 \<Rightarrow> float" where
  "dist32 p q = hypot32 (fsub (vx p) (vx q)) (fsub (vy p) (vy q))"

definition measured :: "Vector2 \<Rightarrow> Vector2 \<Rightarrow> real" where
  "measured p q = (case dist32 p q of Val d \<Rightarrow> d | PInf \<Rightarrow> FLT_MAX | NInf \<Rightarrow> FLT_MAX | NaN \<Rightarrow> FLT_MAX)"

text \<open>The loop of \<open>dispatchVehicles\<close> as a pass over a list of emergencies in order.\<close>

fun dispatch_list ::
  "float \<Rightarrow> float \<Rightarrow> float \<Rightarrow> int \<Rightarrow> int \<Rightarrow> Emergency list \<Rightarrow> Ambulance list \<Rightarrow> Emergency list
     \<Rightarrow> (Ambulance list \<times> Emergency list) option" where
  "dispatch_list startX startY blockSize blocksX blocksY [] ambs backlog = Some (ambs, backlog)"
| "dispatch_list startX startY blockSize blocksX blocksY (em # ems) ambs backlog =
     (case dispatch_body startX startY blockSize blocksX blocksY em ambs backlog of
        None \<Rightarrow> None
      | Some (ambs', backlog') \<Rightarrow>
          dispatch_list startX startY blockSize blocksX blocksY ems ambs' backlog')"

text \<open>
  \<open>holds_emergency\<close>: the ambulance is on a call whose emergency is not yet handled.
  \<open>amb_ok\<close> relates the fields of one ambulance; \<open>unresolved_ids\<close> collects the ids of
  the queued emergencies and of the emergencies held by ambulances.
\<close>

definition holds_emergency :: "Ambulance \<Rightarrow> bool" where
  "holds_emergency a = (status a = TO_SCENE \<or> status a = ON_SCENE)"

definition amb_ok :: "Ambulance \<Rightarrow> bool" where
  "amb_ok a =
     ((busy a = (status a \<noteq> IDLE))
      \<and> (\<not> holds_emergency a \<longrightarrow>
            assignedEmergencyId a = - 1 \<and> assignedPatientName a = [] \<and> assignedHouseId a = - 1)
      \<and> (status a = IDLE \<longrightarrow> path a = [] \<and> currentPathIndex a = 0)
      \<and> 0 \<le> currentPathIndex a)"

definition assigned_ids :: "Ambulance list \<Rightarrow> int multiset" where
  "assigned_ids ambs = image_mset assignedEmergencyId (filter_mset holds_emergency (mset ambs))"

definition unresolved_ids :: "Hospital \<Rightarrow> int multiset" where
  "unresolved_ids h = mset (map em_id (queue h)) + assigned_ids (ambulances h)"

definition hosp_inv :: "Hospital \<Rightarrow> bool" where
  "hosp_inv h =
     ((\<forall>a \<in> set (ambulances h). amb_ok a)
      \<and> (\<forall>i. count (unresolved_ids h) i \<le> 1)
      \<and> (\<forall>i \<in># unresolved_ids h. 1 \<le> i \<and> i < nextEmergencyId h)
      \<and> int (size (unresolved_ids h)) + handledCount h = nextEmergencyId h - 1
      \<and> 0 \<le> handledCount h
      \<and> nextEmergencyId h \<le> INT_MAX)"

definition held_id :: "Ambulance \<Rightarrow> int multiset" where
  "held_id a = (if holds_emergency a then {#assignedEmergencyId a#} else {#})"

definition held_list :: "Ambulance list \<Rightarrow> int list" where
  "held_list ambs = map assignedEmergencyId (filter holds_emergency ambs)"

text \<open>
  \<open>one_place h\<close>: the queued ids are pairwise different; no two ambulances carry the same
  emergency id; no ambulance carries the id of a queued emergency; every id in the queue
  or carried by an ambulance was handed out by the intake counter; and the emergencies
  received so far are exactly the queued ones, the carried ones and the handled ones.
\<close>

definition one_place :: "Hospital \<Rightarrow> bool" where
  "one_place h =
     (distinct (map em_id (queue h))
      \<and> (\<forall>i < length (ambulances h). \<forall>j < length (ambulances h).
            i \<noteq> j \<and> assignedEmergencyId (ambulances h ! i) \<noteq> - 1
            \<longrightarrow> assignedEmergencyId (ambulances h ! i) \<noteq> assignedEmergencyId (ambulances h ! j))
      \<and> (\<forall>e \<in> set (queue h). \<forall>a \<in> set (ambulances h). assignedEmergencyId a \<noteq> em_id e)
      \<and> (\<forall>e \<in> set (queue h). 1 \<le> em_id e \<and> em_id e < nextEmergencyId h)
      \<and> (\<forall>a \<in> set (ambulances h). assignedEmergencyId a \<noteq> - 1
            \<longrightarrow> 1 \<le> assignedEmergencyId a \<and> assignedEmergencyId a < nextEmergencyId h)
      \<and> int (length (queue h))
          + int (length (filter (\<lambda>a. assignedEmergencyId a \<noteq> - 1) (ambulances h)))
          + handledCount h = nextEmergencyId h - 1)"


text \<open>
  \<open>nearest_idle ambs target k\<close>: ambulance \<open>k\<close> of the roster is eligible, no eligible
  ambulance has a smaller computed distance to the target, and every eligible ambulance
  before it in the roster has a strictly greater one.
\<close>

definition nearest_idle :: "Ambulance list \<Rightarrow> Vector2 \<Rightarrow> nat \<Rightarrow> bool" where
  "nearest_idle ambs target k =
     (k < length ambs \<and> eligible (ambs ! k)
      \<and> (\<forall>j < length ambs. eligible (ambs ! j) \<longrightarrow>
            measured (pos (ambs ! k)) target \<le> measured (pos (ambs ! j)) target)
      \<and> (\<forall>j < k. eligible (ambs ! j) \<longrightarrow>
            measured (pos (ambs ! k)) target < measured (pos (ambs ! j)) target))"

text \<open>The rank of an emergency in the queue order.\<close>

definition rank :: "Emergency \<Rightarrow> int \<times> real" where
  "rank e = (priority e, createdAt e)"

text \<open>
  \<open>unmatched ambs e\<close>: no ambulance of the roster carries the id of the emergency \<open>e\<close>.
\<close>

definition unmatched :: "Ambulance list \<Rightarrow> Emergency \<Rightarrow> bool" where
  "unmatched ambs e = (\<forall>a \<in> set ambs. assignedEmergencyId a \<noteq> em_id e)"

text \<open>
  A grid on which the arithmetic of the path finder is exact: origin and cell size are
  whole numbers, the cell size is at least 1, the cell counts are not negative, and the
  intersections lie within \<open>2^23\<close> of zero. \<open>in_range p\<close>: the coordinates of \<open>p\<close> are
  finite and within \<open>2^28\<close> of zero, so that \<open>p\<close> is closer than \<open>1e9f\<close> to such a grid.
  The grid of \<open>main\<close> (origin (100, 100), cell size 200, 3 by 3 cells) is of this kind.
\<close>

definition whole :: "real \<Rightarrow> bool" where
  "whole x = (x = of_int \<lfloor>x\<rfloor>)"

fun grid_ok :: "float \<Rightarrow> float \<Rightarrow> float \<Rightarrow> int \<Rightarrow> int \<Rightarrow> bool" where
  "grid_ok (Val sx) (Val sy) (Val b) blocksX blocksY =
     (whole sx \<and> whole sy \<and> whole b \<and> 1 \<le> b \<and> 0 \<le> blocksX \<and> 0 \<le> blocksY
      \<and> \<bar>sx\<bar> + b * of_int blocksX \<le> 8388608 \<and> \<bar>sy\<bar> + b * of_int blocksY \<le> 8388608)"
| "grid_ok startX startY blockSize blocksX blocksY = False"

fun in_range :: "Vector2 \<Rightarrow> bool" where
  "in_range (Vector2 (Val x) (Val y)) = (\<bar>x\<bar> \<le> 268435456 \<and> \<bar>y\<bar> \<le> 268435456)"
| "in_range p = False"

text \<open>
  \<open>on_grid \<dots> p\<close>: \<open>p\<close> is one of the intersections that \<open>findNearestRoadPoint\<close> scans.
\<close>

definition on_grid :: "float \<Rightarrow> float \<Rightarrow> float \<Rightarrow> int \<Rightarrow> int \<Rightarrow> Vector2 \<Rightarrow> bool" where
  "on_grid startX startY blockSize blocksX blocksY p =
     (\<exists>i j. 0 \<le> i \<and> i \<le> blocksX \<and> 0 \<le> j \<and> j \<le> blocksY
        \<and> p = Vector2 (fadd startX (fmul (float_of_int i) blockSize))
                      (fadd startY (fmul (float_of_int j) blockSize)))"

text \<open>
  \<open>reachable_log h seen\<close>: the state \<open>h\<close> is reachable, and \<open>seen\<close> lists, in the order of
  their arrival, the emergencies as \<open>receiveEmergency\<close> has stamped and enqueued them on
  the way. \<open>carries a e\<close>: the assignment fields of the ambulance \<open>a\<close> are those of the
  emergency \<open>e\<close>.
\<close>

inductive reachable_log :: "Hospital \<Rightarrow> Emergency list \<Rightarrow> bool" where
  l_ctor: "Hospital_ctor loc parkingPositions startAmbId onSceneDuration = Some h
            \<Longrightarrow> reachable_log h []"
| l_receive: "reachable_log h seen \<Longrightarrow> receiveEmergency incoming now h = Some h'
            \<Longrightarrow> reachable_log h' (seen @ [incoming\<lparr>em_id := nextEmergencyId h, createdAt := now\<rparr>])"
| l_move: "reachable_log h seen \<Longrightarrow> move_ambulances dt h = Some h' \<Longrightarrow> reachable_log h' seen"
| l_dispatch: "reachable_log h seen
            \<Longrightarrow> dispatchVehicles startX startY blockSize blocksX blocksY h = Some h'
            \<Longrightarrow> reachable_log h' seen"
| l_update: "reachable_log h seen
            \<Longrightarrow> updateAfterMovement startX startY blockSize blocksX blocksY dt h = Some h'
            \<Longrightarrow> reachable_log h' seen"

definition carries :: "Ambulance \<Rightarrow> Emergency \<Rightarrow> bool" where
  "carries a e =
     (assignedEmergencyId a = em_id e \<and> assignedPatientName a = name (patient e)
      \<and> assignedHouseId a = houseNumber (patient e))"

text \<open>
  \<open>log_inv\<close>: everything in the queue was received, every ambulance on a call carries the
  fields of an emergency received, and the ids received are pairwise different and below
  the counter.
\<close>

definition log_inv :: "Hospital \<Rightarrow> Emergency list \<Rightarrow> bool" where
  "log_inv h seen =
     (set (queue h) \<subseteq> set seen
      \<and> (\<forall>a \<in> set (ambulances h). holds_emergency a \<longrightarrow> (\<exists>e \<in> set seen. carries a e))
      \<and> (\<forall>e \<in> set seen. 1 \<le> em_id e \<and> em_id e < nextEmergencyId h)
      \<and> distinct (map em_id seen))"

text \<open>The point with the finite coordinates \<open>x\<close> and \<open>y\<close>.\<close>

abbreviation pt :: "real \<Rightarrow> real \<Rightarrow> Vector2" where
  "pt x y \<equiv> Vector2 (Val x) (Val y)"

section \<open>Concrete scenarios\<close>

text \<open>A patient, an emergency as the form of \<open>main\<close> builds it, and a freshly built hospital.\<close>

definition ex_patient :: PatientInfo where
  "ex_patient = \<lparr>name = ''Ada'', age = 36, severity = ''High'', desc = [], houseNumber = 7\<rparr>"

definition ex_em :: "int \<Rightarrow> real \<Rightarrow> real \<Rightarrow> Emergency" where
  "ex_em p lx ly = \<lparr>em_id = 0, patient = ex_patient, location = pt lx ly, priority = p,
                 createdAt = 0, assignedHospital = 0\<rparr>"

definition ex_hospital :: "Vector2 list \<Rightarrow> Hospital" where
  "ex_hospital ps = \<lparr>hosp_location = pt 0 0, ambulances = make_ambulances 1 ps,
      queue = [], nextEmergencyId = 1, handledCount = 0, onSceneDurationSec = Val 4\<rparr>"

definition ex_queue2 :: Hospital where
  "ex_queue2 = (ex_hospital [])\<lparr>queue := [(ex_em 3 0 0)\<lparr>em_id := 1, createdAt := 1\<rparr>,
       (ex_em 1 0 0)\<lparr>em_id := 2, createdAt := 2\<rparr>], nextEmergencyId := 3\<rparr>"

definition ex_queue3 :: Hospital where
  "ex_queue3 = (ex_hospital [])\<lparr>queue := [(ex_em 3 0 0)\<lparr>em_id := 1, createdAt := 1\<rparr>,
       (ex_em 1 0 0)\<lparr>em_id := 2, createdAt := 2\<rparr>,
       (ex_em 2 0 0)\<lparr>em_id := 3, createdAt := 3\<rparr>], nextEmergencyId := 4\<rparr>"

text \<open>
  A hospital with two ambulances on the grid of \<open>main\<close> (origin (100, 100), cell size
  200, 3 by 3 cells) receives three emergencies (state \<open>ex_s3\<close>); one dispatch pass
  matches the two best-ranked ones (\<open>ex_s4\<close>); the first ambulance arrives at once
  (\<open>ex_s5\<close>), serves, and starts its return (\<open>ex_s6\<close>). A fourth emergency arrives
  while no ambulance is idle (\<open>ex_s7\<close>); the first ambulance becomes idle (\<open>ex_s9\<close>)
  and the next pass gives it to the third emergency (\<open>ex_s10\<close>).
\<close>

definition ex_amb :: "int \<Rightarrow> Vector2 \<Rightarrow> Ambulance" where
  "ex_amb i p = \<lparr>amb_id = i, pos = p, parkingPos = p, speed = Val 150, path = [],
      currentPathIndex = 0, busy = False, assignedEmergencyId = - 1,
      assignedPatientName = [], assignedHouseId = - 1, status = IDLE, onSceneTimer = Val 0\<rparr>"

definition ex_e1 :: Emergency where
  "ex_e1 = (ex_em 2 102 92)\<lparr>em_id := 1, createdAt := 1\<rparr>"

definition ex_e2 :: Emergency where
  "ex_e2 = (ex_em 1 310 100)\<lparr>em_id := 2, createdAt := 2\<rparr>"

definition ex_e3 :: Emergency where
  "ex_e3 = (ex_em 3 500 300)\<lparr>em_id := 3, createdAt := 3\<rparr>"

definition ex_s0 :: Hospital where
  "ex_s0 = \<lparr>hosp_location = pt 450 0,
      ambulances = [ex_amb 1 (pt 100 90), ex_amb 2 (pt 300 90)],
      queue = [], nextEmergencyId = 1, handledCount = 0, onSceneDurationSec = Val 4\<rparr>"

definition ex_s3 :: Hospital where
  "ex_s3 = ex_s0\<lparr>queue := [ex_e1, ex_e2, ex_e3], nextEmergencyId := 4\<rparr>"

definition ex_s4 :: Hospital where
  "ex_s4 = ex_s3\<lparr>ambulances :=
       [assign (ex_amb 1 (pt 100 90)) ex_e1 [pt 100 100, pt 102 92],
        assign (ex_amb 2 (pt 300 90)) ex_e2 [pt 300 100, pt 310 100]],
     queue := [ex_e3]\<rparr>"

definition ex_a1 :: Ambulance where
  "ex_a1 = assign (ex_amb 1 (pt 100 90)) ex_e1 [pt 100 100, pt 102 92]"

definition ex_a2 :: Ambulance where
  "ex_a2 = assign (ex_amb 2 (pt 300 90)) ex_e2 [pt 300 100, pt 310 100]"

definition ex_s5 :: Hospital where
  "ex_s5 = ex_s4\<lparr>ambulances :=
       [ex_a1\<lparr>currentPathIndex := 2, status := ON_SCENE, onSceneTimer := Val 4\<rparr>, ex_a2]\<rparr>"

definition ex_s6 :: Hospital where
  "ex_s6 = ex_s5\<lparr>ambulances :=
       [ex_a1\<lparr>currentPathIndex := 0, status := RETURNING, onSceneTimer := Val (- 1),
              path := [pt 100 100, pt 100 90], assignedEmergencyId := - 1,
              assignedPatientName := [], assignedHouseId := - 1\<rparr>, ex_a2],
     handledCount := 1\<rparr>"

definition ex_e4 :: Emergency where
  "ex_e4 = (ex_em 3 110 95)\<lparr>em_id := 4, createdAt := 7\<rparr>"

definition ex_a1_returning :: Ambulance where
  "ex_a1_returning = ex_a1\<lparr>currentPathIndex := 0, status := RETURNING, onSceneTimer := Val (- 1),
              path := [pt 100 100, pt 100 90], assignedEmergencyId := - 1,
              assignedPatientName := [], assignedHouseId := - 1\<rparr>"

definition ex_a1_idle :: Ambulance where
  "ex_a1_idle = ex_a1_returning\<lparr>path := [], status := IDLE, busy := False\<rparr>"

definition ex_s7 :: Hospital where
  "ex_s7 = ex_s6\<lparr>queue := [ex_e3, ex_e4], nextEmergencyId := 5\<rparr>"

definition ex_s9 :: Hospital where
  "ex_s9 = ex_s7\<lparr>ambulances := [ex_a1_idle, ex_a2]\<rparr>"

definition ex_s10 :: Hospital where
  "ex_s10 = ex_s9\<lparr>ambulances :=
       [assign ex_a1_idle ex_e3
          [pt 100 100, pt 300 100, pt 500 100, pt 500 300, pt 500 300],
        ex_a2],
     queue := [ex_e4]\<rparr>"

text \<open>
  Two scenarios on a grid with the single intersection (0, 0) and an emergency at
  \<open>(2^-30, 0)\<close>. In the first, a hospital has ambulances at (-4, 0) and (4, 0): the exact
  distances to the emergency are \<open>4 + 2^-30\<close> and \<open>4 - 2^-30\<close>, and both computed
  distances are 4. In the second, the hospital has one ambulance, at (4, 0).
\<close>

definition cx_e :: Emergency where
  "cx_e = (ex_em 1 (1 / 1073741824) 0)\<lparr>em_id := 1, createdAt := 1\<rparr>"

definition cx_s0 :: Hospital where
  "cx_s0 = \<lparr>hosp_location = pt 0 0,
      ambulances = [ex_amb 1 (pt (- 4) 0), ex_amb 2 (pt 4 0)],
      queue = [], nextEmergencyId = 1, handledCount = 0, onSceneDurationSec = Val 4\<rparr>"

definition cx_s1 :: Hospital where
  "cx_s1 = cx_s0\<lparr>queue := [cx_e], nextEmergencyId := 2\<rparr>"

definition cx_s2 :: Hospital where
  "cx_s2 = cx_s1\<lparr>ambulances :=
       [assign (ex_amb 1 (pt (- 4) 0)) cx_e [pt 0 0, pt (1 / 1073741824) 0],
        ex_amb 2 (pt 4 0)],
     queue := []\<rparr>"

definition cy_s0 :: Hospital where
  "cy_s0 = \<lparr>hosp_location = pt 0 0, ambulances = [ex_amb 1 (pt 4 0)],
      queue = [], nextEmergencyId = 1, handledCount = 0, onSceneDurationSec = Val 4\<rparr>"

definition cy_s1 :: Hospital where
  "cy_s1 = cy_s0\<lparr>queue := [cx_e], nextEmergencyId := 2\<rparr>"

definition cy_s2 :: Hospital where
  "cy_s2 = cy_s1\<lparr>ambulances :=
       [assign (ex_amb 1 (pt 4 0)) cx_e [pt 0 0, pt (1 / 1073741824) 0]],
     queue := []\<rparr>"

text \<open>
  A hospital whose only ambulance stands at \<open>(2^64, 0)\<close>, and an emergency at (0, 0): the
  exact distance is \<open>2^64\<close>, and the square of the coordinate difference is beyond the
  largest binary32 number.
\<close>

definition cz_e :: Emergency where
  "cz_e = (ex_em 1 0 0)\<lparr>em_id := 1, createdAt := 1\<rparr>"

definition cz_s0 :: Hospital where
  "cz_s0 = \<lparr>hosp_location = pt 0 0,
      ambulances = [ex_amb 1 (pt 18446744073709551616 0)],
      queue = [], nextEmergencyId = 1, handledCount = 0, onSceneDurationSec = Val 4\<rparr>"

definition cz_s1 :: Hospital where
  "cz_s1 = cz_s0\<lparr>queue := [cz_e], nextEmergencyId := 2\<rparr>"

section \<open>Binary32 rounding: exact values, order and bounds\<close>

lemma round_even_of_int [simp]: "round_even (of_int n) = n"
  by (simp add: round_even_def)

lemma round_even_ge_floor: "\<lfloor>q\<rfloor> \<le> round_even q"
  by (simp add: round_even_def Let_def)

lemma round_even_le_ceiling: "round_even q \<le> \<lceil>q\<rceil>"
proof -
  have "q - of_int \<lfloor>q\<rfloor> \<ge> 1 / 2 \<Longrightarrow> \<lfloor>q\<rfloor> + 1 \<le> \<lceil>q\<rceil>"
    by linarith
  then show ?thesis
    by (auto simp add: round_even_def Let_def)
qed

lemma round_even_mono: "p \<le> q \<Longrightarrow> round_even p \<le> round_even q"
proof -
  assume pq: "p \<le> q"
  have fl: "\<lfloor>p\<rfloor> \<le> \<lfloor>q\<rfloor>" using pq by (rule floor_mono)
  show ?thesis
  proof (cases "\<lfloor>p\<rfloor> = \<lfloor>q\<rfloor>")
    case True
    with pq show ?thesis
      by (auto simp add: round_even_def Let_def)
  next
    case False
    with fl have "\<lfloor>p\<rfloor> + 1 \<le> \<lfloor>q\<rfloor>" by simp
    moreover have "round_even p \<le> \<lfloor>p\<rfloor> + 1" by (simp add: round_even_def Let_def)
    moreover have "\<lfloor>q\<rfloor> \<le> round_even q" by (rule round_even_ge_floor)
    ultimately show ?thesis by linarith
  qed
qed

lemma round_even_minus: "round_even (- q) = - round_even q"
proof (cases "q = of_int \<lfloor>q\<rfloor>")
  case True
  then obtain n :: int where "q = of_int n" ..
  then have "- q = of_int (- n)" by simp
  then show ?thesis using \<open>q = of_int n\<close> by (metis round_even_of_int)
next
  case False
  then have lt: "of_int \<lfloor>q\<rfloor> < q" by linarith
  have fm: "\<lfloor>- q\<rfloor> = - \<lfloor>q\<rfloor> - 1" using lt by linarith
  show ?thesis
    unfolding round_even_def Let_def fm using lt
    by (auto simp add: algebra_simps)
qed


lemma p2_pos [simp]: "0 < (2::real) powr of_int k"
  by simp

lemma p2_add: "(2::real) powr of_int (a + b) = 2 powr of_int a * 2 powr of_int b"
  by (simp add: powr_add)

lemma p2_diff: "(2::real) powr of_int (a - b) = 2 powr of_int a / 2 powr of_int b"
  by (simp add: powr_diff)

lemma p2_nat: "0 \<le> k \<Longrightarrow> (2::real) powr of_int k = 2 ^ nat k"
proof -
  assume "0 \<le> k"
  then have "(of_int k :: real) = real (nat k)" by simp
  then show ?thesis by (simp only: powr_realpow [of 2, simplified])
qed

lemma p2_of_int: "0 \<le> k \<Longrightarrow> (2::real) powr of_int k = of_int (2 ^ nat k)"
  by (simp add: p2_nat)

lemma p2_mono: "a \<le> b \<Longrightarrow> (2::real) powr of_int a \<le> 2 powr of_int b"
  by simp

lemma p2_less: "(2::real) powr of_int a < 2 powr of_int b \<Longrightarrow> a < b"
  by simp

lemma expo32_ge: "- 126 \<le> expo32 x"
  by (simp add: expo32_def)

lemma expo32_upper: "x \<noteq> 0 \<Longrightarrow> \<bar>x\<bar> < 2 powr of_int (expo32 x + 1)"
proof -
  assume "x \<noteq> 0"
  then have pos: "0 < \<bar>x\<bar>" by simp
  have "2 powr of_int \<lfloor>log 2 \<bar>x\<bar>\<rfloor> \<le> \<bar>x\<bar> \<and> \<bar>x\<bar> < 2 powr (of_int \<lfloor>log 2 \<bar>x\<bar>\<rfloor> + 1)"
    using floor_log_eq_powr_iff [OF pos, of 2 "\<lfloor>log 2 \<bar>x\<bar>\<rfloor>"] by simp
  then have "\<bar>x\<bar> < 2 powr of_int (\<lfloor>log 2 \<bar>x\<bar>\<rfloor> + 1)" by simp
  also have "\<dots> \<le> 2 powr of_int (expo32 x + 1)"
    by (rule p2_mono) (simp add: expo32_def)
  finally show ?thesis .
qed

lemma expo32_lower: "x \<noteq> 0 \<Longrightarrow> - 126 < expo32 x \<Longrightarrow> 2 powr of_int (expo32 x) \<le> \<bar>x\<bar>"
proof -
  assume "x \<noteq> 0" and big: "- 126 < expo32 x"
  then have pos: "0 < \<bar>x\<bar>" by simp
  from big have eq: "expo32 x = \<lfloor>log 2 \<bar>x\<bar>\<rfloor>" by (simp add: expo32_def max_def split: if_splits)
  have "2 powr of_int \<lfloor>log 2 \<bar>x\<bar>\<rfloor> \<le> \<bar>x\<bar> \<and> \<bar>x\<bar> < 2 powr (of_int \<lfloor>log 2 \<bar>x\<bar>\<rfloor> + 1)"
    using floor_log_eq_powr_iff [OF pos, of 2 "\<lfloor>log 2 \<bar>x\<bar>\<rfloor>"] by simp
  then show ?thesis by (simp add: eq)
qed

lemma expo32_eq:
  "2 powr of_int e \<le> \<bar>x\<bar> \<Longrightarrow> \<bar>x\<bar> < 2 powr of_int (e + 1) \<Longrightarrow> - 126 \<le> e \<Longrightarrow> expo32 x = e"
proof -
  assume lo: "2 powr of_int e \<le> \<bar>x\<bar>" and hi: "\<bar>x\<bar> < 2 powr of_int (e + 1)" and e: "- 126 \<le> e"
  have "0 < (2::real) powr of_int e" by simp
  with lo have pos: "0 < \<bar>x\<bar>" by linarith
  have "\<lfloor>log 2 \<bar>x\<bar>\<rfloor> = e"
    using floor_log_eq_powr_iff [OF pos, of 2 e] lo hi by simp
  with e show ?thesis by (simp add: expo32_def)
qed

lemma expo32_mono: "0 < x \<Longrightarrow> x \<le> y \<Longrightarrow> expo32 x \<le> expo32 y"
proof -
  assume "0 < x" "x \<le> y"
  then have "log 2 \<bar>x\<bar> \<le> log 2 \<bar>y\<bar>" by simp
  then have "\<lfloor>log 2 \<bar>x\<bar>\<rfloor> \<le> \<lfloor>log 2 \<bar>y\<bar>\<rfloor>" by (rule floor_mono)
  then show ?thesis by (simp add: expo32_def)
qed

lemma ulp32_pos [simp]: "0 < ulp32 x"
  by (simp add: ulp32_def)

lemma ulp32_nonneg [simp]: "0 \<le> ulp32 x"
  by (simp add: ulp32_def)

lemma ulp32_minus [simp]: "ulp32 (- x) = ulp32 x"
  by (simp add: ulp32_def expo32_def)

lemma round32_minus: "round32 (- x) = - round32 x"
  by (simp add: round32_def round_even_minus)

lemma round32_0 [simp]: "round32 0 = 0"
  by (simp add: round32_def)

lemma is_f32_0: "is_f32 0"
  unfolding is_f32_def by (rule exI [of _ 0], rule exI [of _ 0]) simp

lemma is_f32_minus: "is_f32 c \<Longrightarrow> is_f32 (- c)"
proof -
  assume "is_f32 c"
  then obtain m k :: int where c: "c = of_int m * 2 powr of_int k" "\<bar>m\<bar> < 16777216" "- 149 \<le> k"
    unfolding is_f32_def by blast
  then have "- c = of_int (- m) * 2 powr of_int k \<and> \<bar>- m\<bar> < 16777216 \<and> - 149 \<le> k" by simp
  then show ?thesis unfolding is_f32_def by blast
qed

text \<open>A multiple of the unit in the last place is a whole number of units.\<close>

lemma whole_units:
  "e - 23 \<le> k \<Longrightarrow>
     \<exists>N :: int. of_int m * 2 powr of_int k = of_int N * (2::real) powr of_int (e - 23)"
proof -
  assume le: "e - 23 \<le> k"
  have "(2::real) powr of_int k = 2 powr of_int ((k - (e - 23)) + (e - 23))" by simp
  also have "\<dots> = 2 powr of_int (k - (e - 23)) * 2 powr of_int (e - 23)" by (rule p2_add)
  also have "2 powr of_int (k - (e - 23)) = (of_int (2 ^ nat (k - (e - 23))) :: real)"
    using le by (intro p2_of_int) simp
  finally have "of_int m * 2 powr of_int k
      = of_int (m * 2 ^ nat (k - (e - 23))) * (2::real) powr of_int (e - 23)"
    by simp
  then show ?thesis ..
qed

lemma round32_units: "x \<noteq> 0 \<Longrightarrow> x = of_int N * ulp32 x \<Longrightarrow> round32 x = x"
proof -
  assume nz: "x \<noteq> 0" and x: "x = of_int N * ulp32 x"
  have "x / ulp32 x = of_int N"
    using x ulp32_pos [of x] by (metis nonzero_mult_div_cancel_right less_irrefl)
  then show ?thesis using nz x by (simp add: round32_def)
qed


lemma f32_expo: 
  assumes c: "c = of_int m * 2 powr of_int k" and m: "\<bar>m\<bar> < 16777216" and k: "- 149 \<le> k"
    and nz: "c \<noteq> 0"
  shows "expo32 c - 23 \<le> k"
proof (cases "- 126 < expo32 c")
  case False
  with expo32_ge [of c] have "expo32 c = - 126" by simp
  with k show ?thesis by simp
next
  case True
  from expo32_lower [OF nz True] have "2 powr of_int (expo32 c) \<le> \<bar>c\<bar>" .
  also have "\<bar>c\<bar> = \<bar>of_int m\<bar> * 2 powr of_int k" by (simp add: c abs_mult)
  also have "\<dots> < 16777216 * 2 powr of_int k"
  proof (rule mult_strict_right_mono)
    from m have "(of_int \<bar>m\<bar> :: real) < of_int 16777216" by (simp only: of_int_less_iff)
    then show "\<bar>of_int m :: real\<bar> < 16777216" by simp
  qed simp
  also have "\<dots> = 2 powr of_int 24 * 2 powr of_int k" by simp
  also have "\<dots> = 2 powr of_int (24 + k)" by (simp only: p2_add)
  finally have "expo32 c < 24 + k" by (rule p2_less)
  then show ?thesis by simp
qed

lemma round32_exact: "is_f32 c \<Longrightarrow> round32 c = c"
proof (cases "c = 0")
  case True
  then show ?thesis by simp
next
  case False
  assume "is_f32 c"
  then obtain m k :: int where c: "c = of_int m * 2 powr of_int k" "\<bar>m\<bar> < 16777216" "- 149 \<le> k"
    unfolding is_f32_def by blast
  from f32_expo [OF c False] have "expo32 c - 23 \<le> k" .
  from whole_units [OF this, of m] obtain N :: int
    where "of_int m * 2 powr of_int k = of_int N * (2::real) powr of_int (expo32 c - 23)" ..
  then have "c = of_int N * ulp32 c" by (simp add: c(1) [symmetric] ulp32_def)
  with False show ?thesis by (rule round32_units)
qed

lemma round32_nonneg: "0 < x \<Longrightarrow> 0 \<le> round32 x"
proof -
  assume x: "0 < x"
  then have "0 \<le> x / ulp32 x" by (intro divide_nonneg_nonneg) simp_all
  then have "0 \<le> \<lfloor>x / ulp32 x\<rfloor>" by simp
  with round_even_ge_floor [of "x / ulp32 x"] have "0 \<le> round_even (x / ulp32 x)" by linarith
  then show ?thesis using x by (simp add: round32_def)
qed

lemma round32_ge_pos:
  assumes f: "is_f32 c" and cpos: "0 < c" and le: "c \<le> x"
  shows "c \<le> round32 x"
proof -
  from cpos le have xpos: "0 < x" by simp
  then have nz: "x \<noteq> 0" by simp
  from f obtain m k :: int where c: "c = of_int m * 2 powr of_int k" "\<bar>m\<bar> < 16777216" "- 149 \<le> k"
    unfolding is_f32_def by blast
  let ?e = "expo32 x"
  let ?u = "ulp32 x"
  have r: "round32 x = of_int (round_even (x / ?u)) * ?u" using nz by (simp add: round32_def)
  show ?thesis
  proof (cases "?e - 23 \<le> k")
    case True
    from whole_units [OF True, of m] obtain N :: int
      where "of_int m * 2 powr of_int k = of_int N * (2::real) powr of_int (?e - 23)" ..
    then have cN: "c = of_int N * ?u" by (simp add: c(1) [symmetric] ulp32_def)
    with le have "of_int N * ?u \<le> x" by simp
    then have "of_int N \<le> x / ?u" by (simp add: pos_le_divide_eq)
    then have "N \<le> \<lfloor>x / ?u\<rfloor>" by (simp add: le_floor_iff)
    with round_even_ge_floor [of "x / ?u"] have "N \<le> round_even (x / ?u)" by linarith
    then have "(of_int N :: real) \<le> of_int (round_even (x / ?u))" by (simp only: of_int_le_iff)
    then have "of_int N * ?u \<le> of_int (round_even (x / ?u)) * ?u"
      by (rule mult_right_mono) simp
    then show ?thesis by (simp only: r cN [symmetric])
  next
    case False
    then have k: "k \<le> ?e - 24" by simp
    with c(3) have big: "- 126 < ?e" by simp
    from expo32_lower [OF nz big] xpos have lo: "2 powr of_int ?e \<le> x" by simp
    have "(2::real) powr of_int ?e = 2 powr of_int (23 + (?e - 23))" by simp
    also have "\<dots> = 2 powr of_int 23 * 2 powr of_int (?e - 23)" by (simp only: p2_add)
    also have "\<dots> = of_int 8388608 * ?u" by (simp add: ulp32_def)
    finally have pe: "(2::real) powr of_int ?e = of_int 8388608 * ?u" .
    with lo have "of_int 8388608 * ?u \<le> x" by simp
    then have "of_int 8388608 \<le> x / ?u" by (simp add: pos_le_divide_eq)
    then have "8388608 \<le> \<lfloor>x / ?u\<rfloor>" by (simp only: le_floor_iff)
    with round_even_ge_floor [of "x / ?u"] have "8388608 \<le> round_even (x / ?u)" by linarith
    then have "(of_int 8388608 :: real) \<le> of_int (round_even (x / ?u))" by (simp only: of_int_le_iff)
    then have "of_int 8388608 * ?u \<le> of_int (round_even (x / ?u)) * ?u"
      by (rule mult_right_mono) simp
    then have ge: "2 powr of_int ?e \<le> round32 x" by (simp only: r pe)
    have "c = \<bar>of_int m\<bar> * 2 powr of_int k" using cpos c(1)
      by (metis abs_mult abs_of_pos p2_pos)
    also have "\<dots> \<le> 16777216 * 2 powr of_int k"
    proof (rule mult_right_mono)
      from c(2) have "(of_int \<bar>m\<bar> :: real) \<le> of_int 16777216" by (simp only: of_int_le_iff)
      then show "\<bar>of_int m :: real\<bar> \<le> 16777216" by simp
    qed simp
    also have "\<dots> = 2 powr of_int 24 * 2 powr of_int k" by simp
    also have "\<dots> = 2 powr of_int (24 + k)" by (simp only: p2_add)
    also have "\<dots> \<le> 2 powr of_int ?e" using k by (intro p2_mono) simp
    finally show ?thesis using ge by linarith
  qed
qed

lemma round32_le_pos:
  assumes f: "is_f32 c" and xpos: "0 < x" and le: "x \<le> c"
  shows "round32 x \<le> c"
proof -
  from xpos le have cpos: "0 < c" by simp
  from xpos have nz: "x \<noteq> 0" by simp
  from f obtain m k :: int where c: "c = of_int m * 2 powr of_int k" "\<bar>m\<bar> < 16777216" "- 149 \<le> k"
    unfolding is_f32_def by blast
  let ?e = "expo32 x"
  let ?u = "ulp32 x"
  have r: "round32 x = of_int (round_even (x / ?u)) * ?u" using nz by (simp add: round32_def)
  have "?e - 23 \<le> k"
  proof (rule ccontr)
    assume "\<not> ?e - 23 \<le> k"
    then have k: "k \<le> ?e - 24" by simp
    with c(3) have big: "- 126 < ?e" by simp
    from expo32_lower [OF nz big] xpos have lo: "2 powr of_int ?e \<le> x" by simp
    have "c = \<bar>of_int m\<bar> * 2 powr of_int k" using cpos c(1)
      by (metis abs_mult abs_of_pos p2_pos)
    also have "\<dots> < 16777216 * 2 powr of_int k"
    proof (rule mult_strict_right_mono)
      from c(2) have "(of_int \<bar>m\<bar> :: real) < of_int 16777216" by (simp only: of_int_less_iff)
      then show "\<bar>of_int m :: real\<bar> < 16777216" by simp
    qed simp
    also have "\<dots> = 2 powr of_int 24 * 2 powr of_int k" by simp
    also have "\<dots> = 2 powr of_int (24 + k)" by (simp only: p2_add)
    also have "\<dots> \<le> 2 powr of_int ?e" using k by (intro p2_mono) simp
    finally show False using lo le by linarith
  qed
  from whole_units [OF this, of m] obtain N :: int
    where "of_int m * 2 powr of_int k = of_int N * (2::real) powr of_int (?e - 23)" ..
  then have cN: "c = of_int N * ?u" by (simp add: c(1) [symmetric] ulp32_def)
  with le have "x \<le> of_int N * ?u" by simp
  then have "x / ?u \<le> of_int N" by (simp add: pos_divide_le_eq)
  then have "\<lceil>x / ?u\<rceil> \<le> N" by (simp add: ceiling_le_iff)
  with round_even_le_ceiling [of "x / ?u"] have "round_even (x / ?u) \<le> N" by linarith
  then have "(of_int (round_even (x / ?u)) :: real) \<le> of_int N" by (simp only: of_int_le_iff)
  then have "of_int (round_even (x / ?u)) * ?u \<le> of_int N * ?u"
    by (rule mult_right_mono) simp
  then show ?thesis by (simp only: r cN [symmetric])
qed

lemma round32_ge: "is_f32 c \<Longrightarrow> c \<le> x \<Longrightarrow> c \<le> round32 x"
proof -
  assume f: "is_f32 c" and le: "c \<le> x"
  consider "x = 0" | "0 < x" "c \<le> 0" | "0 < x" "0 < c" | "x < 0" by linarith
  then show ?thesis
  proof cases
    case 1
    with le show ?thesis by simp
  next
    case 2
    with round32_nonneg [of x] show ?thesis by linarith
  next
    case 3
    with f le show ?thesis by (intro round32_ge_pos)
  next
    case 4
    with le have "0 < - x" "- x \<le> - c" by simp_all
    from round32_le_pos [OF is_f32_minus [OF f] this] show ?thesis
      by (simp add: round32_minus)
  qed
qed

lemma round32_le: "is_f32 c \<Longrightarrow> x \<le> c \<Longrightarrow> round32 x \<le> c"
proof -
  assume f: "is_f32 c" and le: "x \<le> c"
  from le have "- c \<le> - x" by simp
  from round32_ge [OF is_f32_minus [OF f] this] show ?thesis
    by (simp add: round32_minus)
qed

lemma is_f32_p2: "- 149 \<le> k \<Longrightarrow> is_f32 (2 powr of_int k)"
  unfolding is_f32_def by (rule exI [of _ 1], rule exI [of _ k]) simp

lemma round32_mono_pos:
  assumes x: "0 < x" and le: "x \<le> y"
  shows "round32 x \<le> round32 y"
proof (cases "expo32 x = expo32 y")
  case True
  then have u: "ulp32 x = ulp32 y" by (simp add: ulp32_def)
  from le have "x / ulp32 y \<le> y / ulp32 y" by (intro divide_right_mono) simp_all
  then have "round_even (x / ulp32 y) \<le> round_even (y / ulp32 y)" by (rule round_even_mono)
  then have "(of_int (round_even (x / ulp32 y)) :: real) \<le> of_int (round_even (y / ulp32 y))"
    by (simp only: of_int_le_iff)
  then have "of_int (round_even (x / ulp32 y)) * ulp32 y \<le> of_int (round_even (y / ulp32 y)) * ulp32 y"
    by (rule mult_right_mono) simp
  then show ?thesis using x le by (simp add: round32_def u)
next
  case False
  with expo32_mono [OF x le] have lt: "expo32 x + 1 \<le> expo32 y" by simp
  with expo32_ge [of x] have big: "- 126 < expo32 y" by simp
  from x le have ynz: "y \<noteq> 0" and xnz: "x \<noteq> 0" by simp_all
  let ?c = "(2::real) powr of_int (expo32 y)"
  have f: "is_f32 ?c" using big by (intro is_f32_p2) simp
  from expo32_lower [OF ynz big] x le have "?c \<le> y" by simp
  then have 1: "?c \<le> round32 y" by (rule round32_ge [OF f])
  from expo32_upper [OF xnz] x have "x < 2 powr of_int (expo32 x + 1)" by simp
  also have "\<dots> \<le> ?c" using lt by (rule p2_mono)
  finally have "x \<le> ?c" by simp
  then have "round32 x \<le> ?c" by (rule round32_le [OF f])
  with 1 show ?thesis by linarith
qed

lemma round32_mono: "x \<le> y \<Longrightarrow> round32 x \<le> round32 y"
proof -
  assume le: "x \<le> y"
  consider "0 < x" | "x \<le> 0" "0 \<le> y" | "y < 0" by linarith
  then show ?thesis
  proof cases
    case 1
    then show ?thesis using le by (rule round32_mono_pos)
  next
    case 2
    from round32_le [OF is_f32_0 2(1)] round32_ge [OF is_f32_0 2(2)] show ?thesis by linarith
  next
    case 3
    with le have "0 < - y" "- y \<le> - x" by simp_all
    from round32_mono_pos [OF this] show ?thesis by (simp add: round32_minus)
  qed
qed

section \<open>Binary32 arithmetic: evaluation and computed distances\<close>

lemma is_f32_I: "c = of_int m * 2 powr of_int k \<Longrightarrow> \<bar>m\<bar> < 16777216 \<Longrightarrow> - 149 \<le> k \<Longrightarrow> is_f32 c"
  unfolding is_f32_def by blast

lemma is_f32_int: "\<bar>n\<bar> \<le> 16777216 \<Longrightarrow> is_f32 (of_int n)"
proof (cases "\<bar>n\<bar> < 16777216")
  case True
  show ?thesis by (rule is_f32_I [of _ n 0]) (use True in simp_all)
next
  case False
  assume "\<bar>n\<bar> \<le> 16777216"
  with False consider "n = 16777216" | "n = - 16777216" by linarith
  then show ?thesis
  proof cases
    case 1
    show ?thesis by (rule is_f32_I [of _ 8388608 1]) (simp_all add: 1)
  next
    case 2
    show ?thesis by (rule is_f32_I [of _ "- 8388608" 1]) (simp_all add: 2)
  qed
qed

lemma is_f32_FLT_MAX: "is_f32 FLT_MAX"
  by (rule is_f32_I [of _ 16777215 104]) (simp_all add: FLT_MAX_def)

lemma rnd_Val: "- FLT_MAX \<le> x \<Longrightarrow> x \<le> FLT_MAX \<Longrightarrow> rnd x = Val (round32 x)"
proof -
  assume lo: "- FLT_MAX \<le> x" and hi: "x \<le> FLT_MAX"
  from round32_le [OF is_f32_FLT_MAX hi] have "round32 x \<le> FLT_MAX" .
  moreover from round32_ge [OF is_f32_minus [OF is_f32_FLT_MAX] lo] have "- FLT_MAX \<le> round32 x" .
  ultimately show ?thesis by (simp add: rnd_def Let_def)
qed

lemma rnd_exact: "is_f32 c \<Longrightarrow> \<bar>c\<bar> \<le> FLT_MAX \<Longrightarrow> rnd c = Val c"
proof -
  assume f: "is_f32 c" and b: "\<bar>c\<bar> \<le> FLT_MAX"
  from b have "\<not> c < - FLT_MAX" "\<not> FLT_MAX < c" by linarith+
  then show ?thesis by (simp add: rnd_def Let_def round32_exact [OF f])
qed

lemma rnd_of_int: "\<bar>n\<bar> \<le> 16777216 \<Longrightarrow> rnd (of_int n) = Val (of_int n)"
proof -
  assume n: "\<bar>n\<bar> \<le> 16777216"
  then have "\<bar>real_of_int n\<bar> \<le> of_int 16777216" by (simp only: of_int_abs [symmetric] of_int_le_iff)
  then have "\<bar>real_of_int n\<bar> \<le> FLT_MAX" by (simp add: FLT_MAX_def)
  with is_f32_int [OF n] show ?thesis by (rule rnd_exact)
qed

lemma rnd_0 [simp]: "rnd 0 = Val 0"
  using rnd_of_int [of 0] by simp

lemma rnd_1 [simp]: "rnd 1 = Val 1"
  using rnd_of_int [of 1] by simp

lemma rnd_numeral [simp]: "(numeral w :: int) \<le> 16777216 \<Longrightarrow> rnd (numeral w) = Val (numeral w)"
  using rnd_of_int [of "numeral w"] by simp

lemma rnd_neg_numeral [simp]:
  "(numeral w :: int) \<le> 16777216 \<Longrightarrow> rnd (- numeral w) = Val (- numeral w)"
  using rnd_of_int [of "- numeral w"] by simp

lemma rnd_sqrt_cases:
  "0 \<le> x \<Longrightarrow> rnd (sqrt x) = PInf \<or> (rnd (sqrt x) = Val (round32 (sqrt x))
      \<and> 0 \<le> round32 (sqrt x) \<and> round32 (sqrt x) \<le> FLT_MAX)"
proof -
  assume "0 \<le> x"
  then have "0 \<le> sqrt x" by simp
  from round32_ge [OF is_f32_0 this] have "0 \<le> round32 (sqrt x)" .
  moreover have "0 < FLT_MAX" by (simp add: FLT_MAX_def)
  ultimately show ?thesis by (auto simp: rnd_def Let_def)
qed

lemma fsqrt_cases:
  "fsqrt a = NaN \<or> fsqrt a = PInf \<or> (\<exists>d. fsqrt a = Val d \<and> 0 \<le> d \<and> d \<le> FLT_MAX)"
proof (cases a)
  case (Val x)
  show ?thesis
  proof (cases "x < 0")
    case True
    with Val show ?thesis by simp
  next
    case False
    then have "0 \<le> x" by simp
    from rnd_sqrt_cases [OF this] Val False show ?thesis by auto
  qed
qed simp_all

lemma hypot32_cases:
  "hypot32 a b = NaN \<or> hypot32 a b = PInf \<or> (\<exists>d. hypot32 a b = Val d \<and> 0 \<le> d \<and> d \<le> FLT_MAX)"
  unfolding hypot32_def by (rule fsqrt_cases)

lemma flt_hypot32:
  "r \<le> FLT_MAX \<Longrightarrow>
     flt (hypot32 a b) (Val r)
       = ((case hypot32 a b of Val d \<Rightarrow> d | PInf \<Rightarrow> FLT_MAX | NInf \<Rightarrow> FLT_MAX | NaN \<Rightarrow> FLT_MAX) < r)"
  using hypot32_cases [of a b] by auto

lemma flt_dist32: "r \<le> FLT_MAX \<Longrightarrow> flt (dist32 p q) (Val r) = (measured p q < r)"
  unfolding dist32_def measured_def by (rule flt_hypot32)

lemma measured_bounds: "0 \<le> measured p q \<and> measured p q \<le> FLT_MAX"
proof -
  have "0 < FLT_MAX" by (simp add: FLT_MAX_def)
  then show ?thesis
    using hypot32_cases [of "fsub (vx p) (vx q)" "fsub (vy p) (vy q)"]
    unfolding measured_def dist32_def by auto
qed

lemma dist32_Val: "measured p q < FLT_MAX \<Longrightarrow> dist32 p q = Val (measured p q)"
  using hypot32_cases [of "fsub (vx p) (vx q)" "fsub (vy p) (vy q)"]
  unfolding measured_def dist32_def by auto

text \<open>The computed distance between points with small whole coordinates.\<close>

lemma whole_int: "whole x \<Longrightarrow> \<exists>n :: int. x = of_int n"
  unfolding whole_def by (rule exI)

lemma hypot32_whole:
  assumes a: "whole a" and b: "whole b" and la: "\<bar>a\<bar> \<le> 2048" and lb: "\<bar>b\<bar> \<le> 2048"
  shows "hypot32 (Val a) (Val b) = Val (round32 (sqrt (a * a + b * b)))"
proof -
  from whole_int [OF a] obtain m :: int where m: "a = of_int m" ..
  from whole_int [OF b] obtain n :: int where n: "b = of_int n" ..
  from la m have "\<bar>real_of_int m\<bar> \<le> of_int 2048" by simp
  then have lm: "\<bar>m\<bar> \<le> 2048" by (simp only: of_int_abs [symmetric] of_int_le_iff)
  from lb n have "\<bar>real_of_int n\<bar> \<le> of_int 2048" by simp
  then have ln: "\<bar>n\<bar> \<le> 2048" by (simp only: of_int_abs [symmetric] of_int_le_iff)
  have sq: "k * k \<le> 4194304 \<and> 0 \<le> k * k" if "\<bar>k\<bar> \<le> 2048" for k :: int
  proof -
    have "k * k = \<bar>k\<bar> * \<bar>k\<bar>" by (simp add: abs_mult_self_eq)
    also have "\<dots> \<le> 2048 * 2048" using that by (intro mult_mono) simp_all
    finally show ?thesis by simp
  qed
  note sm = sq [OF lm] and sn = sq [OF ln]
  have 1: "fmul (Val a) (Val a) = Val (of_int (m * m))"
    using rnd_of_int [of "m * m"] sm by (simp add: m)
  have 2: "fmul (Val b) (Val b) = Val (of_int (n * n))"
    using rnd_of_int [of "n * n"] sn by (simp add: n)
  have 3: "fadd (Val (of_int (m * m))) (Val (of_int (n * n))) = Val (of_int (m * m + n * n))"
    using rnd_of_int [of "m * m + n * n"] sm sn by simp
  let ?S = "real_of_int (m * m + n * n)"
  have nn: "0 \<le> ?S" using sm sn by simp
  have "?S \<le> of_int 8388608" using sm sn by (simp only: of_int_le_iff) simp
  then have "?S \<le> 8388608\<^sup>2" by simp
  then have "sqrt ?S \<le> 8388608" by (intro real_le_lsqrt) simp_all
  also have "\<dots> \<le> FLT_MAX" by (simp add: FLT_MAX_def)
  finally have hi: "sqrt ?S \<le> FLT_MAX" .
  have "0 \<le> sqrt ?S" using nn by simp
  moreover have "0 < FLT_MAX" by (simp add: FLT_MAX_def)
  ultimately have lo: "- FLT_MAX \<le> sqrt ?S" by linarith
  from nn have "\<not> ?S < 0" by linarith
  then have 4: "fsqrt (Val ?S) = Val (round32 (sqrt ?S))"
    by (simp only: fsqrt.simps if_False rnd_Val [OF lo hi])
  have "a * a + b * b = ?S" by (simp add: m n)
  then show ?thesis
    unfolding hypot32_def 1 2 3 4 by simp
qed

text \<open>Comparing rounded square roots.\<close>

lemma sqrt32_mono: "A \<le> B \<Longrightarrow> round32 (sqrt A) \<le> round32 (sqrt B)"
  by (rule round32_mono) simp

lemma sqrt32_below: "is_f32 c \<Longrightarrow> 0 \<le> c \<Longrightarrow> A \<le> c * c \<Longrightarrow> round32 (sqrt A) \<le> c"
proof -
  assume f: "is_f32 c" and c: "0 \<le> c" and A: "A \<le> c * c"
  from A have "A \<le> c\<^sup>2" by (simp add: power2_eq_square)
  with c have "sqrt A \<le> c" by (rule real_le_lsqrt)
  then show ?thesis by (rule round32_le [OF f])
qed

lemma sqrt32_above: "is_f32 c \<Longrightarrow> c * c \<le> A \<Longrightarrow> c \<le> round32 (sqrt A)"
proof -
  assume f: "is_f32 c" and A: "c * c \<le> A"
  from A have "c\<^sup>2 \<le> A" by (simp add: power2_eq_square)
  then have "c \<le> sqrt A" by (rule real_le_rsqrt)
  then show ?thesis by (rule round32_ge [OF f])
qed

lemma sqrt32_less_false: "B \<le> A \<Longrightarrow> (round32 (sqrt A) < round32 (sqrt B)) = False"
  using sqrt32_mono [of B A] by simp

lemma sqrt32_less_true:
  assumes A: "0 \<le> A" and gap: "A + 4 \<le> B" and sq: "16 * A \<le> (B - A - 4) * (B - A - 4)"
    and B: "B \<le> 281474976710656"
  shows "(round32 (sqrt A) < round32 (sqrt B)) = True"
proof -
  let ?n = "\<lceil>sqrt A\<rceil>"
  have sA: "0 \<le> sqrt A" using A by simp
  have n_lo: "sqrt A \<le> of_int ?n" by (rule le_of_int_ceiling)
  have n_hi: "of_int ?n < sqrt A + 1" by linarith
  have "(4 * sqrt A)\<^sup>2 = 16 * A" using A by (simp add: power2_eq_square)
  also have "\<dots> \<le> (B - A - 4)\<^sup>2" using sq by (simp add: power2_eq_square)
  finally have "4 * sqrt A \<le> B - A - 4"
    using gap by (intro power2_le_imp_le [of "4 * sqrt A" "B - A - 4"]) simp_all
  then have "A + 4 * sqrt A + 4 \<le> B" by simp
  moreover have "(sqrt A + 2)\<^sup>2 = A + 4 * sqrt A + 4"
    using A by (simp add: power2_eq_square algebra_simps)
  ultimately have "(sqrt A + 2)\<^sup>2 \<le> B" by simp
  then have far: "sqrt A + 2 \<le> sqrt B" by (rule real_le_rsqrt)
  have sB: "sqrt B \<le> 16777216" using B by (intro real_le_lsqrt) simp_all
  from n_hi far sB have "real_of_int (?n + 1) \<le> of_int 16777216" by linarith
  then have up: "?n + 1 \<le> 16777216" by (simp only: of_int_le_iff)
  from sA n_lo have "(0::real) \<le> of_int ?n" by linarith
  then have n0: "0 \<le> ?n" by (simp only: of_int_0_le_iff)
  from n0 up have b1: "\<bar>?n\<bar> \<le> 16777216" and b2: "\<bar>?n + 1\<bar> \<le> 16777216" by linarith+
  have f1: "is_f32 (of_int ?n)" using b1 by (rule is_f32_int)
  have f2: "is_f32 (of_int (?n + 1))" using b2 by (rule is_f32_int)
  from round32_le [OF f1 n_lo] have 1: "round32 (sqrt A) \<le> of_int ?n" .
  from n_hi far have "real_of_int (?n + 1) \<le> sqrt B" by simp
  from round32_ge [OF f2 this] have 2: "real_of_int (?n + 1) \<le> round32 (sqrt B)" .
  have "real_of_int ?n < real_of_int (?n + 1)" by simp
  with 1 2 show ?thesis by simp
qed

lemma f32_small: "is_f32 1" "is_f32 2" "is_f32 3" "is_f32 4" "is_f32 536870912"
  using is_f32_int [of 1] is_f32_int [of 2] is_f32_int [of 3] is_f32_int [of 4]
    is_f32_I [of 536870912 1 29]
  by simp_all

lemma sqrt32_thresholds:
  "A \<le> 9 \<Longrightarrow> (round32 (sqrt A) < 4) = True"
  "16 \<le> A \<Longrightarrow> (round32 (sqrt A) < 4) = False"
  "16 \<le> A \<Longrightarrow> (3 < round32 (sqrt A)) = True"
  "A \<le> 9 \<Longrightarrow> (3 < round32 (sqrt A)) = False"
  "4 \<le> A \<Longrightarrow> (1 < round32 (sqrt A)) = True"
  "A \<le> 1 \<Longrightarrow> (1 < round32 (sqrt A)) = False"
  "A \<le> 288230376151711744 \<Longrightarrow> (round32 (sqrt A) < 1000000000) = True"
  "A \<le> 288230376151711744 \<Longrightarrow> (round32 (sqrt A) < FLT_MAX) = True"
  "A \<le> 288230376151711744
     \<Longrightarrow> (round32 (sqrt A) < 340282346638528859811704183484516925440) = True"
  "0 \<le> A \<Longrightarrow> (round32 (sqrt A) < 0) = False"
  "1 \<le> A \<Longrightarrow> (0 < round32 (sqrt A)) = True"
  "1 \<le> A \<Longrightarrow> (round32 (sqrt A) < 1) = False"
proof -
  show "0 \<le> A \<Longrightarrow> (round32 (sqrt A) < 0) = False"
    using sqrt32_above [OF is_f32_0, of A] by simp
  show "1 \<le> A \<Longrightarrow> (0 < round32 (sqrt A)) = True"
    using sqrt32_above [OF f32_small(1), of A] by simp
  show "1 \<le> A \<Longrightarrow> (round32 (sqrt A) < 1) = False"
    using sqrt32_above [OF f32_small(1), of A] by simp
  show "A \<le> 9 \<Longrightarrow> (round32 (sqrt A) < 4) = True"
    using sqrt32_below [OF f32_small(3), of A] by simp
  show "16 \<le> A \<Longrightarrow> (round32 (sqrt A) < 4) = False"
    using sqrt32_above [OF f32_small(4), of A] by simp
  show "16 \<le> A \<Longrightarrow> (3 < round32 (sqrt A)) = True"
    using sqrt32_above [OF f32_small(4), of A] by simp
  show "A \<le> 9 \<Longrightarrow> (3 < round32 (sqrt A)) = False"
    using sqrt32_below [OF f32_small(3), of A] by simp
  show "4 \<le> A \<Longrightarrow> (1 < round32 (sqrt A)) = True"
    using sqrt32_above [OF f32_small(2), of A] by simp
  show "A \<le> 1 \<Longrightarrow> (1 < round32 (sqrt A)) = False"
    using sqrt32_below [OF f32_small(1), of A] by simp
  show "A \<le> 288230376151711744 \<Longrightarrow> (round32 (sqrt A) < 1000000000) = True"
    using sqrt32_below [OF f32_small(5), of A] by simp
  show "A \<le> 288230376151711744 \<Longrightarrow> (round32 (sqrt A) < FLT_MAX) = True"
    using sqrt32_below [OF f32_small(5), of A] by (simp add: FLT_MAX_def)
  show "A \<le> 288230376151711744
     \<Longrightarrow> (round32 (sqrt A) < 340282346638528859811704183484516925440) = True"
    using sqrt32_below [OF f32_small(5), of A] by simp
qed

lemma round32_numeral: "(numeral w :: int) \<le> 16777216 \<Longrightarrow> round32 (numeral w) = numeral w"
  using round32_exact [OF is_f32_int [of "numeral w"]] by simp

lemma sqrt32_numeral:
  "numeral c * numeral c \<le> A \<Longrightarrow> (numeral c :: int) \<le> 16777216
     \<Longrightarrow> (round32 (sqrt A) < numeral c) = False"
  "A \<le> (numeral c - 1) * (numeral c - 1) \<Longrightarrow> (numeral c :: int) \<le> 16777216
     \<Longrightarrow> (round32 (sqrt A) < numeral c) = True"
  "(numeral c + 1) * (numeral c + 1) \<le> A \<Longrightarrow> (numeral c :: int) < 16777216
     \<Longrightarrow> (numeral c < round32 (sqrt A)) = True"
  "A \<le> numeral c * numeral c \<Longrightarrow> (numeral c :: int) \<le> 16777216
     \<Longrightarrow> (numeral c < round32 (sqrt A)) = False"
proof -
  have pos: "(1::int) \<le> numeral c" by simp
  show "(round32 (sqrt A) < numeral c) = False"
    if A: "numeral c * numeral c \<le> A" and c: "(numeral c :: int) \<le> 16777216"
  proof -
    from c pos have b: "\<bar>numeral c :: int\<bar> \<le> 16777216" by linarith
    from sqrt32_above [OF is_f32_int [OF b], of A] A
    have "numeral c \<le> round32 (sqrt A)" by (simp only: of_int_numeral)
    then have "\<not> round32 (sqrt A) < numeral c" by linarith
    then show ?thesis by (simp only: simp_thms)
  qed
  show "(round32 (sqrt A) < numeral c) = True"
    if A: "A \<le> (numeral c - 1) * (numeral c - 1)" and c: "(numeral c :: int) \<le> 16777216"
  proof -
    let ?n = "numeral c - 1 :: int"
    have r: "real_of_int ?n = numeral c - 1" by (simp only: of_int_diff of_int_numeral of_int_1)
    from c pos have b: "\<bar>?n\<bar> \<le> 16777216" and n0: "0 \<le> ?n" by linarith+
    from n0 have "(0::real) \<le> of_int ?n" by (simp only: of_int_0_le_iff)
    from sqrt32_below [OF is_f32_int [OF b] this] A
    have "round32 (sqrt A) \<le> of_int ?n" by (simp only: r)
    then have "round32 (sqrt A) \<le> numeral c - 1" by (simp only: r)
    then have "round32 (sqrt A) < numeral c" by linarith
    then show ?thesis by (simp only: simp_thms)
  qed
  show "(numeral c < round32 (sqrt A)) = True"
    if A: "(numeral c + 1) * (numeral c + 1) \<le> A" and c: "(numeral c :: int) < 16777216"
  proof -
    let ?n = "numeral c + 1 :: int"
    have r: "real_of_int ?n = numeral c + 1" by (simp only: of_int_add of_int_numeral of_int_1)
    from c pos have b: "\<bar>?n\<bar> \<le> 16777216" by linarith
    from sqrt32_above [OF is_f32_int [OF b], of A] A
    have "real_of_int ?n \<le> round32 (sqrt A)" by (simp only: r)
    then have "numeral c + 1 \<le> round32 (sqrt A)" by (simp only: r)
    then have "numeral c < round32 (sqrt A)" by linarith
    then show ?thesis by (simp only: simp_thms)
  qed
  show "(numeral c < round32 (sqrt A)) = False"
    if A: "A \<le> numeral c * numeral c" and c: "(numeral c :: int) \<le> 16777216"
  proof -
    from c pos have b: "\<bar>numeral c :: int\<bar> \<le> 16777216" by linarith
    have "(0::real) \<le> of_int (numeral c)" by simp
    from sqrt32_below [OF is_f32_int [OF b] this, of A] A
    have "round32 (sqrt A) \<le> numeral c" by (simp only: of_int_numeral)
    then have "\<not> numeral c < round32 (sqrt A)" by linarith
    then show ?thesis by (simp only: simp_thms)
  qed
qed

lemmas f32_eval = hypot32_whole whole_def fsub_def float_of_int_def apart_def Let_def
  sqrt32_less_false
  sqrt32_less_true sqrt32_thresholds round32_numeral sqrt32_numeral

section \<open>The order of the pending queue\<close>

lemma pq_best_mem: "pq_best b es \<in> set (b # es)"
  by (induction es arbitrary: b) auto

lemma pq_top_mem: "q \<noteq> [] \<Longrightarrow> pq_top q \<in> set q"
  using pq_best_mem by (cases q) auto

lemma length_pq_pop: "q \<noteq> [] \<Longrightarrow> length (pq_pop q) < length q"
  by (simp add: pq_pop_def pq_top_mem length_remove1 Suc_pred')

lemma best_first_iff: "best_first a b = (\<not> EmergencyCompare a b)"
  by (auto simp: best_first_def EmergencyCompare_def)

lemma best_first_refl: "best_first a a"
  by (simp add: best_first_def)

lemma best_first_trans: "best_first a b \<Longrightarrow> best_first b c \<Longrightarrow> best_first a c"
  by (auto simp: best_first_def)

lemma best_first_total: "best_first a b \<or> best_first b a"
  by (auto simp: best_first_def)

lemma pq_best_le_start: "best_first (pq_best b es) b"
proof (induction es arbitrary: b)
  case Nil
  show ?case by (simp add: best_first_refl)
next
  case (Cons e es)
  show ?case
  proof (cases "EmergencyCompare b e")
    case True
    then have "best_first e b"
      by (auto simp: best_first_def EmergencyCompare_def split: if_splits)
    with Cons.IH [of e] True show ?thesis
      by (auto intro: best_first_trans)
  next
    case False
    with Cons.IH [of b] show ?thesis by simp
  qed
qed

lemma pq_best_le: "x \<in> set (b # es) \<Longrightarrow> best_first (pq_best b es) x"
proof (induction es arbitrary: b)
  case Nil
  then show ?case by (simp add: best_first_refl)
next
  case (Cons e es)
  let ?c = "if EmergencyCompare b e then e else b"
  have step: "pq_best b (e # es) = pq_best ?c es" by simp
  have c_b: "best_first ?c b"
    by (auto simp: best_first_def EmergencyCompare_def)
  have c_e: "best_first ?c e"
    by (auto simp: best_first_def EmergencyCompare_def)
  from Cons.prems consider "x = b" | "x = e" | "x \<in> set es" by auto
  then show ?case
  proof cases
    case 1
    with pq_best_le_start [of ?c es] c_b show ?thesis
      unfolding step by (blast intro: best_first_trans)
  next
    case 2
    with pq_best_le_start [of ?c es] c_e show ?thesis
      unfolding step by (blast intro: best_first_trans)
  next
    case 3
    then have "x \<in> set (?c # es)" by simp
    from Cons.IH [OF this] show ?thesis unfolding step .
  qed
qed

lemma pq_top_le: "x \<in> set q \<Longrightarrow> best_first (pq_top q) x"
  using pq_best_le by (cases q) auto

lemma pq_drain_append: "pq_drain q (a @ out) = a @ pq_drain q out"
proof (induction q out arbitrary: a rule: pq_drain.induct)
  case (1 copy out)
  show ?case
  proof (cases "copy = []")
    case True
    then show ?thesis by (simp add: pq_drain.simps)
  next
    case False
    have "pq_drain copy (a @ out) = pq_drain (pq_pop copy) (a @ (out @ [pq_top copy]))"
      using False by (subst pq_drain.simps) simp
    also have "\<dots> = a @ pq_drain (pq_pop copy) (out @ [pq_top copy])"
      using "1.IH" [OF False] .
    also have "\<dots> = a @ pq_drain copy out"
      using False by (subst (2) pq_drain.simps) simp
    finally show ?thesis .
  qed
qed

lemma pq_drain_Nil [simp]: "pq_drain [] out = out"
  by (simp add: pq_drain.simps)

lemma pq_drain_step: "q \<noteq> [] \<Longrightarrow> pq_drain q [] = pq_top q # pq_drain (pq_pop q) []"
  using pq_drain_append [of "pq_pop q" "[pq_top q]" "[]"]
  by (subst pq_drain.simps) simp

lemma mset_pq_pop: "q \<noteq> [] \<Longrightarrow> add_mset (pq_top q) (mset (pq_pop q)) = mset q"
  by (simp add: pq_pop_def pq_top_mem)

lemma mset_pq_drain: "mset (pq_drain q []) = mset q"
proof (induction "length q" arbitrary: q rule: less_induct)
  case less
  show ?case
  proof (cases "q = []")
    case True
    then show ?thesis by simp
  next
    case False
    from less [OF length_pq_pop [OF False]] False show ?thesis
      by (simp add: pq_drain_step mset_pq_pop)
  qed
qed

lemma set_pq_drain: "set (pq_drain q []) = set q"
  using mset_pq_drain [of q] by (metis set_mset_mset)

lemma set_pq_pop: "set (pq_pop q) \<subseteq> set q"
  by (simp add: pq_pop_def set_remove1_subset)

lemma sorted_pq_drain: "sorted_wrt best_first (pq_drain q [])"
proof (induction "length q" arbitrary: q rule: less_induct)
  case less
  show ?case
  proof (cases "q = []")
    case True
    then show ?thesis by simp
  next
    case False
    have "\<forall>x \<in> set (pq_drain (pq_pop q) []). best_first (pq_top q) x"
      using set_pq_pop [of q] by (auto simp: set_pq_drain intro: pq_top_le)
    with less [OF length_pq_pop [OF False]] False show ?thesis
      by (simp add: pq_drain_step)
  qed
qed

lemma sorted_wrt_index_order:
  assumes s: "sorted_wrt best_first xs"
    and i: "i < length xs" and j: "j < length xs"
    and p: "priority (xs ! i) < priority (xs ! j)"
  shows "i < j"
proof (rule ccontr)
  assume "\<not> i < j"
  then have "j < i \<or> j = i" by auto
  then show False
  proof
    assume "j < i"
    with s i have "best_first (xs ! j) (xs ! i)"
      by (simp add: sorted_wrt_nth_less)
    with p show False by (simp add: best_first_def)
  next
    assume "j = i"
    with p show False by simp
  qed
qed

section \<open>Path finding: what the loop returns\<close>


lemma path_loop_aligned:
  "\<not> (apart (vx cur) (vx e) \<or> apart (vy cur) (vy e)) \<Longrightarrow> path_loop blockSize e cur pth = Some pth"
  by (subst path_loop.simps) simp

lemma apart_same [simp]: "apart a a = False"
  by (cases a) (simp_all add: apart_def fsub_def)

text \<open>
  The loop never leaves from a cursor that satisfies an invariant of the loop body
  under which the loop condition holds.
\<close>

lemma path_loop_never:
  assumes inv: "\<And>blockSize e c. I blockSize e c \<Longrightarrow>
      (apart (vx c) (vx e) \<or> apart (vy c) (vy e)) \<and> I blockSize e (path_step blockSize e c)"
  shows "path_loop blockSize e cur pth = Some r \<Longrightarrow> \<not> I blockSize e cur"
proof (induction blockSize e cur pth r rule: path_loop.raw_induct [rotated 1, consumes 1])
  case (1 loop blockSize e cur pth r)
  show ?case
  proof
    assume a: "I blockSize e cur"
    from inv [OF a] have far: "apart (vx cur) (vx e) \<or> apart (vy cur) (vy e)"
      and nxt: "I blockSize e (path_step blockSize e cur)" by simp_all
    from far "1.hyps" have "loop blockSize e (path_step blockSize e cur)
        (pth @ [path_step blockSize e cur]) = Some r"
      by simp
    from "1.IH" [OF this] nxt show False by simp
  qed
qed

lemma grid_okE:
  assumes g: "grid_ok startX startY blockSize blocksX blocksY"
  obtains SX SY B :: int where
    "startX = Val (of_int SX)" "startY = Val (of_int SY)" "blockSize = Val (of_int B)"
    "1 \<le> B" "0 \<le> blocksX" "0 \<le> blocksY"
    "\<bar>SX\<bar> + B * blocksX \<le> 8388608" "\<bar>SY\<bar> + B * blocksY \<le> 8388608"
proof -
  from g obtain sx sy b where v: "startX = Val sx" "startY = Val sy" "blockSize = Val b"
    by (cases startX; cases startY; cases blockSize) simp_all
  from g have w: "whole sx" "whole sy" "whole b" and b1: "1 \<le> b"
    and n: "0 \<le> blocksX" "0 \<le> blocksY"
    and fx: "\<bar>sx\<bar> + b * of_int blocksX \<le> 8388608"
    and fy: "\<bar>sy\<bar> + b * of_int blocksY \<le> 8388608"
    by (simp_all add: v)
  from w obtain SX SY B :: int where i: "sx = of_int SX" "sy = of_int SY" "b = of_int B"
    unfolding whole_def by blast
  from b1 have "real_of_int 1 \<le> of_int B" by (simp add: i)
  then have B1: "1 \<le> B" by (simp only: of_int_le_iff)
  from fx have "real_of_int (\<bar>SX\<bar> + B * blocksX) \<le> of_int 8388608" by (simp add: i)
  then have BX: "\<bar>SX\<bar> + B * blocksX \<le> 8388608" by (simp only: of_int_le_iff)
  from fy have "real_of_int (\<bar>SY\<bar> + B * blocksY) \<le> of_int 8388608" by (simp add: i)
  then have BY: "\<bar>SY\<bar> + B * blocksY \<le> 8388608" by (simp only: of_int_le_iff)
  from v i B1 n BX BY show ?thesis by (intro that) simp_all
qed

text \<open>On such a grid the coordinates of the intersections are computed exactly.\<close>

lemma axis_bound:
  fixes B S n u :: int
  assumes B: "1 \<le> B" and u: "0 \<le> u" "u \<le> n" and b: "\<bar>S\<bar> + B * n \<le> 8388608"
  shows "u * B \<le> 8388608 - \<bar>S\<bar>" and "0 \<le> u * B" and "u \<le> 8388608"
proof -
  from u B have "u * B \<le> n * B" by (intro mult_right_mono) simp_all
  with b show 1: "u * B \<le> 8388608 - \<bar>S\<bar>" by (simp add: mult.commute)
  from u B show 2: "0 \<le> u * B" by simp
  from u B have "u * 1 \<le> u * B" by (intro mult_left_mono) simp_all
  with 1 show "u \<le> 8388608" by simp
qed

lemma grid_coord:
  fixes B S n u :: int
  assumes B: "1 \<le> B" and u: "0 \<le> u" "u \<le> n" and b: "\<bar>S\<bar> + B * n \<le> 8388608"
  shows "fadd (Val (of_int S)) (fmul (float_of_int u) (Val (of_int B))) = Val (of_int (S + u * B))"
proof -
  note ab = axis_bound [OF B u b]
  from ab(3) u(1) have "float_of_int u = Val (of_int u)"
    unfolding float_of_int_def by (intro rnd_of_int) simp
  moreover have "rnd (of_int (u * B)) = Val (of_int (u * B))"
    using ab by (intro rnd_of_int) simp
  moreover have "rnd (of_int (S + u * B)) = Val (of_int (S + u * B))"
    using ab by (intro rnd_of_int) simp
  ultimately show ?thesis by simp
qed

lemma axis_facts:
  fixes B S n u w :: int
  assumes B: "1 \<le> B" and b: "\<bar>S\<bar> + B * n \<le> 8388608"
    and u: "0 \<le> u" "u \<le> n" and w: "0 \<le> w" "w \<le> n"
  shows "apart (Val (of_int (S + u * B))) (Val (of_int (S + w * B))) = (1 < \<bar>u - w\<bar> * B)"
    and "flt (Val (of_int (S + u * B))) (Val (of_int (S + w * B))) = (u < w)"
    and "u < w \<Longrightarrow> fadd (Val (of_int (S + u * B))) (Val (of_int B)) = Val (of_int (S + (u + 1) * B))"
    and "w < u \<Longrightarrow> fadd (Val (of_int (S + u * B))) (fneg (Val (of_int B)))
           = Val (of_int (S + (u - 1) * B))"
proof -
  note au = axis_bound [OF B u b] and aw = axis_bound [OF B w b]
  have d: "(S + u * B) - (S + w * B) = (u - w) * B" by (simp add: algebra_simps)
  have "\<bar>(u - w) * B\<bar> \<le> 16777216" using au aw unfolding d [symmetric] by simp
  then have r: "rnd (of_int ((u - w) * B)) = Val (of_int ((u - w) * B))" by (rule rnd_of_int)
  have "fsub (Val (of_int (S + u * B))) (Val (of_int (S + w * B))) = rnd (of_int ((u - w) * B))"
    unfolding fsub_def by (simp add: algebra_simps)
  then have "apart (Val (of_int (S + u * B))) (Val (of_int (S + w * B)))
      = (1 < \<bar>real_of_int ((u - w) * B)\<bar>)"
    unfolding apart_def r by simp
  also have "\<dots> = (real_of_int 1 < of_int \<bar>(u - w) * B\<bar>)" by simp
  also have "\<dots> = (1 < \<bar>(u - w) * B\<bar>)" by (simp only: of_int_less_iff)
  also have "\<bar>(u - w) * B\<bar> = \<bar>u - w\<bar> * B" using B by (simp add: abs_mult)
  finally show "apart (Val (of_int (S + u * B))) (Val (of_int (S + w * B))) = (1 < \<bar>u - w\<bar> * B)" .
  have "(S + u * B < S + w * B) = (u < w)" using B by simp
  then show "flt (Val (of_int (S + u * B))) (Val (of_int (S + w * B))) = (u < w)"
    by (simp only: flt.simps of_int_less_iff)
  show "fadd (Val (of_int (S + u * B))) (Val (of_int B)) = Val (of_int (S + (u + 1) * B))" if "u < w"
  proof -
    from that w have "0 \<le> u + 1" "u + 1 \<le> n" using u by simp_all
    from axis_bound [OF B this b] have "rnd (of_int (S + (u + 1) * B)) = Val (of_int (S + (u + 1) * B))"
      by (intro rnd_of_int) simp
    then show ?thesis by (simp add: algebra_simps)
  qed
  show "fadd (Val (of_int (S + u * B))) (fneg (Val (of_int B))) = Val (of_int (S + (u - 1) * B))"
    if "w < u"
  proof -
    from that w have "0 \<le> u - 1" "u - 1 \<le> n" using u by simp_all
    from axis_bound [OF B this b] have "rnd (of_int (S + (u - 1) * B)) = Val (of_int (S + (u - 1) * B))"
      by (intro rnd_of_int) simp
    then show ?thesis by (simp add: algebra_simps)
  qed
qed

text \<open>Between two intersections of such a grid the loop returns.\<close>

lemma path_loop_grid:
  fixes B SX SY nx ny ue ve :: int
  assumes B: "1 \<le> B" and bx: "\<bar>SX\<bar> + B * nx \<le> 8388608" and by': "\<bar>SY\<bar> + B * ny \<le> 8388608"
    and ue: "0 \<le> ue" "ue \<le> nx" and ve: "0 \<le> ve" "ve \<le> ny"
    and u: "0 \<le> u" "u \<le> nx" and v: "0 \<le> v" "v \<le> ny"
  shows "\<exists>r. path_loop (Val (of_int B))
            (Vector2 (Val (of_int (SX + ue * B))) (Val (of_int (SY + ve * B))))
            (Vector2 (Val (of_int (SX + u * B))) (Val (of_int (SY + v * B)))) pth = Some r"
proof -
  define X where "X = (\<lambda>i::int. Val (real_of_int (SX + i * B)))"
  define Y where "Y = (\<lambda>j::int. Val (real_of_int (SY + j * B)))"
  define bs where "bs = Val (real_of_int B)"
  have fx: "apart (X i) (X ue) = (1 < \<bar>i - ue\<bar> * B)" "flt (X i) (X ue) = (i < ue)"
      "i < ue \<Longrightarrow> fadd (X i) bs = X (i + 1)" "ue < i \<Longrightarrow> fadd (X i) (fneg bs) = X (i - 1)"
    if "0 \<le> i" "i \<le> nx" for i
    unfolding X_def bs_def using axis_facts [OF B bx that ue] by blast+
  have fy: "apart (Y j) (Y ve) = (1 < \<bar>j - ve\<bar> * B)" "flt (Y j) (Y ve) = (j < ve)"
      "j < ve \<Longrightarrow> fadd (Y j) bs = Y (j + 1)" "ve < j \<Longrightarrow> fadd (Y j) (fneg bs) = Y (j - 1)"
    if "0 \<le> j" "j \<le> ny" for j
    unfolding Y_def bs_def using axis_facts [OF B by' that ve] by blast+
  have "0 \<le> i \<Longrightarrow> i \<le> nx \<Longrightarrow> 0 \<le> j \<Longrightarrow> j \<le> ny
     \<Longrightarrow> nat (\<bar>i - ue\<bar> + \<bar>j - ve\<bar>) \<le> k
     \<Longrightarrow> \<exists>r. path_loop bs (Vector2 (X ue) (Y ve)) (Vector2 (X i) (Y j)) p = Some r" for i j k p
  proof (induction k arbitrary: i j p)
    case 0
    then have "i = ue" "j = ve" by simp_all
    then show ?case by (simp add: path_loop_aligned)
  next
    case (Suc k)
    let ?e = "Vector2 (X ue) (Y ve)"
    let ?c = "Vector2 (X i) (Y j)"
    note gx = fx [OF Suc.prems(1,2)]
    note gy = fy [OF Suc.prems(3,4)]
    show ?case
    proof (cases "1 < \<bar>i - ue\<bar> * B")
      case True
      then have ne: "i \<noteq> ue" by auto
      show ?thesis
      proof (cases "i < ue")
        case lt: True
        have st: "path_step bs ?e ?c = Vector2 (X (i + 1)) (Y j)"
          using True lt by (simp add: path_step_def gx)
        from lt Suc.prems ue have "0 \<le> i + 1" "i + 1 \<le> nx"
          "nat (\<bar>(i + 1) - ue\<bar> + \<bar>j - ve\<bar>) \<le> k" by simp_all
        from Suc.IH [OF this(1,2) Suc.prems(3,4) this(3)] obtain r where
          "path_loop bs ?e (Vector2 (X (i + 1)) (Y j)) (p @ [path_step bs ?e ?c]) = Some r" ..
        then have "path_loop bs ?e ?c p = Some r"
          using True by (subst path_loop.simps) (simp add: gx st)
        then show ?thesis ..
      next
        case False
        with ne have gt: "ue < i" by simp
        have st: "path_step bs ?e ?c = Vector2 (X (i - 1)) (Y j)"
          using True False gt by (simp add: path_step_def gx)
        from gt Suc.prems ue have "0 \<le> i - 1" "i - 1 \<le> nx"
          "nat (\<bar>(i - 1) - ue\<bar> + \<bar>j - ve\<bar>) \<le> k" by simp_all
        from Suc.IH [OF this(1,2) Suc.prems(3,4) this(3)] obtain r where
          "path_loop bs ?e (Vector2 (X (i - 1)) (Y j)) (p @ [path_step bs ?e ?c]) = Some r" ..
        then have "path_loop bs ?e ?c p = Some r"
          using True by (subst path_loop.simps) (simp add: gx st)
        then show ?thesis ..
      qed
    next
      case nx: False
      show ?thesis
      proof (cases "1 < \<bar>j - ve\<bar> * B")
        case True
        then have ne: "j \<noteq> ve" by auto
        show ?thesis
        proof (cases "j < ve")
          case lt: True
          have st: "path_step bs ?e ?c = Vector2 (X i) (Y (j + 1))"
            using nx True lt by (simp add: path_step_def gx gy)
          from lt Suc.prems ve have "0 \<le> j + 1" "j + 1 \<le> ny"
            "nat (\<bar>i - ue\<bar> + \<bar>(j + 1) - ve\<bar>) \<le> k" by simp_all
          from Suc.IH [OF Suc.prems(1,2) this] obtain r where
            "path_loop bs ?e (Vector2 (X i) (Y (j + 1))) (p @ [path_step bs ?e ?c]) = Some r" ..
          then have "path_loop bs ?e ?c p = Some r"
            using True by (subst path_loop.simps) (simp add: gx gy st)
          then show ?thesis ..
        next
          case False
          with ne have gt: "ve < j" by simp
          have st: "path_step bs ?e ?c = Vector2 (X i) (Y (j - 1))"
            using nx True False gt by (simp add: path_step_def gx gy)
          from gt Suc.prems ve have "0 \<le> j - 1" "j - 1 \<le> ny"
            "nat (\<bar>i - ue\<bar> + \<bar>(j - 1) - ve\<bar>) \<le> k" by simp_all
          from Suc.IH [OF Suc.prems(1,2) this] obtain r where
            "path_loop bs ?e (Vector2 (X i) (Y (j - 1))) (p @ [path_step bs ?e ?c]) = Some r" ..
          then have "path_loop bs ?e ?c p = Some r"
            using True by (subst path_loop.simps) (simp add: gx gy st)
          then show ?thesis ..
        qed
      next
        case False
        with nx have "\<not> (apart (vx ?c) (vx ?e) \<or> apart (vy ?c) (vy ?e))"
          by (simp add: gx gy)
        from path_loop_aligned [OF this] show ?thesis by blast
      qed
    qed
  qed
  from this [OF u v le_refl] show ?thesis
    unfolding X_def Y_def bs_def .
qed

text \<open>A computed distance between points that are not far apart stays below \<open>1e9f\<close>.\<close>

lemma f32_pow: "is_f32 536870912" "is_f32 288230376151711744" "is_f32 576460752303423488"
  "is_f32 805306368"
  using is_f32_I [of 536870912 1 29] is_f32_I [of 288230376151711744 1 58]
    is_f32_I [of 576460752303423488 1 59] is_f32_I [of 805306368 3 28]
  by simp_all

lemma rnd_bounded:
  assumes c: "is_f32 c" and lo: "0 \<le> x" and hi: "x \<le> c" and m: "c \<le> FLT_MAX"
  shows "\<exists>r. rnd x = Val r \<and> 0 \<le> r \<and> r \<le> c"
proof -
  have "0 < FLT_MAX" by (simp add: FLT_MAX_def)
  with lo hi m have "rnd x = Val (round32 x)" by (intro rnd_Val) linarith+
  moreover from round32_ge [OF is_f32_0 lo] have "0 \<le> round32 x" .
  moreover from round32_le [OF c hi] have "round32 x \<le> c" .
  ultimately show ?thesis by blast
qed

lemma hypot32_upper:
  assumes a: "\<bar>a\<bar> \<le> 536870912" and b: "\<bar>b\<bar> \<le> 536870912"
  shows "\<exists>d. hypot32 (Val a) (Val b) = Val d \<and> 0 \<le> d \<and> d \<le> 805306368"
proof -
  have sq: "0 \<le> x * x \<and> x * x \<le> 288230376151711744" if "\<bar>x\<bar> \<le> 536870912" for x :: real
  proof -
    have "x * x = \<bar>x\<bar> * \<bar>x\<bar>" by simp
    also have "\<dots> \<le> 536870912 * 536870912" using that by (intro mult_mono) simp_all
    finally show ?thesis by simp
  qed
  from rnd_bounded [OF f32_pow(2), of "a * a"] sq [OF a]
  obtain r1 where r1: "rnd (a * a) = Val r1" "0 \<le> r1" "r1 \<le> 288230376151711744"
    by (auto simp: FLT_MAX_def)
  from rnd_bounded [OF f32_pow(2), of "b * b"] sq [OF b]
  obtain r2 where r2: "rnd (b * b) = Val r2" "0 \<le> r2" "r2 \<le> 288230376151711744"
    by (auto simp: FLT_MAX_def)
  from rnd_bounded [OF f32_pow(3), of "r1 + r2"] r1 r2
  obtain r3 where r3: "rnd (r1 + r2) = Val r3" "0 \<le> r3" "r3 \<le> 576460752303423488"
    by (auto simp: FLT_MAX_def)
  from r3 have "r3 \<le> 805306368\<^sup>2" by simp
  then have "sqrt r3 \<le> 805306368" by (intro real_le_lsqrt) simp_all
  moreover have "0 \<le> sqrt r3" using r3 by simp
  ultimately obtain r4 where r4: "rnd (sqrt r3) = Val r4" "0 \<le> r4" "r4 \<le> 805306368"
    using rnd_bounded [OF f32_pow(4), of "sqrt r3"] by (auto simp: FLT_MAX_def)
  from r3(2) have "\<not> r3 < 0" by simp
  then show ?thesis
    unfolding hypot32_def using r1 r2 r3 r4 by simp
qed

lemma fsub_bounded:
  assumes x: "\<bar>x\<bar> \<le> 268435456" and y: "\<bar>y\<bar> \<le> 268435456"
  shows "\<exists>r. fsub (Val x) (Val y) = Val r \<and> \<bar>r\<bar> \<le> 536870912"
proof -
  from x y have lo: "- 536870912 \<le> x - y" and hi: "x - y \<le> 536870912" by linarith+
  have "rnd (x - y) = Val (round32 (x - y))"
    using lo hi by (intro rnd_Val) (simp_all add: FLT_MAX_def)
  moreover from round32_le [OF f32_pow(1) hi] have "round32 (x - y) \<le> 536870912" .
  moreover from round32_ge [OF is_f32_minus [OF f32_pow(1)] lo] have "- 536870912 \<le> round32 (x - y)" .
  ultimately show ?thesis unfolding fsub_def by (simp add: abs_le_iff)
qed

text \<open>The scan keeps the target or an intersection.\<close>

lemma scan_step_on_grid:
  assumes "0 \<le> x" "x \<le> blocksX" "0 \<le> y" "y \<le> blocksY"
    and "on_grid startX startY blockSize blocksX blocksY (snd acc)"
  shows "on_grid startX startY blockSize blocksX blocksY
           (snd (road_scan_step target startX startY blockSize y x acc))"
  using assms unfolding road_scan_step_def on_grid_def Let_def by auto

lemma scan_row_on_grid:
  "\<forall>x \<in> set xs. 0 \<le> x \<and> x \<le> blocksX \<Longrightarrow> 0 \<le> y \<Longrightarrow> y \<le> blocksY
   \<Longrightarrow> on_grid startX startY blockSize blocksX blocksY (snd acc)
   \<Longrightarrow> on_grid startX startY blockSize blocksX blocksY
         (snd (fold (road_scan_step target startX startY blockSize y) xs acc))"
proof (induction xs arbitrary: acc)
  case Nil
  then show ?case by simp
next
  case (Cons x xs)
  from Cons.prems have "on_grid startX startY blockSize blocksX blocksY
           (snd (road_scan_step target startX startY blockSize y x acc))"
    by (intro scan_step_on_grid) simp_all
  with Cons.IH [of "road_scan_step target startX startY blockSize y x acc"] Cons.prems
  show ?case by simp
qed

lemma scan_rows_on_grid:
  "\<forall>y \<in> set ys. 0 \<le> y \<and> y \<le> blocksY \<Longrightarrow> 0 \<le> blocksX
   \<Longrightarrow> on_grid startX startY blockSize blocksX blocksY (snd acc)
   \<Longrightarrow> on_grid startX startY blockSize blocksX blocksY
         (snd (fold (\<lambda>y. fold (road_scan_step target startX startY blockSize y) [0..blocksX])
                 ys acc))"
proof (induction ys arbitrary: acc)
  case Nil
  then show ?case by simp
next
  case (Cons y ys)
  from Cons.prems have "on_grid startX startY blockSize blocksX blocksY
      (snd (fold (road_scan_step target startX startY blockSize y) [0..blocksX] acc))"
    by (intro scan_row_on_grid) simp_all
  with Cons.IH [of "fold (road_scan_step target startX startY blockSize y) [0..blocksX] acc"]
    Cons.prems
  show ?case by simp
qed

lemma in_rangeE:
  assumes "in_range p"
  obtains x y where "p = pt x y" "\<bar>x\<bar> \<le> 268435456" "\<bar>y\<bar> \<le> 268435456"
proof -
  obtain a b where p: "p = Vector2 a b" by (cases p)
  from assms obtain x y where "a = Val x" "b = Val y" "\<bar>x\<bar> \<le> 268435456" "\<bar>y\<bar> \<le> 268435456"
    unfolding p by (cases a; cases b) simp_all
  with p show ?thesis by (intro that [of x y]) simp_all
qed

text \<open>A point in range of such a grid snaps to an intersection.\<close>

lemma snap_on_grid:
  assumes g: "grid_ok startX startY blockSize blocksX blocksY" and t: "in_range target"
  shows "on_grid startX startY blockSize blocksX blocksY
           (findNearestRoadPoint target startX startY blockSize blocksX blocksY)"
proof -
  from g obtain SX SY B :: int where
    v: "startX = Val (of_int SX)" "startY = Val (of_int SY)" "blockSize = Val (of_int B)"
    and B: "1 \<le> B" and n: "0 \<le> blocksX" "0 \<le> blocksY"
    and bx: "\<bar>SX\<bar> + B * blocksX \<le> 8388608" and by': "\<bar>SY\<bar> + B * blocksY \<le> 8388608"
    by (rule grid_okE)
  from t obtain tx ty where p: "target = pt tx ty" and tb: "\<bar>tx\<bar> \<le> 268435456" "\<bar>ty\<bar> \<le> 268435456"
    by (rule in_rangeE)
  let ?ix = "fadd startX (fmul (float_of_int 0) blockSize)"
  let ?iy = "fadd startY (fmul (float_of_int 0) blockSize)"
  have ix: "?ix = Val (of_int SX)"
    using grid_coord [OF B _ n(1) bx] by (simp add: v)
  have iy: "?iy = Val (of_int SY)"
    using grid_coord [OF B _ n(2) by'] by (simp add: v)
  have "0 \<le> B * blocksX" using B n by simp
  with bx have "\<bar>SX\<bar> \<le> 8388608" by linarith
  then have "\<bar>SX\<bar> \<le> 268435456" by linarith
  then have "real_of_int \<bar>SX\<bar> \<le> of_int 268435456" by (simp only: of_int_le_iff)
  then have sxb: "\<bar>real_of_int SX\<bar> \<le> 268435456" by simp
  have "0 \<le> B * blocksY" using B n by simp
  with by' have "\<bar>SY\<bar> \<le> 8388608" by linarith
  then have "\<bar>SY\<bar> \<le> 268435456" by linarith
  then have "real_of_int \<bar>SY\<bar> \<le> of_int 268435456" by (simp only: of_int_le_iff)
  then have syb: "\<bar>real_of_int SY\<bar> \<le> 268435456" by simp
  from fsub_bounded [OF tb(1) sxb] obtain dx where
    dx: "fsub (Val tx) (Val (of_int SX)) = Val dx" "\<bar>dx\<bar> \<le> 536870912" by blast
  from fsub_bounded [OF tb(2) syb] obtain dy where
    dy: "fsub (Val ty) (Val (of_int SY)) = Val dy" "\<bar>dy\<bar> \<le> 536870912" by blast
  from hypot32_upper [OF dx(2) dy(2)] obtain d where
    d: "hypot32 (Val dx) (Val dy) = Val d" "d \<le> 805306368" by blast
  have first: "road_scan_step target startX startY blockSize 0 0 (Val 1000000000, target)
      = (Val d, Vector2 ?ix ?iy)"
    unfolding road_scan_step_def Let_def
    using d by (simp add: p ix iy dx dy)
  have og: "on_grid startX startY blockSize blocksX blocksY (Vector2 ?ix ?iy)"
    unfolding on_grid_def using n by blast
  have ux: "[0..blocksX] = 0 # [1..blocksX]" using n(1) by (simp add: upto_rec1)
  have uy: "[0..blocksY] = 0 # [1..blocksY]" using n(2) by (simp add: upto_rec1)
  let ?row = "\<lambda>y. fold (road_scan_step target startX startY blockSize y) [0..blocksX]"
  have r0: "on_grid startX startY blockSize blocksX blocksY
      (snd (?row 0 (Val 1000000000, target)))"
  proof -
    have "?row 0 (Val 1000000000, target)
        = fold (road_scan_step target startX startY blockSize 0) [1..blocksX]
            (Val d, Vector2 ?ix ?iy)"
      by (subst ux) (simp add: first)
    moreover have "on_grid startX startY blockSize blocksX blocksY
        (snd (fold (road_scan_step target startX startY blockSize 0) [1..blocksX]
            (Val d, Vector2 ?ix ?iy)))"
      using n og by (intro scan_row_on_grid) simp_all
    ultimately show ?thesis by simp
  qed
  have "findNearestRoadPoint target startX startY blockSize blocksX blocksY
      = snd (fold ?row [1..blocksY] (?row 0 (Val 1000000000, target)))"
    unfolding findNearestRoadPoint_def by (subst uy) simp
  moreover have "on_grid startX startY blockSize blocksX blocksY
      (snd (fold ?row [1..blocksY] (?row 0 (Val 1000000000, target))))"
    using n r0 by (intro scan_rows_on_grid) simp_all
  ultimately show ?thesis by simp
qed

text \<open>On such a grid, between points in range, the path finder returns.\<close>

lemma findPathOnRoads_returns:
  assumes g: "grid_ok startX startY blockSize blocksX blocksY"
    and s: "in_range start" and e: "in_range endp"
  shows "\<exists>p. findPathOnRoads start endp startX startY blockSize blocksX blocksY = Some p"
proof -
  from g obtain SX SY B :: int where
    v: "startX = Val (of_int SX)" "startY = Val (of_int SY)" "blockSize = Val (of_int B)"
    and B: "1 \<le> B" and n: "0 \<le> blocksX" "0 \<le> blocksY"
    and bx: "\<bar>SX\<bar> + B * blocksX \<le> 8388608" and by': "\<bar>SY\<bar> + B * blocksY \<le> 8388608"
    by (rule grid_okE)
  have coords: "\<exists>i j. 0 \<le> i \<and> i \<le> blocksX \<and> 0 \<le> j \<and> j \<le> blocksY
      \<and> q = Vector2 (Val (of_int (SX + i * B))) (Val (of_int (SY + j * B)))"
    if "on_grid startX startY blockSize blocksX blocksY q" for q
  proof -
    from that obtain i j where ij: "0 \<le> i" "i \<le> blocksX" "0 \<le> j" "j \<le> blocksY"
      and q: "q = Vector2 (fadd startX (fmul (float_of_int i) blockSize))
                      (fadd startY (fmul (float_of_int j) blockSize))"
      unfolding on_grid_def by blast
    from q have "q = Vector2 (Val (of_int (SX + i * B))) (Val (of_int (SY + j * B)))"
      unfolding v grid_coord [OF B ij(1,2) bx] grid_coord [OF B ij(3,4) by'] .
    with ij show ?thesis by blast
  qed
  let ?s = "findNearestRoadPoint start startX startY blockSize blocksX blocksY"
  let ?e = "findNearestRoadPoint endp startX startY blockSize blocksX blocksY"
  from coords [OF snap_on_grid [OF g s]] obtain i j where
    ij: "0 \<le> i" "i \<le> blocksX" "0 \<le> j" "j \<le> blocksY"
    and sq: "?s = Vector2 (Val (of_int (SX + i * B))) (Val (of_int (SY + j * B)))" by blast
  from coords [OF snap_on_grid [OF g e]] obtain ie je where
    ije: "0 \<le> ie" "ie \<le> blocksX" "0 \<le> je" "je \<le> blocksY"
    and eq: "?e = Vector2 (Val (of_int (SX + ie * B))) (Val (of_int (SY + je * B)))" by blast
  from path_loop_grid [OF B bx by' ije ij, of "[?s]"] obtain r where
    "path_loop blockSize ?e ?s [?s] = Some r"
    unfolding sq [symmetric] eq [symmetric] v(3) [symmetric] ..
  then show ?thesis by (simp add: findPathOnRoads_def Let_def)
qed

section \<open>Matching: the nearest idle ambulance and the dispatch pass\<close>

lemma nearest_scan_Cons:
  assumes r: "r \<le> FLT_MAX"
  shows "nearest_scan target (a # as) i (b, Val r) =
     nearest_scan target as (Suc i)
       (if eligible a \<and> measured (pos a) target < r then (int i, Val (measured (pos a) target))
        else (b, Val r))"
proof (cases "eligible a \<and> measured (pos a) target < r")
  case True
  with r have "measured (pos a) target < FLT_MAX" by simp
  from dist32_Val [OF this] have d: "dist32 (pos a) target = Val (measured (pos a) target)" .
  from True show ?thesis
    by (simp add: eligible_def Let_def dist32_def [symmetric] d)
next
  case False
  then show ?thesis
    by (auto simp: eligible_def Let_def dist32_def [symmetric] flt_dist32 [OF r])
qed

declare nearest_scan.simps(2) [simp del]

lemma nearest_scan_spec:
  "r \<le> FLT_MAX \<Longrightarrow>
   (nearest_scan target as i (b, Val r) = (b, Val r)
      \<and> (\<forall>j < length as. eligible (as ! j) \<longrightarrow> r \<le> measured (pos (as ! j)) target))
   \<or> (\<exists>k < length as.
         nearest_scan target as i (b, Val r) = (int (i + k), Val (measured (pos (as ! k)) target))
         \<and> eligible (as ! k)
         \<and> measured (pos (as ! k)) target < r
         \<and> (\<forall>j < length as. eligible (as ! j) \<longrightarrow>
               measured (pos (as ! k)) target \<le> measured (pos (as ! j)) target)
         \<and> (\<forall>j < k. eligible (as ! j) \<longrightarrow>
               measured (pos (as ! k)) target < measured (pos (as ! j)) target))"
proof (induction as arbitrary: i b r)
  case Nil
  show ?case by simp
next
  case (Cons a as)
  let ?d = "measured (pos a) target"
  show ?case
  proof (cases "eligible a \<and> ?d < r")
    case True
    have step: "nearest_scan target (a # as) i (b, Val r) = nearest_scan target as (Suc i) (int i, Val ?d)"
      using True by (simp only: nearest_scan_Cons [OF Cons.prems] simp_thms if_True)
    from True Cons.prems have dle: "?d \<le> FLT_MAX" by simp
    from Cons.IH [OF dle, of "Suc i" "int i"] show ?thesis
    proof
      assume h: "nearest_scan target as (Suc i) (int i, Val ?d) = (int i, Val ?d)
         \<and> (\<forall>j < length as. eligible (as ! j) \<longrightarrow> ?d \<le> measured (pos (as ! j)) target)"
      have "\<forall>j < length (a # as). eligible ((a # as) ! j) \<longrightarrow>
               ?d \<le> measured (pos ((a # as) ! j)) target"
      proof (intro allI impI)
        fix j assume "j < length (a # as)" "eligible ((a # as) ! j)"
        with h show "?d \<le> measured (pos ((a # as) ! j)) target"
          by (cases j) auto
      qed
      with h True step have "0 < length (a # as)
         \<and> nearest_scan target (a # as) i (b, Val r) = (int (i + 0), Val (measured (pos ((a # as) ! 0)) target))
         \<and> eligible ((a # as) ! 0)
         \<and> measured (pos ((a # as) ! 0)) target < r
         \<and> (\<forall>j < length (a # as). eligible ((a # as) ! j) \<longrightarrow>
               measured (pos ((a # as) ! 0)) target \<le> measured (pos ((a # as) ! j)) target)
         \<and> (\<forall>j < 0. eligible ((a # as) ! j) \<longrightarrow>
               measured (pos ((a # as) ! 0)) target < measured (pos ((a # as) ! j)) target)"
        by simp
      then show ?thesis by blast
    next
      assume "\<exists>k < length as.
         nearest_scan target as (Suc i) (int i, Val ?d) = (int (Suc i + k), Val (measured (pos (as ! k)) target))
         \<and> eligible (as ! k)
         \<and> measured (pos (as ! k)) target < ?d
         \<and> (\<forall>j < length as. eligible (as ! j) \<longrightarrow>
               measured (pos (as ! k)) target \<le> measured (pos (as ! j)) target)
         \<and> (\<forall>j < k. eligible (as ! j) \<longrightarrow>
               measured (pos (as ! k)) target < measured (pos (as ! j)) target)"
      then obtain k where k: "k < length as"
         "nearest_scan target as (Suc i) (int i, Val ?d) = (int (Suc i + k), Val (measured (pos (as ! k)) target))"
         "eligible (as ! k)"
         "measured (pos (as ! k)) target < ?d"
         "\<forall>j < length as. eligible (as ! j) \<longrightarrow>
               measured (pos (as ! k)) target \<le> measured (pos (as ! j)) target"
         "\<forall>j < k. eligible (as ! j) \<longrightarrow>
               measured (pos (as ! k)) target < measured (pos (as ! j)) target"
        by auto
      have le: "\<forall>j < length (a # as). eligible ((a # as) ! j) \<longrightarrow>
               measured (pos ((a # as) ! Suc k)) target \<le> measured (pos ((a # as) ! j)) target"
      proof (intro allI impI)
        fix j assume "j < length (a # as)" "eligible ((a # as) ! j)"
        with k show "measured (pos ((a # as) ! Suc k)) target \<le> measured (pos ((a # as) ! j)) target"
          by (cases j) auto
      qed
      have lt: "\<forall>j < Suc k. eligible ((a # as) ! j) \<longrightarrow>
               measured (pos ((a # as) ! Suc k)) target < measured (pos ((a # as) ! j)) target"
      proof (intro allI impI)
        fix j assume "j < Suc k" "eligible ((a # as) ! j)"
        with k show "measured (pos ((a # as) ! Suc k)) target < measured (pos ((a # as) ! j)) target"
          by (cases j) auto
      qed
      from k True step le lt have "Suc k < length (a # as)
         \<and> nearest_scan target (a # as) i (b, Val r) = (int (i + Suc k), Val (measured (pos ((a # as) ! Suc k)) target))
         \<and> eligible ((a # as) ! Suc k)
         \<and> measured (pos ((a # as) ! Suc k)) target < r
         \<and> (\<forall>j < length (a # as). eligible ((a # as) ! j) \<longrightarrow>
               measured (pos ((a # as) ! Suc k)) target \<le> measured (pos ((a # as) ! j)) target)
         \<and> (\<forall>j < Suc k. eligible ((a # as) ! j) \<longrightarrow>
               measured (pos ((a # as) ! Suc k)) target < measured (pos ((a # as) ! j)) target)"
        by simp
      then show ?thesis by blast
    qed
  next
    case False
    have step: "nearest_scan target (a # as) i (b, Val r) = nearest_scan target as (Suc i) (b, Val r)"
      using False by (simp only: nearest_scan_Cons [OF Cons.prems] if_False)
    from Cons.IH [OF Cons.prems, of "Suc i" b] show ?thesis
    proof
      assume h: "nearest_scan target as (Suc i) (b, Val r) = (b, Val r)
         \<and> (\<forall>j < length as. eligible (as ! j) \<longrightarrow> r \<le> measured (pos (as ! j)) target)"
      have "\<forall>j < length (a # as). eligible ((a # as) ! j) \<longrightarrow>
               r \<le> measured (pos ((a # as) ! j)) target"
      proof (intro allI impI)
        fix j assume "j < length (a # as)" "eligible ((a # as) ! j)"
        with h False show "r \<le> measured (pos ((a # as) ! j)) target"
          by (cases j) auto
      qed
      with h step show ?thesis by simp
    next
      assume "\<exists>k < length as.
         nearest_scan target as (Suc i) (b, Val r) = (int (Suc i + k), Val (measured (pos (as ! k)) target))
         \<and> eligible (as ! k)
         \<and> measured (pos (as ! k)) target < r
         \<and> (\<forall>j < length as. eligible (as ! j) \<longrightarrow>
               measured (pos (as ! k)) target \<le> measured (pos (as ! j)) target)
         \<and> (\<forall>j < k. eligible (as ! j) \<longrightarrow>
               measured (pos (as ! k)) target < measured (pos (as ! j)) target)"
      then obtain k where k: "k < length as"
         "nearest_scan target as (Suc i) (b, Val r) = (int (Suc i + k), Val (measured (pos (as ! k)) target))"
         "eligible (as ! k)"
         "measured (pos (as ! k)) target < r"
         "\<forall>j < length as. eligible (as ! j) \<longrightarrow>
               measured (pos (as ! k)) target \<le> measured (pos (as ! j)) target"
         "\<forall>j < k. eligible (as ! j) \<longrightarrow>
               measured (pos (as ! k)) target < measured (pos (as ! j)) target"
        by auto
      have le: "\<forall>j < length (a # as). eligible ((a # as) ! j) \<longrightarrow>
               measured (pos ((a # as) ! Suc k)) target \<le> measured (pos ((a # as) ! j)) target"
      proof (intro allI impI)
        fix j assume "j < length (a # as)" "eligible ((a # as) ! j)"
        with k False show "measured (pos ((a # as) ! Suc k)) target \<le> measured (pos ((a # as) ! j)) target"
          by (cases j) auto
      qed
      have lt: "\<forall>j < Suc k. eligible ((a # as) ! j) \<longrightarrow>
               measured (pos ((a # as) ! Suc k)) target < measured (pos ((a # as) ! j)) target"
      proof (intro allI impI)
        fix j assume "j < Suc k" "eligible ((a # as) ! j)"
        with k False show "measured (pos ((a # as) ! Suc k)) target < measured (pos ((a # as) ! j)) target"
          by (cases j) auto
      qed
      from k step le lt have "Suc k < length (a # as)
         \<and> nearest_scan target (a # as) i (b, Val r) = (int (i + Suc k), Val (measured (pos ((a # as) ! Suc k)) target))
         \<and> eligible ((a # as) ! Suc k)
         \<and> measured (pos ((a # as) ! Suc k)) target < r
         \<and> (\<forall>j < length (a # as). eligible ((a # as) ! j) \<longrightarrow>
               measured (pos ((a # as) ! Suc k)) target \<le> measured (pos ((a # as) ! j)) target)
         \<and> (\<forall>j < Suc k. eligible ((a # as) ! j) \<longrightarrow>
               measured (pos ((a # as) ! Suc k)) target < measured (pos ((a # as) ! j)) target)"
        by simp
      then show ?thesis by blast
    qed
  qed
qed

lemma findNearest_spec:
  "(findNearestAvailableAmbulance ambs target = - 1
      \<and> (\<forall>j < length ambs. eligible (ambs ! j) \<longrightarrow> FLT_MAX \<le> measured (pos (ambs ! j)) target))
   \<or> (\<exists>k < length ambs.
         findNearestAvailableAmbulance ambs target = int k
         \<and> eligible (ambs ! k)
         \<and> measured (pos (ambs ! k)) target < FLT_MAX
         \<and> (\<forall>j < length ambs. eligible (ambs ! j) \<longrightarrow>
               measured (pos (ambs ! k)) target \<le> measured (pos (ambs ! j)) target)
         \<and> (\<forall>j < k. eligible (ambs ! j) \<longrightarrow>
               measured (pos (ambs ! k)) target < measured (pos (ambs ! j)) target))"
  using nearest_scan_spec [OF order_refl, of target ambs 0 "- 1"]
  unfolding findNearestAvailableAmbulance_def
  by (elim disjE exE conjE) (simp, rule disjI2, auto)

lemma dispatch_loop_list:
  "dispatch_loop startX startY blockSize blocksX blocksY q ambs backlog
     = dispatch_list startX startY blockSize blocksX blocksY (pq_drain q []) ambs backlog"
proof (induction startX startY blockSize blocksX blocksY q ambs backlog rule: dispatch_loop.induct)
  case (1 startX startY blockSize blocksX blocksY q ambs backlog)
  show ?case
  proof (cases "q = []")
    case True
    then show ?thesis by (simp add: dispatch_loop.simps)
  next
    case False
    show ?thesis
    proof (cases "dispatch_body startX startY blockSize blocksX blocksY (pq_top q) ambs backlog")
      case None
      with False show ?thesis
        by (simp add: dispatch_loop.simps [of _ _ _ _ _ q] pq_drain_step)
    next
      case (Some st)
      obtain ambs' backlog' where st: "st = (ambs', backlog')" by (cases st)
      from "1.IH" [OF False Some [unfolded st] refl] Some False show ?thesis
        by (simp add: dispatch_loop.simps [of _ _ _ _ _ q] pq_drain_step st)
    qed
  qed
qed

section \<open>Invariants of the hospital state\<close>

lemma assigned_ids_Nil [simp]: "assigned_ids [] = {#}"
  by (simp add: assigned_ids_def)

lemma assigned_ids_Cons:
  "assigned_ids (a # as) = (if holds_emergency a then {#assignedEmergencyId a#} else {#}) + assigned_ids as"
  by (simp add: assigned_ids_def)

lemma eligible_not_holds: "eligible a \<Longrightarrow> \<not> holds_emergency a"
  by (simp add: eligible_def holds_emergency_def)

lemma amb_ok_assign: "amb_ok (assign a em pth)"
  by (simp add: amb_ok_def assign_def holds_emergency_def)

lemma holds_assign: "holds_emergency (assign a em pth)"
  by (simp add: assign_def holds_emergency_def)

lemma assigned_ids_assign:
  assumes k: "k < length ambs" and e: "eligible (ambs ! k)"
  shows "assigned_ids (ambs[k := assign (ambs ! k) em pth]) = add_mset (em_id em) (assigned_ids ambs)"
proof -
  have m: "mset (ambs[k := assign (ambs ! k) em pth])
      = add_mset (assign (ambs ! k) em pth) (mset ambs - {#ambs ! k#})"
    using k by (rule mset_update)
  have "filter_mset holds_emergency {#ambs ! k#} = {#}"
    using eligible_not_holds [OF e] by simp
  then have f: "filter_mset holds_emergency (mset ambs - {#ambs ! k#})
      = filter_mset holds_emergency (mset ambs)"
    by (simp only: filter_diff_mset diff_empty)
  have i: "assignedEmergencyId (assign (ambs ! k) em pth) = em_id em"
    by (simp add: assign_def)
  show ?thesis
    unfolding assigned_ids_def m
    by (simp only: filter_mset_add_mset holds_assign if_True f image_mset_add_mset i)
qed

text \<open>What one pass through the body of the dispatch loop does.\<close>

lemma dispatch_body_cases:
  assumes "dispatch_body startX startY blockSize blocksX blocksY em ambs backlog = Some (ambs', backlog')"
  shows "(findNearestAvailableAmbulance ambs (location em) = - 1
            \<and> ambs' = ambs \<and> backlog' = backlog @ [em])
         \<or> (\<exists>k pth. k < length ambs \<and> findNearestAvailableAmbulance ambs (location em) = int k
               \<and> eligible (ambs ! k)
               \<and> findPathOnRoads (pos (ambs ! k)) (location em)
                     startX startY blockSize blocksX blocksY = Some pth
               \<and> ambs' = ambs[k := assign (ambs ! k) em pth] \<and> backlog' = backlog)"
  using findNearest_spec [of ambs "location em"]
proof (elim disjE exE conjE)
  assume "findNearestAvailableAmbulance ambs (location em) = - 1"
  with assms show ?thesis by (simp add: dispatch_body_def)
next
  fix k
  assume k: "k < length ambs" "findNearestAvailableAmbulance ambs (location em) = int k"
    "eligible (ambs ! k)"
  with assms obtain pth where
    "findPathOnRoads (pos (ambs ! k)) (location em) startX startY blockSize blocksX blocksY = Some pth"
    "ambs' = ambs[k := assign (ambs ! k) em pth]" "backlog' = backlog"
    by (auto simp: dispatch_body_def Let_def split: option.splits)
  with k show ?thesis by blast
qed

lemma dispatch_body_inv:
  assumes "dispatch_body startX startY blockSize blocksX blocksY em ambs backlog = Some (ambs', backlog')"
  shows "length ambs' = length ambs"
    and "(\<forall>a \<in> set ambs. amb_ok a) \<Longrightarrow> (\<forall>a \<in> set ambs'. amb_ok a)"
    and "mset (map em_id backlog') + assigned_ids ambs'
           = add_mset (em_id em) (mset (map em_id backlog) + assigned_ids ambs)"
  using dispatch_body_cases [OF assms]
  by (auto simp: assigned_ids_assign amb_ok_assign dest!: set_update_subset_insert [THEN subsetD])

lemma dispatch_list_inv:
  "dispatch_list startX startY blockSize blocksX blocksY ems ambs backlog = Some (ambs', backlog')
   \<Longrightarrow> length ambs' = length ambs
       \<and> ((\<forall>a \<in> set ambs. amb_ok a) \<longrightarrow> (\<forall>a \<in> set ambs'. amb_ok a))
       \<and> mset (map em_id backlog') + assigned_ids ambs'
           = mset (map em_id ems) + mset (map em_id backlog) + assigned_ids ambs"
proof (induction ems arbitrary: ambs backlog)
  case Nil
  then show ?case by simp
next
  case (Cons em ems)
  from Cons.prems obtain ambs1 backlog1 where
    b: "dispatch_body startX startY blockSize blocksX blocksY em ambs backlog = Some (ambs1, backlog1)"
    and l: "dispatch_list startX startY blockSize blocksX blocksY ems ambs1 backlog1 = Some (ambs', backlog')"
    by (auto split: option.splits)
  from Cons.IH [OF l] dispatch_body_inv [OF b] show ?case
    by simp
qed

lemma assigned_ids_held: "assigned_ids (a # as) = held_id a + assigned_ids as"
  by (simp add: assigned_ids_def held_id_def)

text \<open>What the state machine does to one ambulance.\<close>

lemma update_ambulance_inv:
  assumes u: "update_ambulance startX startY blockSize blocksX blocksY duration dt a hc = Some (a', hc')"
    and ok: "amb_ok a"
  shows "amb_ok a'"
    and "held_id a' \<subseteq># held_id a"
    and "int (size (held_id a')) + hc' = int (size (held_id a)) + hc"
    and "hc \<le> hc'"
proof -
  consider "status a = IDLE" | "status a = TO_SCENE" | "status a = ON_SCENE" | "status a = RETURNING"
    by (cases "status a") auto
  then have "amb_ok a' \<and> held_id a' \<subseteq># held_id a
      \<and> int (size (held_id a')) + hc' = int (size (held_id a)) + hc \<and> hc \<le> hc'"
  proof cases
    case 1
    with u have "a' = a" "hc' = hc" by (auto simp: update_ambulance_def)
    with ok show ?thesis by simp
  next
    case 2
    with u ok show ?thesis
      by (auto simp: update_ambulance_def amb_ok_def holds_emergency_def held_id_def
          Let_def split: if_splits)
  next
    case 3
    with u ok show ?thesis
      by (auto simp: update_ambulance_def amb_ok_def holds_emergency_def held_id_def
          Let_def split: if_splits option.splits)
  next
    case 4
    with u ok show ?thesis
      by (auto simp: update_ambulance_def amb_ok_def holds_emergency_def held_id_def
          Let_def split: if_splits)
  qed
  then show "amb_ok a'" and "held_id a' \<subseteq># held_id a"
    and "int (size (held_id a')) + hc' = int (size (held_id a)) + hc"
    and "hc \<le> hc'"
    by simp_all
qed

lemma update_loop_inv:
  "update_loop startX startY blockSize blocksX blocksY duration dt ambs hc = Some (ambs', hc')
   \<Longrightarrow> \<forall>a \<in> set ambs. amb_ok a
   \<Longrightarrow> length ambs' = length ambs
       \<and> (\<forall>a \<in> set ambs'. amb_ok a)
       \<and> assigned_ids ambs' \<subseteq># assigned_ids ambs
       \<and> int (size (assigned_ids ambs')) + hc' = int (size (assigned_ids ambs)) + hc
       \<and> hc \<le> hc'"
proof (induction ambs arbitrary: hc ambs' hc')
  case Nil
  then show ?case by simp
next
  case (Cons a as)
  from Cons.prems(1) obtain a1 hc1 as1 where
    u: "update_ambulance startX startY blockSize blocksX blocksY duration dt a hc = Some (a1, hc1)"
    and l: "update_loop startX startY blockSize blocksX blocksY duration dt as hc1 = Some (as1, hc')"
    and r: "ambs' = a1 # as1"
    by (auto split: option.splits)
  from Cons.prems(2) have oka: "amb_ok a" and okas: "\<forall>a \<in> set as. amb_ok a" by simp_all
  note ua = update_ambulance_inv [OF u oka]
  note ih = Cons.IH [OF l okas]
  have sub: "assigned_ids (a1 # as1) \<subseteq># assigned_ids (a # as)"
    unfolding assigned_ids_held
    using ua(2) ih by (simp add: subset_mset.add_mono)
  have sz: "int (size (assigned_ids (a1 # as1))) + hc' = int (size (assigned_ids (a # as))) + hc"
    unfolding assigned_ids_held
    using ua(3) ih by simp
  from ua ih sub sz show ?case by (simp add: r)
qed

text \<open>The motion step changes positions and route cursors only.\<close>

lemma move_ambulance_inv:
  assumes m: "move_ambulance dt a = Some a'" and ok: "amb_ok a"
  shows "amb_ok a'" and "held_id a' = held_id a"
proof -
  from m ok have "amb_ok a' \<and> held_id a' = held_id a"
    by (auto simp: move_ambulance_def amb_ok_def holds_emergency_def held_id_def
        Let_def split: if_splits)
  then show "amb_ok a'" and "held_id a' = held_id a" by simp_all
qed

lemma move_loop_inv:
  "move_loop dt ambs = Some ambs' \<Longrightarrow> \<forall>a \<in> set ambs. amb_ok a
   \<Longrightarrow> length ambs' = length ambs \<and> (\<forall>a \<in> set ambs'. amb_ok a)
       \<and> assigned_ids ambs' = assigned_ids ambs"
proof (induction ambs arbitrary: ambs')
  case Nil
  then show ?case by simp
next
  case (Cons a as)
  from Cons.prems(1) obtain a1 as1 where
    m: "move_ambulance dt a = Some a1" and l: "move_loop dt as = Some as1" and r: "ambs' = a1 # as1"
    by (auto split: option.splits)
  from Cons.prems(2) have oka: "amb_ok a" and okas: "\<forall>a \<in> set as. amb_ok a" by simp_all
  from move_ambulance_inv [OF m oka] Cons.IH [OF l okas] show ?case
    by (simp add: r assigned_ids_held)
qed

lemma fold_pq_push: "fold pq_push xs q = q @ xs"
  by (induction xs arbitrary: q) (simp_all add: pq_push_def)

lemma make_ambulances_ok:
  "(\<forall>a \<in> set (make_ambulances aid ps). amb_ok a \<and> status a = IDLE)
   \<and> assigned_ids (make_ambulances aid ps) = {#}"
  by (induction ps arbitrary: aid)
     (simp_all add: amb_ok_def holds_emergency_def assigned_ids_held held_id_def)

lemma ctor_inv: "Hospital_ctor loc parkingPositions startAmbId onSceneDuration = Some h \<Longrightarrow> hosp_inv h"
  using make_ambulances_ok [of startAmbId parkingPositions]
  by (auto simp: Hospital_ctor_def hosp_inv_def unresolved_ids_def INT_MAX_def split: if_splits)

lemma receive_unresolved:
  "receiveEmergency incoming now h = Some h'
   \<Longrightarrow> unresolved_ids h' = add_mset (nextEmergencyId h) (unresolved_ids h)
       \<and> ambulances h' = ambulances h \<and> handledCount h' = handledCount h
       \<and> nextEmergencyId h' = nextEmergencyId h + 1 \<and> nextEmergencyId h < INT_MAX"
  by (auto simp: receiveEmergency_def unresolved_ids_def pq_push_def Let_def split: if_splits)

lemma receive_inv:
  assumes r: "receiveEmergency incoming now h = Some h'" and inv: "hosp_inv h"
  shows "hosp_inv h'"
proof -
  note u = receive_unresolved [OF r]
  from inv have fresh: "count (unresolved_ids h) (nextEmergencyId h) = 0"
    by (auto simp: hosp_inv_def count_eq_zero_iff)
  have c: "count (unresolved_ids h') i \<le> 1" for i
    using inv fresh u by (auto simp: hosp_inv_def)
  have b: "\<forall>i \<in># unresolved_ids h'. 1 \<le> i \<and> i < nextEmergencyId h'"
    using inv u by (auto simp: hosp_inv_def)
  from inv u c b show ?thesis
    by (simp add: hosp_inv_def)
qed

lemma dispatch_unresolved:
  assumes d: "dispatchVehicles startX startY blockSize blocksX blocksY h = Some h'"
  shows "unresolved_ids h' = unresolved_ids h
      \<and> length (ambulances h') = length (ambulances h)
      \<and> ((\<forall>a \<in> set (ambulances h). amb_ok a) \<longrightarrow> (\<forall>a \<in> set (ambulances h'). amb_ok a))
      \<and> handledCount h' = handledCount h \<and> nextEmergencyId h' = nextEmergencyId h
      \<and> onSceneDurationSec h' = onSceneDurationSec h"
proof (cases "queue h = []")
  case True
  with d have "h' = h" by (simp add: dispatchVehicles_def)
  then show ?thesis by simp
next
  case False
  with d obtain ambs backlog where
    l: "dispatch_loop startX startY blockSize blocksX blocksY (queue h) (ambulances h) [] = Some (ambs, backlog)"
    and h': "h' = h\<lparr>ambulances := ambs, queue := backlog\<rparr>"
    by (auto simp: dispatchVehicles_def fold_pq_push split: option.splits)
  from l have "dispatch_list startX startY blockSize blocksX blocksY (pq_drain (queue h) [])
      (ambulances h) [] = Some (ambs, backlog)"
    by (simp add: dispatch_loop_list)
  moreover have "mset (map em_id (pq_drain (queue h) [])) = mset (map em_id (queue h))"
    using mset_pq_drain [of "queue h"] by (metis mset_map)
  ultimately show ?thesis
    using dispatch_list_inv [of startX startY blockSize blocksX blocksY "pq_drain (queue h) []"
        "ambulances h" "[]" ambs backlog]
    by (simp add: h' unresolved_ids_def)
qed

lemma dispatch_inv:
  assumes d: "dispatchVehicles startX startY blockSize blocksX blocksY h = Some h'"
    and inv: "hosp_inv h"
  shows "hosp_inv h'"
  using inv dispatch_unresolved [OF d] by (simp add: hosp_inv_def)

lemma update_unresolved:
  assumes u: "updateAfterMovement startX startY blockSize blocksX blocksY dt h = Some h'"
    and ok: "\<forall>a \<in> set (ambulances h). amb_ok a"
  shows "unresolved_ids h' \<subseteq># unresolved_ids h"
    and "int (size (unresolved_ids h')) + handledCount h' = int (size (unresolved_ids h)) + handledCount h"
    and "handledCount h \<le> handledCount h'"
    and "\<forall>a \<in> set (ambulances h'). amb_ok a"
    and "queue h' = queue h" and "nextEmergencyId h' = nextEmergencyId h"
    and "length (ambulances h') = length (ambulances h)"
proof -
  from u obtain ambs hc where
    l: "update_loop startX startY blockSize blocksX blocksY (onSceneDurationSec h) dt
          (ambulances h) (handledCount h) = Some (ambs, hc)"
    and h': "h' = h\<lparr>ambulances := ambs, handledCount := hc\<rparr>"
    by (auto simp: updateAfterMovement_def split: option.splits)
  note i = update_loop_inv [OF l ok]
  from i show "unresolved_ids h' \<subseteq># unresolved_ids h"
    by (simp add: h' unresolved_ids_def)
  from i show "int (size (unresolved_ids h')) + handledCount h' = int (size (unresolved_ids h)) + handledCount h"
    by (simp add: h' unresolved_ids_def)
  from i show "handledCount h \<le> handledCount h'" by (simp add: h')
  from i show "\<forall>a \<in> set (ambulances h'). amb_ok a" by (simp add: h')
  show "queue h' = queue h" and "nextEmergencyId h' = nextEmergencyId h" by (simp_all add: h')
  from i show "length (ambulances h') = length (ambulances h)" by (simp add: h')
qed

lemma update_inv:
  assumes u: "updateAfterMovement startX startY blockSize blocksX blocksY dt h = Some h'"
    and inv: "hosp_inv h"
  shows "hosp_inv h'"
proof -
  from inv have ok: "\<forall>a \<in> set (ambulances h). amb_ok a" by (simp add: hosp_inv_def)
  note i = update_unresolved [OF u ok]
  have c: "count (unresolved_ids h') k \<le> 1" for k
  proof -
    have "count (unresolved_ids h') k \<le> count (unresolved_ids h) k"
      using i(1) by (rule mset_subset_eq_count)
    also have "\<dots> \<le> 1" using inv by (simp add: hosp_inv_def)
    finally show ?thesis .
  qed
  have b: "\<forall>k \<in># unresolved_ids h'. 1 \<le> k \<and> k < nextEmergencyId h'"
    using inv i(1) i(6) by (auto simp: hosp_inv_def dest: mset_subset_eqD)
  from inv i c b show ?thesis by (simp add: hosp_inv_def)
qed

lemma move_unresolved:
  assumes m: "move_ambulances dt h = Some h'"
    and ok: "\<forall>a \<in> set (ambulances h). amb_ok a"
  shows "unresolved_ids h' = unresolved_ids h"
    and "\<forall>a \<in> set (ambulances h'). amb_ok a"
    and "handledCount h' = handledCount h" and "nextEmergencyId h' = nextEmergencyId h"
    and "queue h' = queue h"
proof -
  from m obtain ambs where l: "move_loop dt (ambulances h) = Some ambs"
    and h': "h' = h\<lparr>ambulances := ambs\<rparr>"
    by (auto simp: move_ambulances_def split: option.splits)
  note i = move_loop_inv [OF l ok]
  from i show "unresolved_ids h' = unresolved_ids h" by (simp add: h' unresolved_ids_def)
  from i show "\<forall>a \<in> set (ambulances h'). amb_ok a" by (simp add: h')
  show "handledCount h' = handledCount h" and "nextEmergencyId h' = nextEmergencyId h"
    and "queue h' = queue h"
    by (simp_all add: h')
qed

lemma move_inv:
  assumes m: "move_ambulances dt h = Some h'" and inv: "hosp_inv h"
  shows "hosp_inv h'"
proof -
  from inv have ok: "\<forall>a \<in> set (ambulances h). amb_ok a" by (simp add: hosp_inv_def)
  from inv move_unresolved [OF m ok] show ?thesis by (simp add: hosp_inv_def)
qed

lemma reachable_inv: "reachable h \<Longrightarrow> hosp_inv h"
proof (induction rule: reachable.induct)
  case (r_ctor loc parkingPositions startAmbId onSceneDuration h)
  then show ?case by (rule ctor_inv)
next
  case (r_receive h incoming now h')
  then show ?case by (blast intro: receive_inv)
next
  case (r_move h dt h')
  then show ?case by (blast intro: move_inv)
next
  case (r_dispatch h startX startY blockSize blocksX blocksY h')
  then show ?case by (blast intro: dispatch_inv)
next
  case (r_update h startX startY blockSize blocksX blocksY dt h')
  then show ?case by (blast intro: update_inv)
qed

lemma tick_reachable:
  assumes r: "reachable h"
    and t: "tick startX startY blockSize blocksX blocksY dt h = Some h'"
  shows "reachable h'"
proof -
  from t obtain h1 h2 where m: "move_ambulances dt h = Some h1"
    and d: "dispatchVehicles startX startY blockSize blocksX blocksY h1 = Some h2"
    and u: "updateAfterMovement startX startY blockSize blocksX blocksY dt h2 = Some h'"
    by (auto simp: tick_def split: option.splits)
  from r m have "reachable h1" by (rule r_move)
  from this d have "reachable h2" by (rule r_dispatch)
  from this u show ?thesis by (rule r_update)
qed

text \<open>From the invariant to statements about the queue and the roster.\<close>

lemma distinct_map_filter_nth:
  "distinct (map f (filter P xs)) \<Longrightarrow> i < j \<Longrightarrow> j < length xs \<Longrightarrow> P (xs ! i) \<Longrightarrow> P (xs ! j)
   \<Longrightarrow> f (xs ! i) \<noteq> f (xs ! j)"
proof (induction xs arbitrary: i j)
  case Nil
  then show ?case by simp
next
  case (Cons x xs)
  from Cons.prems(2) obtain j' where j: "j = Suc j'" by (cases j) auto
  show ?case
  proof (cases i)
    case 0
    from Cons.prems j have "xs ! j' \<in> set (filter P xs)" by simp
    then have "f (xs ! j') \<in> set (map f (filter P xs))" by simp
    with Cons.prems 0 j show ?thesis by auto
  next
    case (Suc i')
    from Cons.prems(1) have "distinct (map f (filter P xs))" by (simp split: if_splits)
    from Cons.IH [OF this, of i' j'] Cons.prems Suc j show ?thesis by simp
  qed
qed

lemma mset_held_list: "mset (held_list ambs) = assigned_ids ambs"
  by (simp add: held_list_def assigned_ids_def)

lemma inv_distinct:
  assumes "hosp_inv h"
  shows "distinct (map em_id (queue h) @ held_list (ambulances h))"
proof -
  have m: "mset (map em_id (queue h) @ held_list (ambulances h)) = unresolved_ids h"
    by (simp add: unresolved_ids_def mset_held_list)
  have "count (mset (map em_id (queue h) @ held_list (ambulances h))) a
      = (if a \<in> set (map em_id (queue h) @ held_list (ambulances h)) then 1 else 0)" for a
  proof (cases "a \<in> set (map em_id (queue h) @ held_list (ambulances h))")
    case True
    then have "0 < count (mset (map em_id (queue h) @ held_list (ambulances h))) a"
      by (simp only: count_greater_zero_iff set_mset_mset)
    moreover have "count (mset (map em_id (queue h) @ held_list (ambulances h))) a \<le> 1"
      using assms unfolding m by (simp add: hosp_inv_def)
    ultimately have "count (mset (map em_id (queue h) @ held_list (ambulances h))) a = 1"
      by linarith
    with True show ?thesis by (simp only: if_True)
  next
    case False
    then have "count (mset (map em_id (queue h) @ held_list (ambulances h))) a = 0"
      by (simp only: count_eq_zero_iff set_mset_mset not_False_eq_True)
    with False show ?thesis by (simp only: if_False)
  qed
  then show ?thesis unfolding distinct_count_atmost_1 by blast
qed

lemma inv_held_range:
  assumes inv: "hosp_inv h" and a: "a \<in> set (ambulances h)" and hd: "holds_emergency a"
  shows "1 \<le> assignedEmergencyId a \<and> assignedEmergencyId a < nextEmergencyId h"
proof -
  from a hd have "assignedEmergencyId a \<in># assigned_ids (ambulances h)"
    by (auto simp: assigned_ids_def)
  then have "assignedEmergencyId a \<in># unresolved_ids h"
    by (simp add: unresolved_ids_def)
  with inv show ?thesis by (simp add: hosp_inv_def)
qed

lemma inv_assigned_iff:
  assumes inv: "hosp_inv h" and a: "a \<in> set (ambulances h)"
  shows "(assignedEmergencyId a \<noteq> - 1) = holds_emergency a"
proof (cases "holds_emergency a")
  case True
  with inv_held_range [OF inv a] show ?thesis by auto
next
  case False
  with inv a show ?thesis by (auto simp: hosp_inv_def amb_ok_def)
qed

lemma inv_one_place:
  assumes inv: "hosp_inv h"
  shows "one_place h"
proof -
  note d = inv_distinct [OF inv]
  have iff: "(assignedEmergencyId a \<noteq> - 1) = holds_emergency a" if "a \<in> set (ambulances h)" for a
    using inv_assigned_iff [OF inv that] .
  have q: "distinct (map em_id (queue h))" using d by simp
  have dh: "distinct (held_list (ambulances h))" using d by simp
  have two: "assignedEmergencyId (ambulances h ! i) \<noteq> assignedEmergencyId (ambulances h ! j)"
    if i: "i < length (ambulances h)" and j: "j < length (ambulances h)" and ne: "i \<noteq> j"
      and s: "assignedEmergencyId (ambulances h ! i) \<noteq> - 1" for i j
  proof (cases "holds_emergency (ambulances h ! j)")
    case False
    with iff [of "ambulances h ! j"] j have "assignedEmergencyId (ambulances h ! j) = - 1" by simp
    with s show ?thesis by simp
  next
    case True
    from s iff [of "ambulances h ! i"] i have hi: "holds_emergency (ambulances h ! i)" by simp
    from ne consider "i < j" | "j < i" by linarith
    then show ?thesis
    proof cases
      case 1
      from distinct_map_filter_nth [OF dh [unfolded held_list_def] 1 j hi True] show ?thesis .
    next
      case 2
      from distinct_map_filter_nth [OF dh [unfolded held_list_def] 2 i True hi] show ?thesis by simp
    qed
  qed
  have dis: "assignedEmergencyId a \<noteq> em_id e"
    if e: "e \<in> set (queue h)" and a: "a \<in> set (ambulances h)" for e a
  proof (cases "holds_emergency a")
    case True
    with a have "assignedEmergencyId a \<in> set (held_list (ambulances h))"
      by (auto simp: held_list_def)
    moreover from e have "em_id e \<in> set (map em_id (queue h))" by simp
    ultimately show ?thesis using d by auto
  next
    case False
    with iff [OF a] have "assignedEmergencyId a = - 1" by simp
    moreover from e have "em_id e \<in># unresolved_ids h" by (simp add: unresolved_ids_def)
    with inv have "1 \<le> em_id e" by (simp add: hosp_inv_def)
    ultimately show ?thesis by simp
  qed
  have qr: "1 \<le> em_id e \<and> em_id e < nextEmergencyId h" if e: "e \<in> set (queue h)" for e
  proof -
    from e have "em_id e \<in># unresolved_ids h" by (simp add: unresolved_ids_def)
    with inv show ?thesis by (simp add: hosp_inv_def)
  qed
  have ar: "1 \<le> assignedEmergencyId a \<and> assignedEmergencyId a < nextEmergencyId h"
    if a: "a \<in> set (ambulances h)" and s: "assignedEmergencyId a \<noteq> - 1" for a
    using inv_held_range [OF inv a] iff [OF a] s by simp
  have f: "filter (\<lambda>a. assignedEmergencyId a \<noteq> - 1) (ambulances h)
      = filter holds_emergency (ambulances h)"
    using iff by (auto intro: filter_cong)
  have "size (unresolved_ids h) = length (queue h) + length (held_list (ambulances h))"
    by (simp add: unresolved_ids_def flip: mset_held_list)
  then have "size (unresolved_ids h) = length (queue h) + length (filter holds_emergency (ambulances h))"
    by (simp add: held_list_def)
  with inv have cnt: "int (length (queue h))
          + int (length (filter (\<lambda>a. assignedEmergencyId a \<noteq> - 1) (ambulances h)))
          + handledCount h = nextEmergencyId h - 1"
    by (simp add: hosp_inv_def f)
  from q two dis qr ar cnt show ?thesis
    unfolding one_place_def by blast
qed

text \<open>The state machine acts on each ambulance of the roster by itself.\<close>

lemma update_loop_nth:
  "update_loop startX startY blockSize blocksX blocksY duration dt ambs hc = Some (ambs', hc')
   \<Longrightarrow> i < length ambs
   \<Longrightarrow> \<exists>hc1 hc2. update_ambulance startX startY blockSize blocksX blocksY duration dt (ambs ! i) hc1
         = Some (ambs' ! i, hc2)"
proof (induction ambs arbitrary: hc ambs' hc' i)
  case Nil
  then show ?case by simp
next
  case (Cons a as)
  from Cons.prems(1) obtain a1 hc1 as1 where
    u: "update_ambulance startX startY blockSize blocksX blocksY duration dt a hc = Some (a1, hc1)"
    and l: "update_loop startX startY blockSize blocksX blocksY duration dt as hc1 = Some (as1, hc')"
    and r: "ambs' = a1 # as1"
    by (auto split: option.splits)
  show ?case
  proof (cases i)
    case 0
    with u r show ?thesis by auto
  next
    case (Suc i')
    with Cons.prems(2) have "i' < length as" by simp
    from Cons.IH [OF l this] Suc r show ?thesis by simp
  qed
qed

lemma update_to_scene:
  assumes s: "status a = TO_SCENE" and i: "0 \<le> currentPathIndex a"
  shows "\<exists>a'. update_ambulance startX startY blockSize blocksX blocksY duration dt a hc = Some (a', hc)
     \<and> (status a' = ON_SCENE)
         = (currentPathIndex a \<ge> int (length (path a))
            \<or> (currentPathIndex a < int (length (path a)) \<and> measured (last (path a)) (pos a) < 4))
     \<and> (status a' = ON_SCENE \<longrightarrow> onSceneTimer a' = duration)
     \<and> (status a' \<noteq> ON_SCENE \<longrightarrow> a' = a)"
proof (cases "currentPathIndex a \<ge> int (length (path a))")
  case True
  with s show ?thesis by (simp add: update_ambulance_def)
next
  case False
  with i have ne: "path a \<noteq> []" by auto
  show ?thesis
  proof (cases "measured (last (path a)) (pos a) < 4")
    case True
    with s False ne show ?thesis
      by (simp add: update_ambulance_def Let_def dist32_def [symmetric] flt_dist32 FLT_MAX_def)
  next
    case far: False
    with s False ne show ?thesis
      by (simp add: update_ambulance_def Let_def dist32_def [symmetric] flt_dist32 FLT_MAX_def)
  qed
qed

section \<open>The dispatch pass, emergency by emergency\<close>

lemma findNearest_cases:
  "(findNearestAvailableAmbulance ambs target = - 1
      \<and> (\<forall>j < length ambs. eligible (ambs ! j) \<longrightarrow> FLT_MAX \<le> measured (pos (ambs ! j)) target))
   \<or> (\<exists>k. findNearestAvailableAmbulance ambs target = int k
         \<and> nearest_idle ambs target k
         \<and> measured (pos (ambs ! k)) target < FLT_MAX)"
  using findNearest_spec [of ambs target] unfolding nearest_idle_def by blast

lemma not_eligible_assign: "\<not> eligible (assign a em pth)"
  by (simp add: eligible_def assign_def)

lemma amb_id_assign: "amb_id (assign a em pth) = amb_id a"
  by (simp add: assign_def)

text \<open>One pass through the loop body: either the backlog grows by the emergency, or one
  eligible ambulance, the nearest, is assigned.\<close>

lemma dispatch_body_step:
  assumes "dispatch_body startX startY blockSize blocksX blocksY em ambs backlog = Some (ambs', backlog')"
  shows "(findNearestAvailableAmbulance ambs (location em) = - 1
            \<and> (\<forall>j < length ambs. eligible (ambs ! j) \<longrightarrow>
                  FLT_MAX \<le> measured (pos (ambs ! j)) (location em))
            \<and> ambs' = ambs \<and> backlog' = backlog @ [em])
         \<or> (\<exists>k pth. findNearestAvailableAmbulance ambs (location em) = int k
               \<and> nearest_idle ambs (location em) k
               \<and> measured (pos (ambs ! k)) (location em) < FLT_MAX
               \<and> ambs' = ambs[k := assign (ambs ! k) em pth] \<and> backlog' = backlog)"
  using findNearest_cases [of ambs "location em"]
proof (elim disjE exE conjE)
  assume "findNearestAvailableAmbulance ambs (location em) = - 1"
    and "\<forall>j < length ambs. eligible (ambs ! j) \<longrightarrow> FLT_MAX \<le> measured (pos (ambs ! j)) (location em)"
  with assms show ?thesis by (simp add: dispatch_body_def)
next
  fix k
  assume k: "findNearestAvailableAmbulance ambs (location em) = int k"
    "nearest_idle ambs (location em) k" "measured (pos (ambs ! k)) (location em) < FLT_MAX"
  with assms obtain pth where
    "ambs' = ambs[k := assign (ambs ! k) em pth]" "backlog' = backlog"
    by (auto simp: dispatch_body_def Let_def split: option.splits)
  with k show ?thesis by blast
qed

lemma dispatch_body_untouched:
  assumes b: "dispatch_body startX startY blockSize blocksX blocksY em ambs backlog = Some (ambs', backlog')"
    and i: "i < length ambs"
  shows "length ambs' = length ambs"
    and "\<not> eligible (ambs ! i) \<Longrightarrow> ambs' ! i = ambs ! i"
    and "ambs' ! i \<noteq> ambs ! i \<Longrightarrow> \<not> eligible (ambs' ! i)"
    and "amb_id (ambs' ! i) = amb_id (ambs ! i)"
proof -
  from dispatch_body_step [OF b] show "length ambs' = length ambs" by auto
  from dispatch_body_step [OF b] show "ambs' ! i = ambs ! i" if "\<not> eligible (ambs ! i)"
    using that i by (auto simp: nearest_idle_def nth_list_update)
  from dispatch_body_step [OF b] show "\<not> eligible (ambs' ! i)" if "ambs' ! i \<noteq> ambs ! i"
    using that i by (auto simp: nearest_idle_def nth_list_update not_eligible_assign split: if_splits)
  from dispatch_body_step [OF b] show "amb_id (ambs' ! i) = amb_id (ambs ! i)"
    using i by (auto simp: nth_list_update amb_id_assign nearest_idle_def)
qed

lemma dispatch_list_append:
  "dispatch_list startX startY blockSize blocksX blocksY (ems1 @ ems2) ambs backlog
     = (case dispatch_list startX startY blockSize blocksX blocksY ems1 ambs backlog of
          None \<Rightarrow> None
        | Some (ambs1, backlog1) \<Rightarrow>
            dispatch_list startX startY blockSize blocksX blocksY ems2 ambs1 backlog1)"
  by (induction ems1 arbitrary: ambs backlog) (auto split: option.splits)

lemma dispatch_list_untouched:
  "dispatch_list startX startY blockSize blocksX blocksY ems ambs backlog = Some (ambs', backlog')
   \<Longrightarrow> i < length ambs
   \<Longrightarrow> length ambs' = length ambs
       \<and> (\<not> eligible (ambs ! i) \<longrightarrow> ambs' ! i = ambs ! i)
       \<and> (ambs' ! i \<noteq> ambs ! i \<longrightarrow> \<not> eligible (ambs' ! i))
       \<and> amb_id (ambs' ! i) = amb_id (ambs ! i)"
proof (induction ems arbitrary: ambs backlog)
  case Nil
  then show ?case by simp
next
  case (Cons em ems)
  from Cons.prems(1) obtain ambs1 backlog1 where
    b: "dispatch_body startX startY blockSize blocksX blocksY em ambs backlog = Some (ambs1, backlog1)"
    and l: "dispatch_list startX startY blockSize blocksX blocksY ems ambs1 backlog1 = Some (ambs', backlog')"
    by (auto split: option.splits)
  note s = dispatch_body_untouched [OF b Cons.prems(2)]
  from s(1) Cons.prems(2) have i1: "i < length ambs1" by simp
  note ih = Cons.IH [OF l i1]
  have len: "length ambs' = length ambs" using ih s(1) by simp
  have keep: "ambs' ! i = ambs ! i" if ne: "\<not> eligible (ambs ! i)"
  proof -
    from s(2) [OF ne] have e: "ambs1 ! i = ambs ! i" .
    with ne ih show ?thesis by simp
  qed
  have changed: "\<not> eligible (ambs' ! i)" if c: "ambs' ! i \<noteq> ambs ! i"
  proof (cases "ambs1 ! i = ambs ! i")
    case True
    with c ih show ?thesis by simp
  next
    case False
    from s(3) [OF False] have n1: "\<not> eligible (ambs1 ! i)" .
    with ih have "ambs' ! i = ambs1 ! i" by simp
    with n1 show ?thesis by simp
  qed
  have ids: "amb_id (ambs' ! i) = amb_id (ambs ! i)" using ih s(4) by simp
  from len keep changed ids show ?case by blast
qed

lemma dispatch_list_backlog:
  "dispatch_list startX startY blockSize blocksX blocksY ems ambs backlog = Some (ambs', backlog')
   \<Longrightarrow> distinct ems
   \<Longrightarrow> \<exists>added. backlog' = backlog @ added \<and> added = filter (\<lambda>e. e \<in> set added) ems"
proof (induction ems arbitrary: ambs backlog)
  case Nil
  then show ?case by simp
next
  case (Cons em ems)
  from Cons.prems(1) obtain ambs1 backlog1 where
    b: "dispatch_body startX startY blockSize blocksX blocksY em ambs backlog = Some (ambs1, backlog1)"
    and l: "dispatch_list startX startY blockSize blocksX blocksY ems ambs1 backlog1 = Some (ambs', backlog')"
    by (auto split: option.splits)
  from Cons.prems(2) have d: "distinct ems" and fresh: "em \<notin> set ems" by simp_all
  from Cons.IH [OF l d] obtain added where
    a: "backlog' = backlog1 @ added" "added = filter (\<lambda>e. e \<in> set added) ems"
    by blast
  from a(2) have sub: "set added \<subseteq> set ems"
    by (metis filter_is_subset)
  with fresh have nin: "em \<notin> set added" by blast
  from dispatch_body_step [OF b] consider "backlog1 = backlog @ [em]" | "backlog1 = backlog"
    by auto
  then show ?case
  proof cases
    case 1
    have "filter (\<lambda>e. e \<in> set (em # added)) ems = filter (\<lambda>e. e \<in> set added) ems"
      using fresh by (auto intro: filter_cong)
    with a(2) have "em # added = filter (\<lambda>e. e \<in> set (em # added)) (em # ems)"
      by simp
    moreover from 1 a(1) have "backlog' = backlog @ (em # added)" by simp
    ultimately show ?thesis by blast
  next
    case 2
    from nin a(2) have "added = filter (\<lambda>e. e \<in> set added) (em # ems)" by simp
    moreover from 2 a(1) have "backlog' = backlog @ added" by simp
    ultimately show ?thesis by blast
  qed
qed

lemma pq_best_keep: "\<forall>y \<in> set es. \<not> EmergencyCompare b y \<Longrightarrow> pq_best b es = b"
  by (induction es) auto

lemma pq_drain_sorted: "sorted_wrt best_first xs \<Longrightarrow> pq_drain xs [] = xs"
proof (induction xs)
  case Nil
  show ?case by simp
next
  case (Cons x xs)
  then have "\<forall>y \<in> set xs. \<not> EmergencyCompare x y" by (simp add: best_first_iff)
  then have t: "pq_top (x # xs) = x" by (simp add: pq_best_keep)
  then have p: "pq_pop (x # xs) = xs" by (simp add: pq_pop_def)
  from Cons have "pq_drain xs [] = xs" by simp
  with t p show ?case by (simp add: pq_drain_step)
qed

lemma sorted_wrt_filter_best: "sorted_wrt best_first xs \<Longrightarrow> sorted_wrt best_first (filter P xs)"
  by (induction xs) auto

lemma distinct_pq_drain: "distinct q \<Longrightarrow> distinct (pq_drain q [])"
  using mset_pq_drain [of q] by (metis mset_eq_imp_distinct_iff)

lemma reachable_distinct_queue: "reachable h \<Longrightarrow> distinct (queue h)"
proof -
  assume "reachable h"
  then have "one_place h" by (intro inv_one_place reachable_inv)
  then have "distinct (map em_id (queue h))" by (simp add: one_place_def)
  then show ?thesis by (rule distinct_map [THEN iffD1, THEN conjunct1])
qed

text \<open>The result of a dispatch pass, in terms of the emergencies in best-first order.\<close>

lemma dispatchVehicles_list:
  assumes d: "dispatchVehicles startX startY blockSize blocksX blocksY h = Some h'"
  shows "\<exists>ambs' backlog'.
     dispatch_list startX startY blockSize blocksX blocksY (peekAllPending h) (ambulances h) []
       = Some (ambs', backlog')
     \<and> h' = h\<lparr>ambulances := ambs', queue := backlog'\<rparr>"
proof (cases "queue h = []")
  case True
  with d have "h' = h" by (simp add: dispatchVehicles_def)
  with True show ?thesis by (simp add: peekAllPending_def)
next
  case False
  with d obtain ambs backlog where
    l: "dispatch_loop startX startY blockSize blocksX blocksY (queue h) (ambulances h) [] = Some (ambs, backlog)"
    and h': "h' = h\<lparr>ambulances := ambs, queue := backlog\<rparr>"
    by (auto simp: dispatchVehicles_def fold_pq_push split: option.splits)
  from l h' show ?thesis by (simp add: dispatch_loop_list peekAllPending_def)
qed

lemma make_ambulances_ids:
  "sorted_wrt (<) (map amb_id (make_ambulances aid ps))
   \<and> (\<forall>a \<in> set (make_ambulances aid ps). aid \<le> amb_id a)"
proof (induction ps arbitrary: aid)
  case Nil
  show ?case by simp
next
  case (Cons p ps)
  from Cons [of "aid + 1"] show ?case by fastforce
qed

lemma move_loop_ids: "move_loop dt ambs = Some ambs' \<Longrightarrow> map amb_id ambs' = map amb_id ambs"
proof (induction ambs arbitrary: ambs')
  case Nil
  then show ?case by simp
next
  case (Cons a as)
  from Cons.prems obtain a1 as1 where
    m: "move_ambulance dt a = Some a1" and l: "move_loop dt as = Some as1" and r: "ambs' = a1 # as1"
    by (auto split: option.splits)
  from m have "amb_id a1 = amb_id a"
    by (auto simp: move_ambulance_def Let_def split: if_splits)
  with Cons.IH [OF l] r show ?case by simp
qed

lemma update_loop_ids:
  "update_loop startX startY blockSize blocksX blocksY duration dt ambs hc = Some (ambs', hc')
   \<Longrightarrow> map amb_id ambs' = map amb_id ambs"
proof (induction ambs arbitrary: hc ambs' hc')
  case Nil
  then show ?case by simp
next
  case (Cons a as)
  from Cons.prems obtain a1 hc1 as1 where
    u: "update_ambulance startX startY blockSize blocksX blocksY duration dt a hc = Some (a1, hc1)"
    and l: "update_loop startX startY blockSize blocksX blocksY duration dt as hc1 = Some (as1, hc')"
    and r: "ambs' = a1 # as1"
    by (auto split: option.splits)
  from u have "amb_id a1 = amb_id a"
    by (auto simp: update_ambulance_def Let_def split: if_splits option.splits)
  with Cons.IH [OF l] r show ?case by simp
qed

lemma dispatch_list_ids:
  assumes l: "dispatch_list startX startY blockSize blocksX blocksY ems ambs backlog = Some (ambs', backlog')"
  shows "map amb_id ambs' = map amb_id ambs"
proof (rule nth_equalityI)
  from dispatch_list_inv [OF l] have len: "length ambs' = length ambs" by simp
  then show "length (map amb_id ambs') = length (map amb_id ambs)" by simp
  fix i assume "i < length (map amb_id ambs')"
  with len have i: "i < length ambs" by simp
  from dispatch_list_untouched [OF l i] i show "map amb_id ambs' ! i = map amb_id ambs ! i"
    by simp
qed

lemma reachable_ids: "reachable h \<Longrightarrow> sorted_wrt (<) (map amb_id (ambulances h))"
proof (induction rule: reachable.induct)
  case (r_ctor loc parkingPositions startAmbId onSceneDuration h)
  then show ?case
    using make_ambulances_ids [of startAmbId parkingPositions]
    by (auto simp: Hospital_ctor_def split: if_splits)
next
  case (r_receive h incoming now h')
  then show ?case by (auto simp: receiveEmergency_def Let_def split: if_splits)
next
  case (r_move h dt h')
  then show ?case
    by (auto simp: move_ambulances_def move_loop_ids split: option.splits)
next
  case (r_dispatch h startX startY blockSize blocksX blocksY h')
  from dispatchVehicles_list [OF r_dispatch.hyps(2)] obtain ambs' backlog' where
    "dispatch_list startX startY blockSize blocksX blocksY (peekAllPending h) (ambulances h) []
       = Some (ambs', backlog')" "h' = h\<lparr>ambulances := ambs', queue := backlog'\<rparr>"
    by blast
  with r_dispatch.IH show ?case by (simp add: dispatch_list_ids)
next
  case (r_update h startX startY blockSize blocksX blocksY dt h')
  then show ?case
    by (auto simp: updateAfterMovement_def update_loop_ids split: option.splits)
qed

text \<open>
  The turn of one emergency in a pass over pairwise different emergencies: the roster
  it meets, and where the emergency and the matched ambulance are at the end of the pass.
\<close>

lemma dispatch_turn:
  assumes l: "dispatch_list startX startY blockSize blocksX blocksY (ems1 @ em # ems2) ambs []
       = Some (ambs', backlog')"
    and dist: "distinct (ems1 @ em # ems2)"
  shows "\<exists>ambs1 backlog1.
          dispatch_list startX startY blockSize blocksX blocksY ems1 ambs [] = Some (ambs1, backlog1)
          \<and> length ambs1 = length ambs
          \<and> (\<forall>i < length ambs1. ambs1 ! i \<noteq> ambs ! i \<longrightarrow> \<not> eligible (ambs1 ! i))
          \<and> ((findNearestAvailableAmbulance ambs1 (location em) = - 1
                \<and> (\<forall>j < length ambs1. eligible (ambs1 ! j) \<longrightarrow>
                      FLT_MAX \<le> measured (pos (ambs1 ! j)) (location em))
                \<and> em \<in> set backlog')
              \<or> (\<exists>k pth. findNearestAvailableAmbulance ambs1 (location em) = int k
                    \<and> nearest_idle ambs1 (location em) k
                    \<and> measured (pos (ambs1 ! k)) (location em) < FLT_MAX
                    \<and> ambs' ! k = assign (ambs1 ! k) em pth
                    \<and> em \<notin> set backlog'))"
proof -
  from l obtain ambs1 backlog1 where
    l1: "dispatch_list startX startY blockSize blocksX blocksY ems1 ambs [] = Some (ambs1, backlog1)"
    and l2: "dispatch_list startX startY blockSize blocksX blocksY (em # ems2) ambs1 backlog1
       = Some (ambs', backlog')"
    by (auto simp: dispatch_list_append split: option.splits)
  from l2 obtain ambs2 backlog2 where
    b: "dispatch_body startX startY blockSize blocksX blocksY em ambs1 backlog1 = Some (ambs2, backlog2)"
    and l3: "dispatch_list startX startY blockSize blocksX blocksY ems2 ambs2 backlog2 = Some (ambs', backlog')"
    by (auto split: option.splits)
  from dispatch_list_inv [OF l1] have len1: "length ambs1 = length ambs" by simp
  have untouched: "\<forall>i < length ambs1. ambs1 ! i \<noteq> ambs ! i \<longrightarrow> \<not> eligible (ambs1 ! i)"
    using dispatch_list_untouched [OF l1] len1 by simp
  from dist have d1: "distinct ems1" and d2: "distinct ems2"
    and n1: "em \<notin> set ems1" and n2: "em \<notin> set ems2"
    by auto
  from dispatch_list_backlog [OF l1 d1] obtain added1 where
    a1: "backlog1 = added1" "added1 = filter (\<lambda>e. e \<in> set added1) ems1"
    by auto
  from a1(2) have s1: "set added1 \<subseteq> set ems1" by (metis filter_is_subset)
  from dispatch_list_backlog [OF l3 d2] obtain added2 where
    a2: "backlog' = backlog2 @ added2" "added2 = filter (\<lambda>e. e \<in> set added2) ems2"
    by auto
  from a2(2) have s2: "set added2 \<subseteq> set ems2" by (metis filter_is_subset)
  from dispatch_body_step [OF b]
  have "(findNearestAvailableAmbulance ambs1 (location em) = - 1
                \<and> (\<forall>j < length ambs1. eligible (ambs1 ! j) \<longrightarrow>
                      FLT_MAX \<le> measured (pos (ambs1 ! j)) (location em))
                \<and> em \<in> set backlog')
              \<or> (\<exists>k pth. findNearestAvailableAmbulance ambs1 (location em) = int k
                    \<and> nearest_idle ambs1 (location em) k
                    \<and> measured (pos (ambs1 ! k)) (location em) < FLT_MAX
                    \<and> ambs' ! k = assign (ambs1 ! k) em pth
                    \<and> em \<notin> set backlog')"
  proof (elim disjE exE conjE)
    assume "findNearestAvailableAmbulance ambs1 (location em) = - 1"
      and "\<forall>j < length ambs1. eligible (ambs1 ! j) \<longrightarrow> FLT_MAX \<le> measured (pos (ambs1 ! j)) (location em)"
      and "ambs2 = ambs1" and "backlog2 = backlog1 @ [em]"
    with a2(1) show ?thesis by simp
  next
    fix k pth
    assume k: "findNearestAvailableAmbulance ambs1 (location em) = int k"
      "nearest_idle ambs1 (location em) k" "measured (pos (ambs1 ! k)) (location em) < FLT_MAX"
      and a: "ambs2 = ambs1[k := assign (ambs1 ! k) em pth]" and bl: "backlog2 = backlog1"
    from k(2) have kl: "k < length ambs1" by (simp add: nearest_idle_def)
    with a have k2: "k < length ambs2" and ak: "ambs2 ! k = assign (ambs1 ! k) em pth" by simp_all
    from dispatch_list_untouched [OF l3 k2] ak have "ambs' ! k = assign (ambs1 ! k) em pth"
      by (simp add: not_eligible_assign)
    moreover have "em \<notin> set backlog'"
      using a2(1) bl a1(1) s1 s2 n1 n2 by auto
    ultimately show ?thesis using k by auto
  qed
  with l1 len1 untouched show ?thesis by blast
qed

lemma findNearest_none:
  assumes "\<forall>a \<in> set ambs. \<not> eligible a"
  shows "findNearestAvailableAmbulance ambs target = - 1"
  using findNearest_cases [of ambs target] assms
  by (auto simp: nearest_idle_def)

lemma dispatch_list_none:
  assumes "\<forall>a \<in> set ambs. \<not> eligible a"
  shows "dispatch_list startX startY blockSize blocksX blocksY ems ambs backlog
     = Some (ambs, backlog @ ems)"
  using assms
  by (induction ems arbitrary: backlog) (simp_all add: dispatch_body_def findNearest_none)

text \<open>The ids carried after a pass: the ones carried before, or ids of the emergencies passed.\<close>

lemma dispatch_list_carried:
  "dispatch_list startX startY blockSize blocksX blocksY ems ambs backlog = Some (ambs', backlog')
   \<Longrightarrow> i < length ambs
   \<Longrightarrow> assignedEmergencyId (ambs' ! i) = assignedEmergencyId (ambs ! i)
       \<or> assignedEmergencyId (ambs' ! i) \<in> em_id ` set ems"
proof (induction ems arbitrary: ambs backlog)
  case Nil
  then show ?case by simp
next
  case (Cons em ems)
  from Cons.prems(1) obtain ambs1 backlog1 where
    b: "dispatch_body startX startY blockSize blocksX blocksY em ambs backlog = Some (ambs1, backlog1)"
    and l: "dispatch_list startX startY blockSize blocksX blocksY ems ambs1 backlog1 = Some (ambs', backlog')"
    by (auto split: option.splits)
  from dispatch_body_cases [OF b] Cons.prems(2)
  have one: "length ambs1 = length ambs
      \<and> (assignedEmergencyId (ambs1 ! i) = assignedEmergencyId (ambs ! i)
           \<or> assignedEmergencyId (ambs1 ! i) = em_id em)"
    by (auto simp: nth_list_update assign_def)
  then have "i < length ambs1" using Cons.prems(2) by simp
  from Cons.IH [OF l this] one show ?case by auto
qed

text \<open>
  After a pass over emergencies with pairwise different ids, none of them carried by an
  ambulance before, the backlog has grown by exactly the emergencies that no ambulance
  carries now, in the order of the pass.
\<close>

lemma dispatch_list_queue:
  "dispatch_list startX startY blockSize blocksX blocksY ems ambs backlog = Some (ambs', backlog')
   \<Longrightarrow> distinct (map em_id ems)
   \<Longrightarrow> \<forall>e \<in> set ems. unmatched ambs e
   \<Longrightarrow> backlog' = backlog @ filter (unmatched ambs') ems"
proof (induction ems arbitrary: ambs backlog)
  case Nil
  then show ?case by simp
next
  case (Cons em ems)
  from Cons.prems(1) obtain ambs1 backlog1 where
    b: "dispatch_body startX startY blockSize blocksX blocksY em ambs backlog = Some (ambs1, backlog1)"
    and l: "dispatch_list startX startY blockSize blocksX blocksY ems ambs1 backlog1 = Some (ambs', backlog')"
    by (auto split: option.splits)
  from Cons.prems(2) have d: "distinct (map em_id ems)" and new: "em_id em \<notin> em_id ` set ems"
    by simp_all
  from dispatch_list_inv [OF l] have len: "length ambs' = length ambs1" by simp
  from dispatch_body_cases [OF b] show ?case
  proof (elim disjE exE conjE)
    assume same: "ambs1 = ambs" and bl: "backlog1 = backlog @ [em]"
    from Cons.prems(3) have fresh: "\<forall>e \<in> set ems. unmatched ambs1 e" by (simp add: same)
    from Cons.IH [OF l d fresh] have ih: "backlog' = backlog1 @ filter (unmatched ambs') ems" .
    have "unmatched ambs' em"
      unfolding unmatched_def
    proof
      fix a assume "a \<in> set ambs'"
      then obtain i where i: "i < length ambs'" "a = ambs' ! i" by (auto simp: in_set_conv_nth)
      with len same have i1: "i < length ambs" by simp
      from Cons.prems(3) i1 have "assignedEmergencyId (ambs ! i) \<noteq> em_id em"
        by (simp add: unmatched_def)
      moreover from dispatch_list_carried [OF l, of i] i1 same
      have "assignedEmergencyId (ambs' ! i) = assignedEmergencyId (ambs ! i)
          \<or> assignedEmergencyId (ambs' ! i) \<in> em_id ` set ems" by simp
      ultimately show "assignedEmergencyId a \<noteq> em_id em"
        using new i(2) by metis
    qed
    with ih bl show ?thesis by simp
  next
    fix k pth
    assume k: "k < length ambs" and el: "eligible (ambs ! k)"
      and a1: "ambs1 = ambs[k := assign (ambs ! k) em pth]" and bl: "backlog1 = backlog"
    have fresh: "\<forall>e \<in> set ems. unmatched ambs1 e"
      unfolding unmatched_def
    proof (intro ballI)
      fix e a assume e: "e \<in> set ems" and a: "a \<in> set ambs1"
      from a a1 have "a \<in> set ambs \<or> a = assign (ambs ! k) em pth"
        by (auto dest: set_update_subset_insert [THEN subsetD])
      then show "assignedEmergencyId a \<noteq> em_id e"
      proof
        assume "a \<in> set ambs"
        with Cons.prems(3) e show ?thesis by (simp add: unmatched_def)
      next
        assume "a = assign (ambs ! k) em pth"
        then have "assignedEmergencyId a = em_id em" by (simp add: assign_def)
        with new e show ?thesis by auto
      qed
    qed
    from Cons.IH [OF l d fresh] have ih: "backlog' = backlog1 @ filter (unmatched ambs') ems" .
    from k a1 have k1: "k < length ambs1" and ak: "ambs1 ! k = assign (ambs ! k) em pth" by simp_all
    from dispatch_list_untouched [OF l k1] ak have "ambs' ! k = assign (ambs ! k) em pth"
      by (simp add: not_eligible_assign)
    then have "assignedEmergencyId (ambs' ! k) = em_id em" by (simp add: assign_def)
    moreover from k1 len have "ambs' ! k \<in> set ambs'" by simp
    ultimately have "\<not> unmatched ambs' em" unfolding unmatched_def by blast
    with ih bl show ?thesis by simp
  qed
qed

text \<open>On a grid with exact arithmetic and with every point in range, the pass returns.\<close>

lemma dispatch_list_returns:
  assumes g: "grid_ok startX startY blockSize blocksX blocksY"
  shows "\<forall>a \<in> set ambs. in_range (pos a) \<Longrightarrow> \<forall>e \<in> set ems. in_range (location e)
     \<Longrightarrow> \<exists>r. dispatch_list startX startY blockSize blocksX blocksY ems ambs backlog = Some r"
proof (induction ems arbitrary: ambs backlog)
  case Nil
  show ?case by simp
next
  case (Cons em ems)
  have "\<exists>ambs1 backlog1. dispatch_body startX startY blockSize blocksX blocksY em ambs backlog
      = Some (ambs1, backlog1) \<and> (\<forall>a \<in> set ambs1. in_range (pos a))"
    using findNearest_spec [of ambs "location em"]
  proof (elim disjE exE conjE)
    assume "findNearestAvailableAmbulance ambs (location em) = - 1"
    with Cons.prems(1) show ?thesis by (simp add: dispatch_body_def)
  next
    fix k assume k: "k < length ambs" "findNearestAvailableAmbulance ambs (location em) = int k"
    from k(1) Cons.prems(1) have "in_range (pos (ambs ! k))" by simp
    moreover from Cons.prems(2) have "in_range (location em)" by simp
    ultimately obtain pth where
      p: "findPathOnRoads (pos (ambs ! k)) (location em) startX startY blockSize blocksX blocksY
           = Some pth"
      using findPathOnRoads_returns [OF g] by blast
    have "\<forall>a \<in> set (ambs[k := assign (ambs ! k) em pth]). in_range (pos a)"
    proof
      fix a assume "a \<in> set (ambs[k := assign (ambs ! k) em pth])"
      then have "a \<in> set ambs \<or> a = assign (ambs ! k) em pth"
        by (auto dest: set_update_subset_insert [THEN subsetD])
      with Cons.prems(1) \<open>in_range (pos (ambs ! k))\<close> show "in_range (pos a)"
        by (auto simp: assign_def)
    qed
    with k p show ?thesis by (simp add: dispatch_body_def)
  qed
  then obtain ambs1 backlog1 where
    b: "dispatch_body startX startY blockSize blocksX blocksY em ambs backlog = Some (ambs1, backlog1)"
    and r: "\<forall>a \<in> set ambs1. in_range (pos a)" by blast
  from Cons.prems(2) have "\<forall>e \<in> set ems. in_range (location e)" by simp
  from Cons.IH [OF r this, of backlog1] b show ?case by simp
qed

lemma dispatchVehicles_returns:
  assumes g: "grid_ok startX startY blockSize blocksX blocksY"
    and a: "\<forall>a \<in> set (ambulances h). in_range (pos a)"
    and e: "\<forall>e \<in> set (queue h). in_range (location e)"
  shows "\<exists>h'. dispatchVehicles startX startY blockSize blocksX blocksY h = Some h'"
proof -
  from e have "\<forall>e \<in> set (pq_drain (queue h) []). in_range (location e)"
    by (simp add: set_pq_drain)
  from dispatch_list_returns [OF g a this, of "[]"] obtain r where
    "dispatch_list startX startY blockSize blocksX blocksY (pq_drain (queue h) []) (ambulances h) []
       = Some r" ..
  then show ?thesis
    by (cases r) (simp add: dispatchVehicles_def dispatch_loop_list)
qed

section \<open>The emergencies received and the assignments carried\<close>

lemma reachable_log_reachable: "reachable_log h seen \<Longrightarrow> reachable h"
  by (induction rule: reachable_log.induct) (auto intro: reachable.intros)

lemma reachable_has_log: "reachable h \<Longrightarrow> \<exists>seen. reachable_log h seen"
  by (induction rule: reachable.induct) (auto intro: reachable_log.intros)

lemma move_loop_fields:
  "move_loop dt ambs = Some ambs'
   \<Longrightarrow> \<forall>a' \<in> set ambs'. \<exists>a \<in> set ambs. status a' = status a
         \<and> assignedEmergencyId a' = assignedEmergencyId a
         \<and> assignedPatientName a' = assignedPatientName a
         \<and> assignedHouseId a' = assignedHouseId a"
proof (induction ambs arbitrary: ambs')
  case Nil
  then show ?case by simp
next
  case (Cons a as)
  from Cons.prems obtain a1 as1 where
    m: "move_ambulance dt a = Some a1" and l: "move_loop dt as = Some as1" and r: "ambs' = a1 # as1"
    by (auto split: option.splits)
  from m have "status a1 = status a \<and> assignedEmergencyId a1 = assignedEmergencyId a
         \<and> assignedPatientName a1 = assignedPatientName a
         \<and> assignedHouseId a1 = assignedHouseId a"
    by (auto simp: move_ambulance_def Let_def split: if_splits)
  with Cons.IH [OF l] show ?case unfolding r by auto
qed

lemma update_ambulance_fields:
  assumes u: "update_ambulance startX startY blockSize blocksX blocksY duration dt a hc = Some (a', hc')"
    and h: "holds_emergency a'"
  shows "holds_emergency a \<and> assignedEmergencyId a' = assignedEmergencyId a
         \<and> assignedPatientName a' = assignedPatientName a
         \<and> assignedHouseId a' = assignedHouseId a"
proof -
  consider "status a = IDLE" | "status a = TO_SCENE" | "status a = ON_SCENE" | "status a = RETURNING"
    by (cases "status a") auto
  then show ?thesis
  proof cases
    case 1
    with u h show ?thesis by (auto simp: update_ambulance_def)
  next
    case 2
    with u h show ?thesis
      by (auto simp: update_ambulance_def holds_emergency_def Let_def split: if_splits)
  next
    case 3
    with u h show ?thesis
      by (auto simp: update_ambulance_def holds_emergency_def Let_def
          split: if_splits option.splits)
  next
    case 4
    with u h show ?thesis
      by (auto simp: update_ambulance_def holds_emergency_def Let_def split: if_splits)
  qed
qed

lemma update_loop_fields:
  "update_loop startX startY blockSize blocksX blocksY duration dt ambs hc = Some (ambs', hc')
   \<Longrightarrow> \<forall>a' \<in> set ambs'. holds_emergency a' \<longrightarrow>
         (\<exists>a \<in> set ambs. holds_emergency a
            \<and> assignedEmergencyId a' = assignedEmergencyId a
            \<and> assignedPatientName a' = assignedPatientName a
            \<and> assignedHouseId a' = assignedHouseId a)"
proof (induction ambs arbitrary: hc ambs' hc')
  case Nil
  then show ?case by simp
next
  case (Cons a as)
  from Cons.prems obtain a1 hc1 as1 where
    u: "update_ambulance startX startY blockSize blocksX blocksY duration dt a hc = Some (a1, hc1)"
    and l: "update_loop startX startY blockSize blocksX blocksY duration dt as hc1 = Some (as1, hc')"
    and r: "ambs' = a1 # as1"
    by (auto split: option.splits)
  from update_ambulance_fields [OF u] Cons.IH [OF l] show ?case unfolding r by auto
qed

lemma carries_assign: "carries (assign a em pth) em"
  by (simp add: carries_def assign_def)

lemma dispatch_list_carries:
  "dispatch_list startX startY blockSize blocksX blocksY ems ambs backlog = Some (ambs', backlog')
   \<Longrightarrow> set ems \<subseteq> set seen \<Longrightarrow> set backlog \<subseteq> set seen
   \<Longrightarrow> \<forall>a \<in> set ambs. holds_emergency a \<longrightarrow> (\<exists>e \<in> set seen. carries a e)
   \<Longrightarrow> set backlog' \<subseteq> set seen
       \<and> (\<forall>a \<in> set ambs'. holds_emergency a \<longrightarrow> (\<exists>e \<in> set seen. carries a e))"
proof (induction ems arbitrary: ambs backlog)
  case Nil
  then show ?case by simp
next
  case (Cons em ems)
  from Cons.prems(1) obtain ambs1 backlog1 where
    b: "dispatch_body startX startY blockSize blocksX blocksY em ambs backlog = Some (ambs1, backlog1)"
    and l: "dispatch_list startX startY blockSize blocksX blocksY ems ambs1 backlog1 = Some (ambs', backlog')"
    by (auto split: option.splits)
  from Cons.prems(2) have em: "em \<in> set seen" and ems: "set ems \<subseteq> set seen" by simp_all
  have "set backlog1 \<subseteq> set seen
      \<and> (\<forall>a \<in> set ambs1. holds_emergency a \<longrightarrow> (\<exists>e \<in> set seen. carries a e))"
    using dispatch_body_cases [OF b]
  proof (elim disjE exE conjE)
    assume "ambs1 = ambs" "backlog1 = backlog @ [em]"
    with Cons.prems(3,4) em show ?thesis by simp
  next
    fix k pth
    assume k: "k < length ambs" and a: "ambs1 = ambs[k := assign (ambs ! k) em pth]"
      and q: "backlog1 = backlog"
    have "set ambs1 \<subseteq> insert (assign (ambs ! k) em pth) (set ambs)"
      unfolding a by (rule set_update_subset_insert)
    with Cons.prems(3,4) em carries_assign [of "ambs ! k" em pth] q show ?thesis
      by blast
  qed
  then show ?case using Cons.IH [OF l ems] by blast
qed

lemma reachable_log_inv: "reachable_log h seen \<Longrightarrow> log_inv h seen"
proof (induction rule: reachable_log.induct)
  case (l_ctor loc parkingPositions startAmbId onSceneDuration h)
  then have h: "queue h = []" "ambulances h = make_ambulances startAmbId parkingPositions"
    by (auto simp: Hospital_ctor_def split: if_splits)
  from make_ambulances_ok [of startAmbId parkingPositions]
  have "\<forall>a \<in> set (make_ambulances startAmbId parkingPositions). \<not> holds_emergency a"
    by (auto simp: holds_emergency_def)
  with h show ?case by (simp add: log_inv_def)
next
  case (l_receive h seen incoming now h')
  let ?e = "incoming\<lparr>em_id := nextEmergencyId h, createdAt := now\<rparr>"
  from l_receive.hyps(2) have h': "queue h' = queue h @ [?e]" "ambulances h' = ambulances h"
    "nextEmergencyId h' = nextEmergencyId h + 1"
    by (auto simp: receiveEmergency_def pq_push_def Let_def split: if_splits)
  from reachable_inv [OF reachable_log_reachable [OF l_receive.hyps(1)]]
  have n: "1 \<le> nextEmergencyId h"
    by (simp add: hosp_inv_def)
  from l_receive.IH have i: "set (queue h) \<subseteq> set seen"
    "\<forall>a \<in> set (ambulances h). holds_emergency a \<longrightarrow> (\<exists>e \<in> set seen. carries a e)"
    "\<forall>e \<in> set seen. 1 \<le> em_id e \<and> em_id e < nextEmergencyId h"
    "distinct (map em_id seen)"
    by (simp_all add: log_inv_def)
  from i(3) have "nextEmergencyId h \<notin> em_id ` set seen" by auto
  with i n show ?case
    unfolding log_inv_def h' by auto
next
  case (l_move h seen dt h')
  from l_move.hyps(2) obtain ambs where
    m: "move_loop dt (ambulances h) = Some ambs" and h': "h' = h\<lparr>ambulances := ambs\<rparr>"
    by (auto simp: move_ambulances_def split: option.splits)
  from move_loop_fields [OF m] l_move.IH show ?case
    unfolding log_inv_def h' holds_emergency_def carries_def
    by (simp, metis)
next
  case (l_dispatch h seen startX startY blockSize blocksX blocksY h')
  from dispatchVehicles_list [OF l_dispatch.hyps(2)] obtain ambs' backlog' where
    l: "dispatch_list startX startY blockSize blocksX blocksY (peekAllPending h) (ambulances h) []
       = Some (ambs', backlog')"
    and h': "h' = h\<lparr>ambulances := ambs', queue := backlog'\<rparr>"
    by auto
  from l_dispatch.IH have i: "set (peekAllPending h) \<subseteq> set seen" "set [] \<subseteq> set seen"
    "\<forall>a \<in> set (ambulances h). holds_emergency a \<longrightarrow> (\<exists>e \<in> set seen. carries a e)"
    by (simp_all add: log_inv_def peekAllPending_def set_pq_drain)
  from dispatch_list_carries [OF l i] l_dispatch.IH show ?case
    by (simp add: log_inv_def h')
next
  case (l_update h seen startX startY blockSize blocksX blocksY dt h')
  from l_update.hyps(2) obtain ambs hc where
    u: "update_loop startX startY blockSize blocksX blocksY (onSceneDurationSec h) dt
            (ambulances h) (handledCount h) = Some (ambs, hc)"
    and h': "h' = h\<lparr>ambulances := ambs, handledCount := hc\<rparr>"
    by (auto simp: updateAfterMovement_def split: option.splits)
  from update_loop_fields [OF u] l_update.IH show ?case
    unfolding log_inv_def h' carries_def
    by (simp, metis)
qed

section \<open>The concrete scenarios, evaluated\<close>

lemma ex_queue3_receive: "receiveEmergency (ex_em 2 0 0) 3 ex_queue2 = Some ex_queue3"
  by (simp add: receiveEmergency_def ex_queue2_def ex_queue3_def ex_hospital_def
      INT_MAX_def pq_push_def)

lemma ex_queue3_peek:
  "peekAllPending ex_queue3 = [(ex_em 1 0 0)\<lparr>em_id := 2, createdAt := 2\<rparr>,
       (ex_em 2 0 0)\<lparr>em_id := 3, createdAt := 3\<rparr>,
       (ex_em 3 0 0)\<lparr>em_id := 1, createdAt := 1\<rparr>]"
  by (simp add: peekAllPending_def ex_queue3_def ex_hospital_def ex_em_def
      pq_drain.simps pq_pop_def EmergencyCompare_def)

text \<open>Evaluating the path finder on concrete points.\<close>

lemma upto_0_3: "[0..3] = [0, 1, 2, 3::int]"
  by code_simp

lemma rnd_dyadic:
  "\<bar>m\<bar> < 16777216 \<Longrightarrow> k \<le> 149 \<Longrightarrow>
     rnd (real_of_int m / 2 ^ k) = Val (real_of_int m / 2 ^ k)"
proof -
  assume m: "\<bar>m\<bar> < 16777216" and k: "k \<le> 149"
  have p: "(2::real) powr (- real k) = 1 / 2 ^ k"
    by (simp add: powr_minus powr_realpow inverse_eq_divide)
  have f: "is_f32 (real_of_int m / 2 ^ k)"
    by (rule is_f32_I [of _ m "- int k"]) (use m k in \<open>simp_all add: p\<close>)
  have "(1::real) \<le> 2 ^ k" by simp
  then have "\<bar>real_of_int m\<bar> / 2 ^ k \<le> \<bar>real_of_int m\<bar> / 1"
    by (intro divide_left_mono) simp_all
  then have 1: "\<bar>real_of_int m / 2 ^ k\<bar> \<le> \<bar>real_of_int m\<bar>" by (simp add: abs_divide)
  from m have "\<bar>m\<bar> \<le> 16777216" by simp
  then have "real_of_int \<bar>m\<bar> \<le> of_int 16777216" by (simp only: of_int_le_iff)
  then have "\<bar>real_of_int m\<bar> \<le> FLT_MAX" by (simp add: FLT_MAX_def)
  with 1 have "\<bar>real_of_int m / 2 ^ k\<bar> \<le> FLT_MAX" by linarith
  with f show ?thesis by (rule rnd_exact)
qed

lemma rnd_m1 [simp]: "rnd (- 1) = Val (- 1)"
  using rnd_of_int [of "- 1"] by simp

lemma rnd_k1024:
  "\<bar>m\<bar> < 16777216 \<Longrightarrow> rnd (real_of_int (1024 * m)) = Val (real_of_int (1024 * m))"
proof -
  assume m: "\<bar>m\<bar> < 16777216"
  have f: "is_f32 (real_of_int (1024 * m))"
    by (rule is_f32_I [of _ m 10]) (use m in simp_all)
  from m have "\<bar>1024 * m\<bar> \<le> 17179869184" by simp
  then have "real_of_int \<bar>1024 * m\<bar> \<le> of_int 17179869184" by (simp only: of_int_le_iff)
  then have "\<bar>real_of_int (1024 * m)\<bar> \<le> FLT_MAX" by (simp add: FLT_MAX_def)
  with f show ?thesis by (rule rnd_exact)
qed

lemma rnd_lower:
  assumes c: "is_f32 c" and le: "c \<le> x" and m: "- FLT_MAX \<le> c"
  shows "rnd x = PInf \<or> (\<exists>r. rnd x = Val r \<and> c \<le> r)"
proof -
  from round32_ge [OF c le] m have "\<not> round32 x < - FLT_MAX" by linarith
  with round32_ge [OF c le] show ?thesis by (simp add: rnd_def Let_def)
qed

text \<open>A point 1073732608 or more to the right of the target is not closer than \<open>1e9f\<close>.\<close>

lemma hypot32_far:
  assumes a: "1073732608 \<le> a"
  shows "flt (hypot32 (Val a) (Val b)) (Val 1000000000) = False"
proof -
  let ?c = "1008806316530991104 :: real"
  have fc: "is_f32 ?c" by (rule is_f32_I [of _ 7 57]) simp_all
  have f9: "is_f32 1000000000" by (rule is_f32_I [of _ 1953125 9]) simp_all
  have m: "- FLT_MAX \<le> ?c" "- FLT_MAX \<le> 0" "- FLT_MAX \<le> 1000000000" by (simp_all add: FLT_MAX_def)
  from a have "1073732608 * 1073732608 \<le> a * a" by (intro mult_mono) simp_all
  then have "?c \<le> a * a" by simp
  from rnd_lower [OF fc this m(1)] consider "rnd (a * a) = PInf"
    | r1 where "rnd (a * a) = Val r1" "?c \<le> r1" by blast
  then have s: "fadd (rnd (a * a)) (rnd (b * b)) = PInf
      \<or> (\<exists>r3. fadd (rnd (a * a)) (rnd (b * b)) = Val r3 \<and> ?c \<le> r3)"
  proof cases
    case 1
    from rnd_lower [OF is_f32_0 _ m(2), of "b * b"] show ?thesis by (auto simp: 1)
  next
    case 2
    from rnd_lower [OF is_f32_0 _ m(2), of "b * b"] consider "rnd (b * b) = PInf"
      | r2 where "rnd (b * b) = Val r2" "0 \<le> r2" by auto
    then show ?thesis
    proof cases
      case 1
      then show ?thesis by (simp add: 2)
    next
      case b: 2
      from 2 b have "?c \<le> r1 + r2" by simp
      from rnd_lower [OF fc this m(1)] show ?thesis by (simp add: 2 b)
    qed
  qed
  from s show ?thesis
  proof
    assume "fadd (rnd (a * a)) (rnd (b * b)) = PInf"
    then show ?thesis by (simp add: hypot32_def)
  next
    assume "\<exists>r3. fadd (rnd (a * a)) (rnd (b * b)) = Val r3 \<and> ?c \<le> r3"
    then obtain r3 where r3: "fadd (rnd (a * a)) (rnd (b * b)) = Val r3" "?c \<le> r3" by blast
    from r3(2) have "1000000000\<^sup>2 \<le> r3" by simp
    then have "1000000000 \<le> sqrt r3" by (rule real_le_rsqrt)
    from rnd_lower [OF f9 this m(3)] r3 show ?thesis
      by (auto simp: hypot32_def)
  qed
qed

lemma flt_hypot32_0: "flt (hypot32 a b) (Val 0) = False"
  using hypot32_cases [of a b] by auto

lemma far_values:
  "rnd 1073741824 = Val 1073741824" "rnd 1073738752 = Val 1073738752"
  "rnd 1073735680 = Val 1073735680" "rnd 1073732608 = Val 1073732608"
  using rnd_k1024 [of 1048576] rnd_k1024 [of 1048573] rnd_k1024 [of 1048570]
    rnd_k1024 [of 1048567]
  by simp_all

lemma snap_far:
  "findNearestRoadPoint (pt 1073741824 0) (Val 0) (Val 0) (Val 3072) 3 3 = pt 1073741824 0"
  unfolding findNearestRoadPoint_def upto_0_3
  by (simp add: road_scan_step_def fsub_def float_of_int_def far_values hypot32_far)

lemma snap_origin: "findNearestRoadPoint (pt 0 0) (Val 0) (Val 0) (Val 3072) 3 3 = pt 0 0"
  unfolding findNearestRoadPoint_def upto_0_3
  by (simp add: road_scan_step_def fsub_def float_of_int_def Let_def hypot32_whole whole_def
      flt_hypot32_0)

text \<open>
  From the cursor (1073741824, 0) towards (0, 0) in steps of 3072: every cursor is
  \<open>1024 + 3072 * k\<close> for some \<open>k\<close> from -1 to 349525, a binary32 number that the step
  reaches exactly, and none of them is within 1 of 0.
\<close>

lemma far_loop:
  "path_loop (Val 3072) (pt 0 0) (pt 1073741824 0) [pt 1073741824 0] = None"
proof (cases "path_loop (Val 3072) (pt 0 0) (pt 1073741824 0) [pt 1073741824 0]")
  case None
  then show ?thesis .
next
  case (Some r)
  let ?I = "\<lambda>bs e c. bs = Val 3072 \<and> e = pt 0 0
      \<and> (\<exists>k::int. - 1 \<le> k \<and> k \<le> 349525 \<and> c = pt (real_of_int (1024 * (1 + 3 * k))) 0)"
  have inv: "(apart (vx c) (vx e) \<or> apart (vy c) (vy e)) \<and> ?I bs e (path_step bs e c)"
    if "?I bs e c" for bs e c
  proof -
    from that obtain k :: int where bs: "bs = Val 3072" and e: "e = pt 0 0"
      and k: "- 1 \<le> k" "k \<le> 349525" and c: "c = pt (real_of_int (1024 * (1 + 3 * k))) 0"
      by blast
    let ?v = "real_of_int (1024 * (1 + 3 * k))"
    from k have "\<bar>1 + 3 * k\<bar> < 16777216" by simp
    from rnd_k1024 [OF this] have rv: "rnd ?v = Val ?v" .
    have big: "1 < \<bar>?v\<bar>"
    proof -
      have "1 < \<bar>1024 * (1 + 3 * k)\<bar>"
      proof (cases "0 \<le> k")
        case True
        then have "1024 \<le> 1024 * (1 + 3 * k)" by simp
        then show ?thesis by simp
      next
        case False
        with k have "k = - 1" by simp
        then show ?thesis by simp
      qed
      then have "real_of_int 1 < of_int \<bar>1024 * (1 + 3 * k)\<bar>" by (simp only: of_int_less_iff)
      then show ?thesis by simp
    qed
    have ap: "apart (Val ?v) (Val 0)"
      unfolding apart_def fsub_def using big
      by (simp only: fneg.simps fadd.simps minus_zero add_0_right rv fabs.simps flt.simps)
    from ap have far: "apart (vx c) (vx e) \<or> apart (vy c) (vy e)"
      by (simp only: c e Vector2.sel simp_thms)
    show ?thesis
    proof (cases "k = - 1")
      case True
      then have v: "?v = - 2048" by simp
      have "path_step bs e c = pt 1024 0"
        unfolding c e bs path_step_def v by (simp add: apart_def fsub_def)
      then have "(- 1::int) \<le> 0 \<and> (0::int) \<le> 349525
          \<and> path_step bs e c = pt (real_of_int (1024 * (1 + 3 * 0))) 0" by simp
      then have "\<exists>k::int. - 1 \<le> k \<and> k \<le> 349525
          \<and> path_step bs e c = pt (real_of_int (1024 * (1 + 3 * k))) 0" by (rule exI)
      then have "?I bs e (path_step bs e c)" using bs e by simp
      with far show ?thesis by (rule conjI)
    next
      case False
      with k have k0: "0 \<le> k" by simp
      then have "0 \<le> 1024 * (1 + 3 * k)" by simp
      then have "real_of_int 0 \<le> ?v" by (simp only: of_int_le_iff)
      then have pos: "\<not> ?v < 0" by simp
      from k k0 have "\<bar>1 + 3 * (k - 1)\<bar> < 16777216" by simp
      from rnd_k1024 [OF this] have r1: "rnd (real_of_int (1024 * (1 + 3 * (k - 1))))
          = Val (real_of_int (1024 * (1 + 3 * (k - 1))))" .
      have "?v + - 3072 = real_of_int (1024 * (1 + 3 * (k - 1)))" by simp
      then have st: "fadd (Val ?v) (fneg (Val 3072)) = Val (real_of_int (1024 * (1 + 3 * (k - 1))))"
        using r1 by (simp only: fneg.simps fadd.simps)
      have "path_step bs e c = pt (real_of_int (1024 * (1 + 3 * (k - 1)))) 0"
        unfolding c e bs path_step_def using ap pos st
        by (simp only: Vector2.sel if_True if_False flt.simps)
      moreover from k k0 have "- 1 \<le> k - 1" "k - 1 \<le> 349525" by simp_all
      ultimately have "?I bs e (path_step bs e c)" using bs e by blast
      with far show ?thesis by (rule conjI)
    qed
  qed
  have "?I (Val 3072) (pt 0 0) (pt 1073741824 0)"
  proof -
    have "(- 1::int) \<le> 349525 \<and> (349525::int) \<le> 349525
        \<and> pt 1073741824 0 = pt (real_of_int (1024 * (1 + 3 * 349525))) 0" by simp
    then have "\<exists>k::int. - 1 \<le> k \<and> k \<le> 349525
        \<and> pt 1073741824 0 = pt (real_of_int (1024 * (1 + 3 * k))) 0" by (rule exI)
    then show ?thesis by simp
  qed
  with path_loop_never [of ?I, OF inv Some] show ?thesis by simp
qed

lemma dyadic_values:
  "rnd (75 / 32) = Val (75 / 32)" "rnd (2955 / 32) = Val (2955 / 32)"
  "rnd (255 / 64) = Val (255 / 64)"
  using rnd_dyadic [of 75 5] rnd_dyadic [of 2955 5] rnd_dyadic [of 255 6]
  by simp_all





lemma ex_s0_ctor: "Hospital_ctor (pt 450 0) [pt 100 90, pt 300 90] 1 (Val 4) = Some ex_s0"
  by (simp add: Hospital_ctor_def ex_s0_def ex_amb_def INT_MAX_def)

lemma ex_s3_receive:
  "receiveEmergency (ex_em 2 102 92) 1 ex_s0 = Some (ex_s0\<lparr>queue := [ex_e1], nextEmergencyId := 2\<rparr>)"
  "receiveEmergency (ex_em 1 310 100) 2 (ex_s0\<lparr>queue := [ex_e1], nextEmergencyId := 2\<rparr>)
     = Some (ex_s0\<lparr>queue := [ex_e1, ex_e2], nextEmergencyId := 3\<rparr>)"
  "receiveEmergency (ex_em 3 500 300) 3 (ex_s0\<lparr>queue := [ex_e1, ex_e2], nextEmergencyId := 3\<rparr>)
     = Some ex_s3"
  by (simp_all add: receiveEmergency_def ex_s0_def ex_s3_def ex_e1_def ex_e2_def ex_e3_def
      INT_MAX_def pq_push_def)

lemma ex_s3_reachable: "reachable ex_s3"
  by (rule r_receive [OF r_receive [OF r_receive [OF r_ctor [OF ex_s0_ctor] ex_s3_receive(1)]
        ex_s3_receive(2)] ex_s3_receive(3)])

lemma ex_snaps:
  "findNearestRoadPoint (pt 100 90) (Val 100) (Val 100) (Val 200) 3 3 = pt 100 100"
  "findNearestRoadPoint (pt 102 92) (Val 100) (Val 100) (Val 200) 3 3 = pt 100 100"
  "findNearestRoadPoint (pt 300 90) (Val 100) (Val 100) (Val 200) 3 3 = pt 300 100"
  "findNearestRoadPoint (pt 310 100) (Val 100) (Val 100) (Val 200) 3 3 = pt 300 100"
  unfolding findNearestRoadPoint_def upto_0_3
  by (simp_all add: road_scan_step_def f32_eval)

lemma ex_paths:
  "findPathOnRoads (pt 100 90) (pt 102 92) (Val 100) (Val 100) (Val 200) 3 3
     = Some [pt 100 100, pt 102 92]"
  "findPathOnRoads (pt 300 90) (pt 310 100) (Val 100) (Val 100) (Val 200) 3 3
     = Some [pt 300 100, pt 310 100]"
  "findPathOnRoads (pt 100 90) (pt 100 90) (Val 100) (Val 100) (Val 200) 3 3
     = Some [pt 100 100, pt 100 90]"
  by (simp_all add: findPathOnRoads_def ex_snaps path_loop_aligned apart_def f32_eval)

lemma ex_tops:
  "pq_top [ex_e1, ex_e2, ex_e3] = ex_e2" "pq_pop [ex_e1, ex_e2, ex_e3] = [ex_e1, ex_e3]"
  "pq_top [ex_e1, ex_e3] = ex_e1" "pq_pop [ex_e1, ex_e3] = [ex_e3]"
  "pq_top [ex_e3] = ex_e3" "pq_pop [ex_e3] = []"
  by (simp_all add: pq_pop_def ex_e1_def ex_e2_def ex_e3_def ex_em_def EmergencyCompare_def)

lemma ex_nearest:
  "findNearestAvailableAmbulance [ex_amb 1 (pt 100 90), ex_amb 2 (pt 300 90)]
     (pt 310 100) = 1"
  "findNearestAvailableAmbulance
     [ex_amb 1 (pt 100 90),
      assign (ex_amb 2 (pt 300 90)) ex_e2 [pt 300 100, pt 310 100]]
     (pt 102 92) = 0"
  "findNearestAvailableAmbulance
     [assign (ex_amb 1 (pt 100 90)) ex_e1 [pt 100 100, pt 102 92],
      assign (ex_amb 2 (pt 300 90)) ex_e2 [pt 300 100, pt 310 100]]
     (pt 500 300) = - 1"
  by (simp_all add: findNearestAvailableAmbulance_def nearest_scan.simps ex_amb_def assign_def
      FLT_MAX_def f32_eval)

lemma ex_locs:
  "location ex_e1 = pt 102 92" "location ex_e2 = pt 310 100"
  "location ex_e3 = pt 500 300"
  by (simp_all add: ex_e1_def ex_e2_def ex_e3_def ex_em_def)

lemma ex_pos: "pos (ex_amb i p) = p"
  by (simp add: ex_amb_def)

lemma ex_bodies:
  "dispatch_body (Val 100) (Val 100) (Val 200) 3 3 ex_e2
     [ex_amb 1 (pt 100 90), ex_amb 2 (pt 300 90)] []
   = Some ([ex_amb 1 (pt 100 90),
            assign (ex_amb 2 (pt 300 90)) ex_e2 [pt 300 100, pt 310 100]], [])"
  "dispatch_body (Val 100) (Val 100) (Val 200) 3 3 ex_e1
     [ex_amb 1 (pt 100 90),
      assign (ex_amb 2 (pt 300 90)) ex_e2 [pt 300 100, pt 310 100]] []
   = Some ([assign (ex_amb 1 (pt 100 90)) ex_e1 [pt 100 100, pt 102 92],
            assign (ex_amb 2 (pt 300 90)) ex_e2 [pt 300 100, pt 310 100]], [])"
  "dispatch_body (Val 100) (Val 100) (Val 200) 3 3 ex_e3
     [assign (ex_amb 1 (pt 100 90)) ex_e1 [pt 100 100, pt 102 92],
      assign (ex_amb 2 (pt 300 90)) ex_e2 [pt 300 100, pt 310 100]] []
   = Some ([assign (ex_amb 1 (pt 100 90)) ex_e1 [pt 100 100, pt 102 92],
            assign (ex_amb 2 (pt 300 90)) ex_e2 [pt 300 100, pt 310 100]], [ex_e3])"
  by (simp_all add: dispatch_body_def ex_locs ex_nearest ex_pos ex_paths)

lemma ex_loop:
  "dispatch_loop (Val 100) (Val 100) (Val 200) 3 3 [ex_e1, ex_e2, ex_e3]
     [ex_amb 1 (pt 100 90), ex_amb 2 (pt 300 90)] []
   = Some ([assign (ex_amb 1 (pt 100 90)) ex_e1 [pt 100 100, pt 102 92],
            assign (ex_amb 2 (pt 300 90)) ex_e2 [pt 300 100, pt 310 100]], [ex_e3])"
  by (simp add: dispatch_loop.simps ex_tops ex_bodies del: pq_top.simps pq_best.simps)

lemma ex_s4_dispatch: "dispatchVehicles (Val 100) (Val 100) (Val 200) 3 3 ex_s3 = Some ex_s4"
  by (simp add: dispatchVehicles_def ex_s3_def ex_s0_def ex_s4_def ex_loop pq_push_def)

lemma ex_s4_alt: "ex_s4 = ex_s3\<lparr>ambulances := [ex_a1, ex_a2], queue := [ex_e3]\<rparr>"
  by (simp add: ex_s4_def ex_a1_def ex_a2_def)

lemma ex_update1:
  "update_ambulance (Val 100) (Val 100) (Val 200) 3 3 (Val 4) (Val (1 / 64)) ex_a1 0
     = Some (ex_a1\<lparr>currentPathIndex := 2, status := ON_SCENE, onSceneTimer := Val 4\<rparr>, 0)"
  "update_ambulance (Val 100) (Val 100) (Val 200) 3 3 (Val 4) (Val (1 / 64)) ex_a2 0 = Some (ex_a2, 0)"
  by (simp_all add: update_ambulance_def ex_a1_def ex_a2_def assign_def ex_amb_def
      f32_eval)

lemma ex_s5_update: "updateAfterMovement (Val 100) (Val 100) (Val 200) 3 3 (Val (1 / 64)) ex_s4 = Some ex_s5"
  by (simp add: updateAfterMovement_def ex_s4_alt ex_s5_def ex_s3_def ex_s0_def ex_update1)

lemma ex_update2:
  "update_ambulance (Val 100) (Val 100) (Val 200) 3 3 (Val 4) (Val 5)
     (ex_a1\<lparr>currentPathIndex := 2, status := ON_SCENE, onSceneTimer := Val 4\<rparr>) 0
     = Some (ex_a1\<lparr>currentPathIndex := 0, status := RETURNING, onSceneTimer := Val (- 1),
              path := [pt 100 100, pt 100 90], assignedEmergencyId := - 1,
              assignedPatientName := [], assignedHouseId := - 1\<rparr>, 1)"
  "update_ambulance (Val 100) (Val 100) (Val 200) 3 3 (Val 4) (Val 5) ex_a2 1 = Some (ex_a2, 1)"
  by (simp_all add: update_ambulance_def ex_a1_def ex_a2_def assign_def ex_amb_def
      f32_eval ex_paths)

lemma ex_s6_update: "updateAfterMovement (Val 100) (Val 100) (Val 200) 3 3 (Val 5) ex_s5 = Some ex_s6"
  by (simp add: updateAfterMovement_def ex_s4_alt ex_s5_def ex_s6_def ex_s3_def ex_s0_def
      ex_update2)

lemma ex_s6_reachable: "reachable ex_s6"
  by (rule r_update [OF r_update [OF r_dispatch [OF ex_s3_reachable ex_s4_dispatch]
        ex_s5_update] ex_s6_update])

lemma ex_s6_amb:
  "status (ambulances ex_s6 ! 0) = RETURNING" "assignedEmergencyId (ambulances ex_s6 ! 0) = - 1"
  "assignedPatientName (ambulances ex_s6 ! 0) = []" "assignedHouseId (ambulances ex_s6 ! 0) = - 1"
  by (simp_all add: ex_s6_def)

lemma ex_move_idle: "move_ambulances (Val (1 / 64)) ex_s3 = Some ex_s3"
  by (simp add: move_ambulances_def move_ambulance_def ex_s3_def ex_s0_def ex_amb_def f32_eval)

lemma ex_tick: "tick (Val 100) (Val 100) (Val 200) 3 3 (Val (1 / 64)) ex_s3 = Some ex_s5"
  by (simp add: tick_def ex_move_idle ex_s4_dispatch ex_s5_update)

lemma ex_s5_reachable: "reachable ex_s5"
  by (rule r_update [OF r_dispatch [OF ex_s3_reachable ex_s4_dispatch] ex_s5_update])

lemma ex_s5_amb:
  "status (ambulances ex_s5 ! 0) = ON_SCENE" "assignedEmergencyId (ambulances ex_s5 ! 0) = 1"
  "nextEmergencyId ex_s5 = 4" "ambulances ex_s5 ! 0 \<in> set (ambulances ex_s5)"
  "busy (ambulances ex_s5 ! 0)"
  by (simp_all add: ex_s5_def ex_s4_def ex_s3_def ex_a1_def assign_def ex_e1_def)

lemma ex_return:
  "update_ambulance (Val 100) (Val 100) (Val 200) 3 3 (Val 4) (Val (1 / 64)) (ambulances ex_s6 ! 0) 1
     = Some ((ambulances ex_s6 ! 0)\<lparr>path := [], status := IDLE, busy := False\<rparr>, 1)"
  by (simp add: update_ambulance_def ex_s6_def ex_a1_def assign_def ex_amb_def f32_eval)

lemma ex_move:
  "move_ambulance (Val (1 / 64)) ex_a2 = Some (ex_a2\<lparr>pos := pt 300 (2955 / 32)\<rparr>)"
  by (simp add: move_ambulance_def ex_a2_def assign_def ex_amb_def f32_eval dyadic_values)

lemma ex_s6_alt: "ex_s6 = ex_s5\<lparr>ambulances := [ex_a1_returning, ex_a2], handledCount := 1\<rparr>"
  by (simp add: ex_s6_def ex_a1_returning_def)

lemma ex_s7_receive: "receiveEmergency (ex_em 3 110 95) 7 ex_s6 = Some ex_s7"
  by (simp add: receiveEmergency_def ex_s7_def ex_s6_def ex_s5_def ex_s4_def ex_s3_def ex_s0_def
      ex_e4_def INT_MAX_def pq_push_def)

lemma ex_s7_reachable: "reachable ex_s7"
  by (rule r_receive [OF ex_s6_reachable ex_s7_receive])

lemma ex_s7_fields:
  "queue ex_s7 = [ex_e3, ex_e4]" "ambulances ex_s7 = [ex_a1_returning, ex_a2]"
  "onSceneDurationSec ex_s7 = Val 4" "handledCount ex_s7 = 1"
  by (simp_all add: ex_s7_def ex_s6_alt ex_s5_def ex_s4_def ex_s3_def ex_s0_def)

lemma ex_tops2:
  "pq_top [ex_e3, ex_e4] = ex_e3" "pq_pop [ex_e3, ex_e4] = [ex_e4]"
  "pq_top [ex_e4] = ex_e4" "pq_pop [ex_e4] = []"
  by (simp_all add: pq_pop_def ex_e3_def ex_e4_def ex_em_def EmergencyCompare_def)

lemma ex_busy_fleet: "\<forall>a \<in> set [ex_a1_returning, ex_a2]. \<not> eligible a"
  by (simp add: eligible_def ex_a1_returning_def ex_a1_def ex_a2_def assign_def)

lemma ex_s7_dispatch: "dispatchVehicles (Val 100) (Val 100) (Val 200) 3 3 ex_s7 = Some ex_s7"
proof -
  have "dispatch_loop (Val 100) (Val 100) (Val 200) 3 3 [ex_e3, ex_e4] [ex_a1_returning, ex_a2] []
      = Some ([ex_a1_returning, ex_a2], [ex_e3, ex_e4])"
    by (simp add: dispatch_loop.simps ex_tops2 dispatch_body_def
        findNearest_none [OF ex_busy_fleet] del: pq_top.simps pq_best.simps)
  then show ?thesis
    by (simp add: dispatchVehicles_def ex_s7_fields pq_push_def)
qed

lemma ex_update3:
  "update_ambulance (Val 100) (Val 100) (Val 200) 3 3 (Val 4) (Val (1 / 64)) ex_a1_returning 1 = Some (ex_a1_idle, 1)"
  "update_ambulance (Val 100) (Val 100) (Val 200) 3 3 (Val 4) (Val (1 / 64)) ex_a2 1 = Some (ex_a2, 1)"
  by (simp_all add: update_ambulance_def ex_a1_returning_def ex_a1_idle_def ex_a1_def ex_a2_def
      assign_def ex_amb_def Let_def f32_eval)

lemma ex_s9_update: "updateAfterMovement (Val 100) (Val 100) (Val 200) 3 3 (Val (1 / 64)) ex_s7 = Some ex_s9"
  by (simp add: updateAfterMovement_def ex_s7_fields ex_update3 ex_s9_def)

lemma ex_snaps2:
  "findNearestRoadPoint (pt 500 300) (Val 100) (Val 100) (Val 200) 3 3 = pt 500 300"
  unfolding findNearestRoadPoint_def upto_0_3
  by (simp add: road_scan_step_def f32_eval)

lemma ex_path2:
  "findPathOnRoads (pt 100 90) (pt 500 300) (Val 100) (Val 100) (Val 200) 3 3
     = Some [pt 100 100, pt 300 100, pt 500 100, pt 500 300, pt 500 300]"
  by (simp add: findPathOnRoads_def ex_snaps ex_snaps2 path_loop.simps path_step_def apart_def f32_eval Let_def)

lemma ex_nearest2:
  "findNearestAvailableAmbulance [ex_a1_idle, ex_a2] (pt 500 300) = 0"
  by (simp add: findNearestAvailableAmbulance_def nearest_scan.simps ex_a1_idle_def
      ex_a1_returning_def ex_a1_def ex_a2_def ex_amb_def assign_def FLT_MAX_def f32_eval)

lemma ex_busy_fleet2:
  "\<forall>a \<in> set [assign ex_a1_idle ex_e3
          [pt 100 100, pt 300 100, pt 500 100, pt 500 300, pt 500 300],
        ex_a2]. \<not> eligible a"
  by (simp add: eligible_def ex_a2_def assign_def)

lemma ex_s10_dispatch: "dispatchVehicles (Val 100) (Val 100) (Val 200) 3 3 ex_s9 = Some ex_s10"
proof -
  have p: "pos ex_a1_idle = pt 100 90"
    by (simp add: ex_a1_idle_def ex_a1_returning_def ex_a1_def assign_def ex_amb_def)
  have "dispatch_loop (Val 100) (Val 100) (Val 200) 3 3 [ex_e3, ex_e4] [ex_a1_idle, ex_a2] []
      = Some ([assign ex_a1_idle ex_e3
          [pt 100 100, pt 300 100, pt 500 100, pt 500 300, pt 500 300],
        ex_a2], [ex_e4])"
    by (simp add: dispatch_loop.simps ex_tops2 dispatch_body_def ex_locs ex_nearest2 p ex_path2
        findNearest_none [OF ex_busy_fleet2] del: pq_top.simps pq_best.simps)
  then show ?thesis
    by (simp add: dispatchVehicles_def ex_s9_def ex_s7_fields ex_s10_def pq_push_def)
qed

lemma ex_s9_reachable: "reachable ex_s9"
  by (rule r_update [OF ex_s7_reachable ex_s9_update])

lemma ex_s3_peek: "peekAllPending ex_s3 = [ex_e2] @ ex_e1 # [ex_e3]"
  by (simp add: peekAllPending_def ex_s3_def ex_s0_def pq_drain.simps ex_tops
      del: pq_top.simps pq_best.simps)

lemma ex_s3_first_turn:
  "dispatch_list (Val 100) (Val 100) (Val 200) 3 3 [ex_e2] (ambulances ex_s3) []
     = Some ([ex_amb 1 (pt 100 90), ex_a2], [])"
  by (simp add: ex_s3_def ex_s0_def ex_bodies ex_a2_def)

lemma ex_s3_second_turn:
  "findNearestAvailableAmbulance [ex_amb 1 (pt 100 90), ex_a2] (location ex_e1) = int 0"
  by (simp add: ex_nearest ex_locs ex_a2_def)

lemma ex_s9_peek: "peekAllPending ex_s9 = [ex_e3, ex_e4]"
  by (simp add: peekAllPending_def ex_s9_def ex_s7_fields pq_drain.simps ex_tops2
      del: pq_top.simps pq_best.simps)

lemma ex_s9_facts:
  "distinct (map rank (queue ex_s9))" "queue ex_s9 \<noteq> []"
  "ambulances ex_s9 ! 0 \<in> set (ambulances ex_s9)" "eligible (ambulances ex_s9 ! 0)"
  "measured (pos (ambulances ex_s9 ! 0)) (location (hd (peekAllPending ex_s9))) < FLT_MAX"
  "status (ambulances ex_s9 ! 0) = IDLE"
  by (simp_all add: ex_s9_peek)
     (simp_all add: ex_s9_def ex_s7_fields rank_def ex_e3_def ex_e4_def ex_em_def eligible_def
       ex_a1_idle_def ex_a1_returning_def ex_a1_def assign_def ex_amb_def measured_def dist32_def
       FLT_MAX_def f32_eval)

lemma ex_s10_facts:
  "queue ex_s10 = [ex_e4]" "ex_e4 \<in> set (queue ex_s10)" "ex_e4 \<in> set (queue ex_s7)"
  "status (ambulances ex_s7 ! 0) = RETURNING"
  by (simp_all add: ex_s10_def ex_s7_fields ex_a1_returning_def)


text \<open>Rounding a number whose binary exponent is known.\<close>

lemma p2_quot: "(2::real) powr of_int (int p - int q) = 2 ^ p / 2 ^ q"
proof -
  have "(2::real) powr of_int (int p - int q) = 2 powr (real p - real q)" by simp
  also have "\<dots> = 2 powr real p / 2 powr real q" by (rule powr_diff)
  finally show ?thesis by (simp add: powr_realpow)
qed

lemma round32_eval:
  assumes lo: "2 ^ p / 2 ^ q \<le> \<bar>x\<bar>" and hi: "\<bar>x\<bar> < 2 * 2 ^ p / 2 ^ q" and q: "q \<le> p + 126"
  shows "round32 x = of_int (round_even (x * 2 ^ (q + 23) / 2 ^ p)) * 2 ^ p / 2 ^ (q + 23)"
proof -
  let ?e = "int p - int q"
  have 1: "2 powr of_int ?e \<le> \<bar>x\<bar>" using lo by (simp only: p2_quot)
  have "?e + 1 = int (Suc p) - int q" by simp
  then have "(2::real) powr of_int (?e + 1) = 2 powr of_int (int (Suc p) - int q)"
    by (simp only:)
  also have "\<dots> = 2 ^ Suc p / 2 ^ q" by (simp only: p2_quot)
  also have "\<dots> = 2 * 2 ^ p / 2 ^ q" by simp
  finally have 2: "\<bar>x\<bar> < 2 powr of_int (?e + 1)" using hi by (simp only:)
  from q have 3: "- 126 \<le> ?e" by simp
  from expo32_eq [OF 1 2 3] have e: "expo32 x = ?e" .
  have "0 < (2::real) powr of_int ?e" by simp
  with 1 have nz: "x \<noteq> 0" by auto
  have "?e - 23 = int p - int (q + 23)" by simp
  then have u: "ulp32 x = 2 ^ p / 2 ^ (q + 23)"
    unfolding ulp32_def e by (simp only: p2_quot)
  from nz show ?thesis by (simp add: round32_def u)
qed

lemma rnd_near_4:
  "rnd (4294967295 / 1073741824) = Val 4" "rnd (4294967297 / 1073741824) = Val 4"
  "rnd (- (4294967295 / 1073741824)) = Val (- 4)" "rnd (- (4294967297 / 1073741824)) = Val (- 4)"
proof -
  have 1: "round32 (4294967295 / 1073741824) = 4"
    using round32_eval [of 1 0 "4294967295 / 1073741824"]
    by (simp add: round_even_def)
  have 2: "round32 (4294967297 / 1073741824) = 4"
    using round32_eval [of 2 0 "4294967297 / 1073741824"]
    by (simp add: round_even_def)
  from 1 show "rnd (4294967295 / 1073741824) = Val 4" by (simp add: rnd_def FLT_MAX_def)
  from 2 show "rnd (4294967297 / 1073741824) = Val 4" by (simp add: rnd_def FLT_MAX_def)
  from 1 round32_minus [of "4294967295 / 1073741824"]
  show "rnd (- (4294967295 / 1073741824)) = Val (- 4)" by (simp add: rnd_def FLT_MAX_def)
  from 2 round32_minus [of "4294967297 / 1073741824"]
  show "rnd (- (4294967297 / 1073741824)) = Val (- 4)" by (simp add: rnd_def FLT_MAX_def)
qed

lemma tiny_values:
  "rnd (1 / 1073741824) = Val (1 / 1073741824)"
  "hypot32 (Val (1 / 1073741824)) (Val 0) = Val (1 / 1073741824)"
proof -
  show 1: "rnd (1 / 1073741824) = Val (1 / 1073741824)"
    using rnd_dyadic [of 1 30] by simp
  have 2: "rnd (1 / 1152921504606846976) = Val (1 / 1152921504606846976)"
    using rnd_dyadic [of 1 60] by simp
  have 3: "sqrt (1 / 1152921504606846976) = 1 / 1073741824"
    by (rule real_sqrt_unique) (simp_all add: power2_eq_square)
  show "hypot32 (Val (1 / 1073741824)) (Val 0) = Val (1 / 1073741824)"
    by (simp add: hypot32_def 1 2 3)
qed


text \<open>The two scenarios around the emergency at \<open>(2^-30, 0)\<close>.\<close>

lemma upto_0_0: "[0..0] = [0::int]"
  by code_simp

lemma cx_snaps:
  "findNearestRoadPoint (pt (- 4) 0) (Val 0) (Val 0) (Val 100) 0 0 = pt 0 0"
  "findNearestRoadPoint (pt 4 0) (Val 0) (Val 0) (Val 100) 0 0 = pt 0 0"
  "findNearestRoadPoint (pt (1 / 1073741824) 0) (Val 0) (Val 0) (Val 100) 0 0 = pt 0 0"
  unfolding findNearestRoadPoint_def upto_0_0
  by (simp_all add: road_scan_step_def f32_eval tiny_values)

lemma cx_paths:
  "findPathOnRoads (pt (- 4) 0) (pt (1 / 1073741824) 0) (Val 0) (Val 0) (Val 100) 0 0
     = Some [pt 0 0, pt (1 / 1073741824) 0]"
  "findPathOnRoads (pt 4 0) (pt (1 / 1073741824) 0) (Val 0) (Val 0) (Val 100) 0 0
     = Some [pt 0 0, pt (1 / 1073741824) 0]"
  by (simp_all add: findPathOnRoads_def cx_snaps path_loop_aligned)

lemma cx_nearest:
  "findNearestAvailableAmbulance [ex_amb 1 (pt (- 4) 0), ex_amb 2 (pt 4 0)]
     (pt (1 / 1073741824) 0) = 0"
  "findNearestAvailableAmbulance [ex_amb 1 (pt 4 0)] (pt (1 / 1073741824) 0) = 0"
  by (simp_all add: findNearestAvailableAmbulance_def nearest_scan.simps ex_amb_def
      FLT_MAX_def f32_eval rnd_near_4)

lemma cx_ctor:
  "Hospital_ctor (pt 0 0) [pt (- 4) 0, pt 4 0] 1 (Val 4) = Some cx_s0"
  "Hospital_ctor (pt 0 0) [pt 4 0] 1 (Val 4) = Some cy_s0"
  by (simp_all add: Hospital_ctor_def cx_s0_def cy_s0_def ex_amb_def INT_MAX_def)

lemma cx_receive:
  "receiveEmergency (ex_em 1 (1 / 1073741824) 0) 1 cx_s0 = Some cx_s1"
  "receiveEmergency (ex_em 1 (1 / 1073741824) 0) 1 cy_s0 = Some cy_s1"
  by (simp_all add: receiveEmergency_def cx_s0_def cx_s1_def cy_s0_def cy_s1_def cx_e_def
      INT_MAX_def pq_push_def)

lemma cx_reachable: "reachable cx_s1" "reachable cy_s1"
  by (rule r_receive [OF r_ctor [OF cx_ctor(1)] cx_receive(1)],
      rule r_receive [OF r_ctor [OF cx_ctor(2)] cx_receive(2)])

lemma cx_loc: "location cx_e = pt (1 / 1073741824) 0"
  by (simp add: cx_e_def ex_em_def)

lemma cx_dispatch:
  "dispatchVehicles (Val 0) (Val 0) (Val 100) 0 0 cx_s1 = Some cx_s2"
  "dispatchVehicles (Val 0) (Val 0) (Val 100) 0 0 cy_s1 = Some cy_s2"
  by (simp_all add: dispatchVehicles_def cx_s1_def cx_s0_def cx_s2_def cy_s1_def cy_s0_def
      cy_s2_def dispatch_loop.simps pq_pop_def dispatch_body_def cx_loc cx_nearest ex_pos
      cx_paths pq_push_def)

lemma cy_update:
  "updateAfterMovement (Val 0) (Val 0) (Val 100) 0 0 (Val (1 / 64)) cy_s2 = Some cy_s2"
  by (simp add: updateAfterMovement_def cy_s2_def cy_s1_def cy_s0_def update_ambulance_def
      assign_def ex_amb_def cx_loc f32_eval rnd_near_4)

lemma cx_euclid:
  "euclid (pt 4 0) (pt (1 / 1073741824) 0) = Some (4294967295 / 1073741824)"
  "euclid (pt (- 4) 0) (pt (1 / 1073741824) 0) = Some (4294967297 / 1073741824)"
  "euclid (pt (1 / 1073741824) 0) (pt 4 0) = Some (4294967295 / 1073741824)"
proof -
  have a: "sqrt ((4294967295 / 1073741824)\<^sup>2) = 4294967295 / 1073741824"
    by simp
  have b: "sqrt ((4294967297 / 1073741824)\<^sup>2) = 4294967297 / 1073741824"
    by simp
  have "(4 - 1 / 1073741824 :: real) = 4294967295 / 1073741824"
    "(- 4 - 1 / 1073741824 :: real) = - (4294967297 / 1073741824)"
    "(1 / 1073741824 - 4 :: real) = - (4294967295 / 1073741824)" by simp_all
  then show "euclid (pt 4 0) (pt (1 / 1073741824) 0) = Some (4294967295 / 1073741824)"
    "euclid (pt (- 4) 0) (pt (1 / 1073741824) 0) = Some (4294967297 / 1073741824)"
    "euclid (pt (1 / 1073741824) 0) (pt 4 0) = Some (4294967295 / 1073741824)"
    using a b by (simp_all only: euclid.simps power2_minus zero_power2 add_0_right diff_zero
        minus_zero diff_self)
qed


text \<open>The emergencies received on the way to the states of the first scenario.\<close>

lemma ex_s3_log: "reachable_log ex_s3 [ex_e1, ex_e2, ex_e3]"
proof -
  note a = l_receive [OF l_receive [OF l_receive [OF l_ctor [OF ex_s0_ctor] ex_s3_receive(1)]
        ex_s3_receive(2)] ex_s3_receive(3)]
  then show ?thesis by (simp add: ex_e1_def ex_e2_def ex_e3_def ex_s0_def)
qed

lemma ex_s5_log: "reachable_log ex_s5 [ex_e1, ex_e2, ex_e3]"
  by (rule l_update [OF l_dispatch [OF ex_s3_log ex_s4_dispatch] ex_s5_update])

lemma ex_s5_carries:
  "carries (ambulances ex_s5 ! 0) ex_e1"
  "assignedPatientName (ambulances ex_s5 ! 0) = ''Ada''" "assignedHouseId (ambulances ex_s5 ! 0) = 7"
  by (simp_all add: carries_def ex_s5_def ex_a1_def assign_def ex_e1_def ex_em_def ex_patient_def)

lemma ex_grid: "grid_ok (Val 100) (Val 100) (Val 200) 3 3"
  by (simp add: whole_def)

lemma ex_s3_range:
  "in_range (pos (ambulances ex_s3 ! 0))" "in_range (pos (ambulances ex_s3 ! 1))"
  "length (ambulances ex_s3) = 2"
  "in_range (location (queue ex_s3 ! 0))" "in_range (location (queue ex_s3 ! 1))"
  "in_range (location (queue ex_s3 ! 2))" "length (queue ex_s3) = 3"
  by (simp_all add: ex_s3_def ex_s0_def ex_amb_def ex_locs)

lemma ex_s9_range:
  "in_range (pos (ambulances ex_s9 ! 0))" "in_range (pos (ambulances ex_s9 ! 1))"
  "length (ambulances ex_s9) = 2"
  "in_range (location (queue ex_s9 ! 0))" "in_range (location (queue ex_s9 ! 1))"
  "length (queue ex_s9) = 2"
  by (simp_all add: ex_s9_def ex_s7_fields ex_a1_idle_def ex_a1_returning_def ex_a1_def ex_a2_def
      assign_def ex_amb_def ex_locs ex_e4_def ex_em_def)

lemma cx_s2_reachable: "reachable cx_s2" "reachable cy_s2"
  by (rule r_dispatch [OF cx_reachable(1) cx_dispatch(1)],
      rule r_dispatch [OF cx_reachable(2) cx_dispatch(2)])

lemma cx_peek: "peekAllPending cx_s1 = [cx_e]"
  by (simp add: peekAllPending_def cx_s1_def cx_s0_def pq_drain.simps pq_pop_def)

lemma cx_s1_facts:
  "eligible (ambulances cx_s1 ! 0)" "eligible (ambulances cx_s1 ! 1)"
  "pos (ambulances cx_s1 ! 0) = pt (- 4) 0" "pos (ambulances cx_s1 ! 1) = pt 4 0"
  by (simp_all add: cx_s1_def cx_s0_def ex_amb_def eligible_def)

lemma cx_s2_facts:
  "assignedEmergencyId (ambulances cx_s2 ! 0) = em_id cx_e"
  "status (ambulances cx_s2 ! 0) = TO_SCENE"
  "status (ambulances cx_s2 ! 1) = IDLE" "assignedEmergencyId (ambulances cx_s2 ! 1) = - 1"
  by (simp_all add: cx_s2_def assign_def ex_amb_def)

lemma cy_s2_facts:
  "status (ambulances cy_s2 ! 0) = TO_SCENE" "currentPathIndex (ambulances cy_s2 ! 0) = 0"
  "length (path (ambulances cy_s2 ! 0)) = 2"
  "last (path (ambulances cy_s2 ! 0)) = pt (1 / 1073741824) 0"
  "pos (ambulances cy_s2 ! 0) = pt 4 0"
  by (simp_all add: cy_s2_def assign_def ex_amb_def)

text \<open>The scenario with the ambulance at \<open>(2^64, 0)\<close>: the square of the distance overflows.\<close>

lemma rnd_huge:
  "rnd 18446744073709551616 = Val 18446744073709551616"
  "rnd 340282366920938463463374607431768211456 = PInf"
proof -
  have "is_f32 18446744073709551616"
    by (rule is_f32_I [of _ 1 64]) simp_all
  then show "rnd 18446744073709551616 = Val 18446744073709551616"
    by (rule rnd_exact) (simp add: FLT_MAX_def)
  have "is_f32 340282366920938463463374607431768211456"
    by (rule is_f32_I [of _ 1 128]) simp_all
  then have "round32 340282366920938463463374607431768211456 = 340282366920938463463374607431768211456"
    by (rule round32_exact)
  then show "rnd 340282366920938463463374607431768211456 = PInf"
    by (simp add: rnd_def Let_def FLT_MAX_def)
qed

lemma cz_nearest:
  "findNearestAvailableAmbulance [ex_amb 1 (pt 18446744073709551616 0)] (pt 0 0) = - 1"
  by (simp add: findNearestAvailableAmbulance_def nearest_scan.simps ex_amb_def fsub_def
      hypot32_def rnd_huge Let_def)

lemma cz_ctor: "Hospital_ctor (pt 0 0) [pt 18446744073709551616 0] 1 (Val 4) = Some cz_s0"
  by (simp add: Hospital_ctor_def cz_s0_def ex_amb_def INT_MAX_def)

lemma cz_receive: "receiveEmergency (ex_em 1 0 0) 1 cz_s0 = Some cz_s1"
  by (simp add: receiveEmergency_def cz_s0_def cz_s1_def cz_e_def INT_MAX_def pq_push_def)

lemma cz_reachable: "reachable cz_s1"
  by (rule r_receive [OF r_ctor [OF cz_ctor] cz_receive])

lemma cz_dispatch: "dispatchVehicles (Val 100) (Val 100) (Val 200) 3 3 cz_s1 = Some cz_s1"
  by (simp add: dispatchVehicles_def cz_s1_def cz_s0_def dispatch_loop.simps pq_pop_def
      dispatch_body_def cz_e_def ex_em_def cz_nearest pq_push_def)

lemma cz_facts:
  "eligible (ambulances cz_s1 ! 0)" "status (ambulances cz_s1 ! 0) = IDLE"
  "queue cz_s1 = [cz_e]" "peekAllPending cz_s1 = [cz_e]"
  "euclid (pos (ambulances cz_s1 ! 0)) (location cz_e) = Some 18446744073709551616"
  "(18446744073709551616 :: real) < FLT_MAX"
  by (simp_all add: cz_s1_def cz_s0_def ex_amb_def eligible_def cz_e_def ex_em_def FLT_MAX_def
      peekAllPending_def pq_drain.simps pq_pop_def)

section \<open>Claims\<close>

text \<open>
  C1. Whatever the queue holds (so after every sequence of intakes and dispatch passes),
  \<open>peekAllPending\<close> returns the backlog, the same elements as the queue, sorted by
  priority ascending and then by createdAt ascending; an element with a lower priority
  number stands before every element with a higher one, and an emergency that
  \<open>receiveEmergency\<close> has just pushed stands before every pending emergency with a higher
  priority number, whatever the order of arrival. The comparator ranks \<open>b\<close> after \<open>a\<close>
  exactly when (priority, createdAt) of \<open>a\<close> is lexicographically smaller, and it is a
  strict weak ordering: irreflexive, transitive, with a transitive incomparability.
\<close>

theorem C1_queue_order:
  "sorted_wrt best_first (peekAllPending h)
   \<and> mset (peekAllPending h) = mset (queue h)
   \<and> (\<forall>i j. i < length (peekAllPending h) \<and> j < length (peekAllPending h)
          \<and> priority (peekAllPending h ! i) < priority (peekAllPending h ! j) \<longrightarrow> i < j)
   \<and> (\<forall>h'. receiveEmergency incoming now h = Some h' \<longrightarrow>
          (\<exists>k < length (peekAllPending h').
              peekAllPending h' ! k = incoming\<lparr>em_id := nextEmergencyId h, createdAt := now\<rparr>
              \<and> (\<forall>j < length (peekAllPending h').
                    priority incoming < priority (peekAllPending h' ! j) \<longrightarrow> k < j)))
   \<and> (\<forall>a b. EmergencyCompare b a
          = (priority a < priority b \<or> (priority a = priority b \<and> createdAt a < createdAt b)))
   \<and> (\<forall>a. \<not> EmergencyCompare a a)
   \<and> (\<forall>a b c. EmergencyCompare a b \<and> EmergencyCompare b c \<longrightarrow> EmergencyCompare a c)
   \<and> (\<forall>a b c. \<not> EmergencyCompare a b \<and> \<not> EmergencyCompare b a
          \<and> \<not> EmergencyCompare b c \<and> \<not> EmergencyCompare c b
          \<longrightarrow> \<not> EmergencyCompare a c \<and> \<not> EmergencyCompare c a)"
proof -
  have sorted_all: "sorted_wrt best_first (peekAllPending g)" for g
    by (simp add: peekAllPending_def sorted_pq_drain)
  have mset_all: "mset (peekAllPending g) = mset (queue g)" for g
    by (simp add: peekAllPending_def mset_pq_drain)
  have index_all: "i < length (peekAllPending g) \<and> j < length (peekAllPending g)
      \<and> priority (peekAllPending g ! i) < priority (peekAllPending g ! j) \<longrightarrow> i < j" for g i j
    using sorted_wrt_index_order [OF sorted_all [of g]] by blast
  have recv: "\<exists>k < length (peekAllPending h').
              peekAllPending h' ! k = incoming\<lparr>em_id := nextEmergencyId h, createdAt := now\<rparr>
              \<and> (\<forall>j < length (peekAllPending h').
                    priority incoming < priority (peekAllPending h' ! j) \<longrightarrow> k < j)"
    if r: "receiveEmergency incoming now h = Some h'" for h'
  proof -
    let ?e = "incoming\<lparr>em_id := nextEmergencyId h, createdAt := now\<rparr>"
    from r have "queue h' = queue h @ [?e]"
      by (auto simp: receiveEmergency_def pq_push_def Let_def split: if_splits)
    then have "?e \<in> set (queue h')" by simp
    then have "?e \<in> set (peekAllPending h')"
      using mset_all [of h'] by (metis set_mset_mset)
    then obtain k where k: "k < length (peekAllPending h')" "peekAllPending h' ! k = ?e"
      by (auto simp: in_set_conv_nth)
    have "k < j" if "j < length (peekAllPending h')"
        "priority incoming < priority (peekAllPending h' ! j)" for j
      using index_all [of k h' j] k that by simp
    with k show ?thesis by blast
  qed
  have cmp: "EmergencyCompare b a
      = (priority a < priority b \<or> (priority a = priority b \<and> createdAt a < createdAt b))" for a b
    by (auto simp: EmergencyCompare_def)
  have swo: "(\<forall>a. \<not> EmergencyCompare a a)
   \<and> (\<forall>a b c. EmergencyCompare a b \<and> EmergencyCompare b c \<longrightarrow> EmergencyCompare a c)
   \<and> (\<forall>a b c. \<not> EmergencyCompare a b \<and> \<not> EmergencyCompare b a
          \<and> \<not> EmergencyCompare b c \<and> \<not> EmergencyCompare c b
          \<longrightarrow> \<not> EmergencyCompare a c \<and> \<not> EmergencyCompare c a)"
    unfolding cmp by auto
  show ?thesis
    apply (intro conjI allI impI)
    subgoal by (rule sorted_all)
    subgoal by (rule mset_all)
    subgoal for i j using index_all [of i h j] by blast
    subgoal for h' by (rule recv)
    subgoal for a b by (rule cmp)
    subgoal using swo by blast
    subgoal using swo by blast
    subgoal using swo by blast
    subgoal using swo by blast
    done
qed

theorem C1_queue_order_witness:
  "receiveEmergency (ex_em 2 0 0) 3 ex_queue2 = Some ex_queue3
   \<and> (1::nat) < length (peekAllPending ex_queue3)
   \<and> 2 < length (peekAllPending ex_queue3)
   \<and> priority (peekAllPending ex_queue3 ! 1) < priority (peekAllPending ex_queue3 ! 2)
   \<and> sorted_wrt best_first (peekAllPending ex_queue3)
   \<and> (\<exists>k < length (peekAllPending ex_queue3).
         peekAllPending ex_queue3 ! k = (ex_em 2 0 0)\<lparr>em_id := nextEmergencyId ex_queue2, createdAt := 3\<rparr>
         \<and> (\<forall>j < length (peekAllPending ex_queue3).
               priority (ex_em 2 0 0) < priority (peekAllPending ex_queue3 ! j) \<longrightarrow> k < j))"
proof -
  have a: "(1::nat) < length (peekAllPending ex_queue3)
      \<and> 2 < length (peekAllPending ex_queue3)
      \<and> priority (peekAllPending ex_queue3 ! 1) < priority (peekAllPending ex_queue3 ! 2)"
    by (simp add: ex_queue3_peek ex_em_def)
  from C1_queue_order [of ex_queue3 "ex_em 2 0 0" 3]
  have s: "sorted_wrt best_first (peekAllPending ex_queue3)" by blast
  from C1_queue_order [of ex_queue2 "ex_em 2 0 0" 3] ex_queue3_receive
  have r: "\<exists>k < length (peekAllPending ex_queue3).
         peekAllPending ex_queue3 ! k = (ex_em 2 0 0)\<lparr>em_id := nextEmergencyId ex_queue2, createdAt := 3\<rparr>
         \<and> (\<forall>j < length (peekAllPending ex_queue3).
               priority (ex_em 2 0 0) < priority (peekAllPending ex_queue3 ! j) \<longrightarrow> k < j)"
    by blast
  from a s r ex_queue3_receive show ?thesis by blast
qed

text \<open>
  C2, as amended. In a dispatch pass from a reachable state the emergencies are taken in
  the order of \<open>peekAllPending\<close>, which is sorted by priority and then by createdAt. When
  the turn of an emergency \<open>em\<close> comes, the roster is the one left by the emergencies
  before it: every ambulance that they changed is no longer eligible. Then either no
  eligible ambulance has a computed distance below the sentinel \<open>FLT_MAX\<close> and \<open>em\<close> is
  back in the queue after the pass, or \<open>em\<close> goes to the eligible ambulance that is
  nearest by the straight-line distance as the program computes it in binary32, the first
  such in roster order, and at the end of the pass that ambulance still carries exactly
  this assignment, so no later emergency received it. Roster order is the order of the
  ambulance ids. On an exact grid, with the ambulances and the queued emergencies in
  range, the pass returns.
\<close>

theorem C2_dispatch_pass:
  assumes r: "reachable h"
    and turn: "peekAllPending h = ems1 @ em # ems2"
  shows "sorted_wrt best_first (ems1 @ em # ems2)
    \<and> (\<forall>i j. i < j \<and> j < length (ambulances h)
          \<longrightarrow> amb_id (ambulances h ! i) < amb_id (ambulances h ! j))
    \<and> (grid_ok startX startY blockSize blocksX blocksY
          \<and> (\<forall>a \<in> set (ambulances h). in_range (pos a))
          \<and> (\<forall>e \<in> set (queue h). in_range (location e))
          \<longrightarrow> (\<exists>h'. dispatchVehicles startX startY blockSize blocksX blocksY h = Some h'))
    \<and> (\<forall>h'. dispatchVehicles startX startY blockSize blocksX blocksY h = Some h' \<longrightarrow>
          (\<exists>ambs1 backlog1.
              dispatch_list startX startY blockSize blocksX blocksY ems1 (ambulances h) []
                = Some (ambs1, backlog1)
              \<and> length ambs1 = length (ambulances h)
              \<and> (\<forall>i < length ambs1. ambs1 ! i \<noteq> ambulances h ! i \<longrightarrow> \<not> eligible (ambs1 ! i))
              \<and> ((findNearestAvailableAmbulance ambs1 (location em) = - 1
                    \<and> (\<forall>j < length ambs1. eligible (ambs1 ! j) \<longrightarrow>
                          FLT_MAX \<le> measured (pos (ambs1 ! j)) (location em))
                    \<and> em \<in> set (queue h'))
                  \<or> (\<exists>k pth. findNearestAvailableAmbulance ambs1 (location em) = int k
                        \<and> nearest_idle ambs1 (location em) k
                        \<and> measured (pos (ambs1 ! k)) (location em) < FLT_MAX
                        \<and> ambulances h' ! k = assign (ambs1 ! k) em pth
                        \<and> em \<notin> set (queue h')))))"
proof -
  have sorted: "sorted_wrt best_first (ems1 @ em # ems2)"
    using sorted_pq_drain [of "queue h"] turn by (simp add: peekAllPending_def)
  have ids: "\<forall>i j. i < j \<and> j < length (ambulances h)
          \<longrightarrow> amb_id (ambulances h ! i) < amb_id (ambulances h ! j)"
    using reachable_ids [OF r] by (auto simp: sorted_wrt_iff_nth_less)
  have dist: "distinct (ems1 @ em # ems2)"
    using distinct_pq_drain [OF reachable_distinct_queue [OF r]] turn
    by (simp add: peekAllPending_def)
  have returns: "\<exists>h'. dispatchVehicles startX startY blockSize blocksX blocksY h = Some h'"
    if "grid_ok startX startY blockSize blocksX blocksY
          \<and> (\<forall>a \<in> set (ambulances h). in_range (pos a))
          \<and> (\<forall>e \<in> set (queue h). in_range (location e))"
    using that by (intro dispatchVehicles_returns) simp_all
  have pass: "\<exists>ambs1 backlog1.
              dispatch_list startX startY blockSize blocksX blocksY ems1 (ambulances h) []
                = Some (ambs1, backlog1)
              \<and> length ambs1 = length (ambulances h)
              \<and> (\<forall>i < length ambs1. ambs1 ! i \<noteq> ambulances h ! i \<longrightarrow> \<not> eligible (ambs1 ! i))
              \<and> ((findNearestAvailableAmbulance ambs1 (location em) = - 1
                    \<and> (\<forall>j < length ambs1. eligible (ambs1 ! j) \<longrightarrow>
                          FLT_MAX \<le> measured (pos (ambs1 ! j)) (location em))
                    \<and> em \<in> set (queue h'))
                  \<or> (\<exists>k pth. findNearestAvailableAmbulance ambs1 (location em) = int k
                        \<and> nearest_idle ambs1 (location em) k
                        \<and> measured (pos (ambs1 ! k)) (location em) < FLT_MAX
                        \<and> ambulances h' ! k = assign (ambs1 ! k) em pth
                        \<and> em \<notin> set (queue h')))"
    if d: "dispatchVehicles startX startY blockSize blocksX blocksY h = Some h'" for h'
  proof -
    from dispatchVehicles_list [OF d] turn obtain ambs' backlog' where
      l: "dispatch_list startX startY blockSize blocksX blocksY (ems1 @ em # ems2) (ambulances h) []
         = Some (ambs', backlog')"
      and h': "h' = h\<lparr>ambulances := ambs', queue := backlog'\<rparr>"
      by auto
    have q: "queue h' = backlog'" and a: "ambulances h' = ambs'" by (simp_all add: h')
    from dispatch_turn [OF l dist] show ?thesis
      unfolding q a by blast
  qed
  show ?thesis
    apply (intro conjI allI impI)
    subgoal by (rule sorted)
    subgoal for i j using ids by blast
    subgoal by (rule returns)
    subgoal for h' by (rule pass)
    done
qed

theorem C2_dispatch_pass_witness:
  "reachable ex_s3
   \<and> peekAllPending ex_s3 = [ex_e2] @ ex_e1 # [ex_e3]
   \<and> grid_ok (Val 100) (Val 100) (Val 200) 3 3
   \<and> in_range (pos (ambulances ex_s3 ! 0)) \<and> in_range (pos (ambulances ex_s3 ! 1))
   \<and> length (ambulances ex_s3) = 2
   \<and> in_range (location (queue ex_s3 ! 0)) \<and> in_range (location (queue ex_s3 ! 1))
   \<and> in_range (location (queue ex_s3 ! 2)) \<and> length (queue ex_s3) = 3
   \<and> (\<exists>h'. dispatchVehicles (Val 100) (Val 100) (Val 200) 3 3 ex_s3 = Some h')
   \<and> dispatchVehicles (Val 100) (Val 100) (Val 200) 3 3 ex_s3 = Some ex_s4
   \<and> sorted_wrt best_first ([ex_e2] @ ex_e1 # [ex_e3])
   \<and> (0::nat) < 1 \<and> 1 < length (ambulances ex_s3)
   \<and> amb_id (ambulances ex_s3 ! 0) < amb_id (ambulances ex_s3 ! 1)
   \<and> dispatch_list (Val 100) (Val 100) (Val 200) 3 3 [ex_e2] (ambulances ex_s3) []
        = Some ([ex_amb 1 (pt 100 90), ex_a2], [])
   \<and> findNearestAvailableAmbulance [ex_amb 1 (pt 100 90), ex_a2] (location ex_e1) = int 0
   \<and> nearest_idle [ex_amb 1 (pt 100 90), ex_a2] (location ex_e1) 0
   \<and> ex_e1 \<notin> set (queue ex_s4)"
proof -
  note w = C2_dispatch_pass [OF ex_s3_reachable ex_s3_peek,
      of "Val 100" "Val 100" "Val 200" 3 3]
  from w have s: "sorted_wrt best_first ([ex_e2] @ ex_e1 # [ex_e3])" by (rule conjunct1)
  have len: "(0::nat) < 1 \<and> 1 < length (ambulances ex_s3)"
    by (simp add: ex_s3_def ex_s0_def)
  with w have ids: "amb_id (ambulances ex_s3 ! 0) < amb_id (ambulances ex_s3 ! 1)" by blast
  have ra: "\<forall>a \<in> set (ambulances ex_s3). in_range (pos a)"
    using ex_s3_range(1-3) by (simp add: ex_s3_def ex_s0_def)
  have re: "\<forall>e \<in> set (queue ex_s3). in_range (location e)"
    using ex_s3_range(4-7) by (simp add: ex_s3_def ex_s0_def)
  from w [THEN conjunct2, THEN conjunct2, THEN conjunct1] ex_grid ra re
  have ret: "\<exists>h'. dispatchVehicles (Val 100) (Val 100) (Val 200) 3 3 ex_s3 = Some h'"
    by blast
  from w [THEN conjunct2, THEN conjunct2, THEN conjunct2] ex_s4_dispatch obtain ambs1 backlog1 where
    t: "dispatch_list (Val 100) (Val 100) (Val 200) 3 3 [ex_e2] (ambulances ex_s3) []
          = Some (ambs1, backlog1)"
    and c: "(findNearestAvailableAmbulance ambs1 (location ex_e1) = - 1
                \<and> (\<forall>j < length ambs1. eligible (ambs1 ! j) \<longrightarrow>
                      FLT_MAX \<le> measured (pos (ambs1 ! j)) (location ex_e1))
                \<and> ex_e1 \<in> set (queue ex_s4))
              \<or> (\<exists>k pth. findNearestAvailableAmbulance ambs1 (location ex_e1) = int k
                    \<and> nearest_idle ambs1 (location ex_e1) k
                    \<and> measured (pos (ambs1 ! k)) (location ex_e1) < FLT_MAX
                    \<and> ambulances ex_s4 ! k = assign (ambs1 ! k) ex_e1 pth
                    \<and> ex_e1 \<notin> set (queue ex_s4))"
    by blast
  from t ex_s3_first_turn have a: "ambs1 = [ex_amb 1 (pt 100 90), ex_a2]" by simp
  from c ex_s3_second_turn
  have n: "nearest_idle [ex_amb 1 (pt 100 90), ex_a2] (location ex_e1) 0
      \<and> ex_e1 \<notin> set (queue ex_s4)"
    unfolding a by auto
  from ex_s3_reachable ex_s4_dispatch ex_s3_peek s len ids ex_s3_first_turn ex_s3_second_turn n
    ex_grid ex_s3_range ret
  show ?thesis by blast
qed

text \<open>
  C2 as stated fails for the exact straight-line distance. With ambulances at (-4, 0)
  and (4, 0) and the emergency at \<open>(2^-30, 0)\<close>, the second ambulance is nearer
  (\<open>4 - 2^-30\<close> against \<open>4 + 2^-30\<close>), but both coordinate differences round to 4 in
  binary32, the computed distances are equal, and the pass sends the first ambulance.
  With the only ambulance at \<open>(2^64, 0)\<close> and the emergency at (0, 0), the ambulance is
  idle at the exact distance \<open>2^64\<close>, but the square overflows, the computed distance is
  not below \<open>FLT_MAX\<close>, and the pass leaves the emergency in the queue.
\<close>

theorem C2_nearest_counterexample:
  "reachable cx_s1
   \<and> peekAllPending cx_s1 = [cx_e]
   \<and> eligible (ambulances cx_s1 ! 0) \<and> eligible (ambulances cx_s1 ! 1)
   \<and> euclid (pos (ambulances cx_s1 ! 0)) (location cx_e) = Some (4294967297 / 1073741824)
   \<and> euclid (pos (ambulances cx_s1 ! 1)) (location cx_e) = Some (4294967295 / 1073741824)
   \<and> (4294967295 / 1073741824 :: real) < 4294967297 / 1073741824
   \<and> dispatchVehicles (Val 0) (Val 0) (Val 100) 0 0 cx_s1 = Some cx_s2
   \<and> assignedEmergencyId (ambulances cx_s2 ! 0) = em_id cx_e
   \<and> status (ambulances cx_s2 ! 0) = TO_SCENE
   \<and> status (ambulances cx_s2 ! 1) = IDLE
   \<and> assignedEmergencyId (ambulances cx_s2 ! 1) = - 1
   \<and> reachable cz_s1
   \<and> peekAllPending cz_s1 = [cz_e]
   \<and> eligible (ambulances cz_s1 ! 0)
   \<and> euclid (pos (ambulances cz_s1 ! 0)) (location cz_e) = Some 18446744073709551616
   \<and> (18446744073709551616 :: real) < FLT_MAX
   \<and> dispatchVehicles (Val 100) (Val 100) (Val 200) 3 3 cz_s1 = Some cz_s1
   \<and> queue cz_s1 = [cz_e]
   \<and> status (ambulances cz_s1 ! 0) = IDLE"
proof -
  have a: "euclid (pos (ambulances cx_s1 ! 0)) (location cx_e) = Some (4294967297 / 1073741824)"
    by (simp only: cx_s1_facts cx_loc cx_euclid)
  have b: "euclid (pos (ambulances cx_s1 ! 1)) (location cx_e) = Some (4294967295 / 1073741824)"
    by (simp only: cx_s1_facts cx_loc cx_euclid)
  have c: "(4294967295 / 1073741824 :: real) < 4294967297 / 1073741824" by simp
  from cx_reachable(1) cx_peek cx_s1_facts(1,2) a b c cx_dispatch(1) cx_s2_facts
    cz_reachable cz_facts cz_dispatch
  show ?thesis by blast
qed

text \<open>
  C3. In every reachable state, so in particular after every tick (motion, dispatch,
  state-machine update), \<open>one_place\<close> holds: the ids in the queue are pairwise
  different, no two ambulances carry the same emergency id, no ambulance carries the
  id of a queued emergency, every such id was handed out by the intake counter, and
  the number of queued, carried and handled emergencies is the number received: an
  emergency that is not yet handled is either in the queue or carried by exactly one
  ambulance.
\<close>

theorem C3_one_place:
  assumes "reachable h"
  shows "one_place h
    \<and> (\<forall>h'. tick startX startY blockSize blocksX blocksY dt h = Some h' \<longrightarrow> one_place h')"
proof -
  from assms have "one_place h" by (intro inv_one_place reachable_inv)
  moreover have "one_place h'" if "tick startX startY blockSize blocksX blocksY dt h = Some h'" for h'
    using tick_reachable [OF assms that] by (intro inv_one_place reachable_inv)
  ultimately show ?thesis by blast
qed

theorem C3_one_place_witness:
  "reachable ex_s3
   \<and> tick (Val 100) (Val 100) (Val 200) 3 3 (Val (1 / 64)) ex_s3 = Some ex_s5
   \<and> one_place ex_s3 \<and> one_place ex_s5
   \<and> queue ex_s5 = [ex_e3] \<and> em_id ex_e3 = 3
   \<and> assignedEmergencyId (ambulances ex_s5 ! 0) = 1
   \<and> assignedEmergencyId (ambulances ex_s5 ! 1) = 2"
proof -
  have "queue ex_s5 = [ex_e3] \<and> em_id ex_e3 = 3
   \<and> assignedEmergencyId (ambulances ex_s5 ! 0) = 1
   \<and> assignedEmergencyId (ambulances ex_s5 ! 1) = 2"
    by (simp add: ex_s5_def ex_s4_def ex_a1_def ex_a2_def assign_def ex_e1_def ex_e2_def ex_e3_def)
  with C3_one_place [OF ex_s3_reachable, of "Val 100" "Val 100" "Val 200" 3 3 "Val (1 / 64)"] ex_tick ex_s3_reachable
  show ?thesis by blast
qed

text \<open>
  C4, as amended. In every reachable state an ambulance carries an assignment
  (\<open>assignedEmergencyId\<close> is not -1) exactly when its status is \<open>TO_SCENE\<close> or \<open>ON_SCENE\<close>;
  the id is then one that the intake counter handed out, and the three assignment
  fields are the id, the patient name and the house number of one of the emergencies
  received so far, whose ids are pairwise different. A \<open>RETURNING\<close> or \<open>IDLE\<close> ambulance
  has no assignment: id -1, empty patient name, house id -1. An \<open>IDLE\<close> ambulance has an
  empty path and its cursor at 0. The dispatch loop populates the three fields from the
  matched emergency when it sets the status to \<open>TO_SCENE\<close>.
\<close>

theorem C4_assignment_on_call:
  assumes r: "reachable h" and a: "a \<in> set (ambulances h)"
  shows "((assignedEmergencyId a \<noteq> - 1) = (status a = TO_SCENE \<or> status a = ON_SCENE))
    \<and> (status a = TO_SCENE \<or> status a = ON_SCENE \<longrightarrow>
          1 \<le> assignedEmergencyId a \<and> assignedEmergencyId a < nextEmergencyId h)
    \<and> (status a = RETURNING \<or> status a = IDLE \<longrightarrow>
          assignedEmergencyId a = - 1 \<and> assignedPatientName a = [] \<and> assignedHouseId a = - 1)
    \<and> (status a = IDLE \<longrightarrow> path a = [] \<and> currentPathIndex a = 0)
    \<and> (\<exists>seen. reachable_log h seen)
    \<and> (\<forall>seen. reachable_log h seen \<longrightarrow>
          distinct (map em_id seen)
          \<and> (status a = TO_SCENE \<or> status a = ON_SCENE \<longrightarrow>
                (\<exists>e \<in> set seen. assignedEmergencyId a = em_id e
                    \<and> assignedPatientName a = name (patient e)
                    \<and> assignedHouseId a = houseNumber (patient e))))
    \<and> (\<forall>ambs backlog ambs' backlog' em k.
          dispatch_body startX startY blockSize blocksX blocksY em ambs backlog = Some (ambs', backlog')
          \<and> findNearestAvailableAmbulance ambs (location em) = int k \<longrightarrow>
          status (ambs' ! k) = TO_SCENE
          \<and> assignedEmergencyId (ambs' ! k) = em_id em
          \<and> assignedPatientName (ambs' ! k) = name (patient em)
          \<and> assignedHouseId (ambs' ! k) = houseNumber (patient em))"
proof -
  note inv = reachable_inv [OF r]
  from inv a have ok: "amb_ok a" by (simp add: hosp_inv_def)
  have 1: "(assignedEmergencyId a \<noteq> - 1) = (status a = TO_SCENE \<or> status a = ON_SCENE)"
    using inv_assigned_iff [OF inv a] by (simp add: holds_emergency_def)
  have 2: "status a = TO_SCENE \<or> status a = ON_SCENE \<longrightarrow>
          1 \<le> assignedEmergencyId a \<and> assignedEmergencyId a < nextEmergencyId h"
    using inv_held_range [OF inv a] by (simp add: holds_emergency_def)
  have 3: "status a = RETURNING \<or> status a = IDLE \<longrightarrow>
          assignedEmergencyId a = - 1 \<and> assignedPatientName a = [] \<and> assignedHouseId a = - 1"
    using ok by (auto simp: amb_ok_def holds_emergency_def)
  have 4: "status a = IDLE \<longrightarrow> path a = [] \<and> currentPathIndex a = 0"
    using ok by (simp add: amb_ok_def)
  have 5: "\<exists>seen. reachable_log h seen"
    by (rule reachable_has_log [OF r])
  have 6: "distinct (map em_id seen)
          \<and> (status a = TO_SCENE \<or> status a = ON_SCENE \<longrightarrow>
                (\<exists>e \<in> set seen. assignedEmergencyId a = em_id e
                    \<and> assignedPatientName a = name (patient e)
                    \<and> assignedHouseId a = houseNumber (patient e)))"
    if l: "reachable_log h seen" for seen
    using reachable_log_inv [OF l] a
    by (simp add: log_inv_def holds_emergency_def carries_def)
  have 7: "status (ambs' ! k) = TO_SCENE
          \<and> assignedEmergencyId (ambs' ! k) = em_id em
          \<and> assignedPatientName (ambs' ! k) = name (patient em)
          \<and> assignedHouseId (ambs' ! k) = houseNumber (patient em)"
    if b: "dispatch_body startX startY blockSize blocksX blocksY em ambs backlog = Some (ambs', backlog')"
      and n: "findNearestAvailableAmbulance ambs (location em) = int k"
    for ambs backlog ambs' backlog' em k
    using dispatch_body_cases [OF b] n by (auto simp: assign_def)
  have 8: "\<forall>ambs backlog ambs' backlog' em k.
          dispatch_body startX startY blockSize blocksX blocksY em ambs backlog = Some (ambs', backlog')
          \<and> findNearestAvailableAmbulance ambs (location em) = int k \<longrightarrow>
          status (ambs' ! k) = TO_SCENE
          \<and> assignedEmergencyId (ambs' ! k) = em_id em
          \<and> assignedPatientName (ambs' ! k) = name (patient em)
          \<and> assignedHouseId (ambs' ! k) = houseNumber (patient em)"
    using 7 by blast
  from 6 have 9: "\<forall>seen. reachable_log h seen \<longrightarrow>
          distinct (map em_id seen)
          \<and> (status a = TO_SCENE \<or> status a = ON_SCENE \<longrightarrow>
                (\<exists>e \<in> set seen. assignedEmergencyId a = em_id e
                    \<and> assignedPatientName a = name (patient e)
                    \<and> assignedHouseId a = houseNumber (patient e)))"
    by blast
  show ?thesis
    by (rule conjI [OF 1 conjI [OF 2 conjI [OF 3 conjI [OF 4 conjI [OF 5 conjI [OF 9 8]]]]]])
qed

theorem C4_assignment_on_call_witness:
  "reachable ex_s5 \<and> ambulances ex_s5 ! 0 \<in> set (ambulances ex_s5)
   \<and> status (ambulances ex_s5 ! 0) = ON_SCENE
   \<and> assignedEmergencyId (ambulances ex_s5 ! 0) \<noteq> - 1
   \<and> 1 \<le> assignedEmergencyId (ambulances ex_s5 ! 0)
   \<and> assignedEmergencyId (ambulances ex_s5 ! 0) < nextEmergencyId ex_s5
   \<and> reachable_log ex_s5 [ex_e1, ex_e2, ex_e3]
   \<and> distinct (map em_id [ex_e1, ex_e2, ex_e3])
   \<and> (\<exists>e. e \<in> set [ex_e1, ex_e2, ex_e3]
         \<and> assignedEmergencyId (ambulances ex_s5 ! 0) = em_id e
         \<and> assignedPatientName (ambulances ex_s5 ! 0) = name (patient e)
         \<and> assignedHouseId (ambulances ex_s5 ! 0) = houseNumber (patient e))
   \<and> assignedEmergencyId (ambulances ex_s5 ! 0) = em_id ex_e1
   \<and> assignedPatientName (ambulances ex_s5 ! 0) = ''Ada''
   \<and> assignedHouseId (ambulances ex_s5 ! 0) = 7
   \<and> reachable ex_s6 \<and> ambulances ex_s6 ! 0 \<in> set (ambulances ex_s6)
   \<and> status (ambulances ex_s6 ! 0) = RETURNING
   \<and> assignedEmergencyId (ambulances ex_s6 ! 0) = - 1
   \<and> dispatch_body (Val 100) (Val 100) (Val 200) 3 3 ex_e2
        [ex_amb 1 (pt 100 90), ex_amb 2 (pt 300 90)] []
      = Some ([ex_amb 1 (pt 100 90), ex_a2], [])
   \<and> findNearestAvailableAmbulance [ex_amb 1 (pt 100 90), ex_amb 2 (pt 300 90)]
        (location ex_e2) = int 1
   \<and> assignedEmergencyId ([ex_amb 1 (pt 100 90), ex_a2] ! 1) = em_id ex_e2"
proof -
  have m6: "ambulances ex_s6 ! 0 \<in> set (ambulances ex_s6)" by (simp add: ex_s6_def)
  have b: "dispatch_body (Val 100) (Val 100) (Val 200) 3 3 ex_e2
        [ex_amb 1 (pt 100 90), ex_amb 2 (pt 300 90)] []
      = Some ([ex_amb 1 (pt 100 90), ex_a2], [])"
    by (simp add: ex_bodies ex_a2_def)
  have n: "findNearestAvailableAmbulance [ex_amb 1 (pt 100 90), ex_amb 2 (pt 300 90)]
        (location ex_e2) = int 1"
    by (simp add: ex_nearest ex_locs)
  note w5 = C4_assignment_on_call [OF ex_s5_reachable ex_s5_amb(4),
      of "Val 100" "Val 100" "Val 200" 3 3]
  note w6 = C4_assignment_on_call [OF ex_s6_reachable m6, of "Val 100" "Val 100" "Val 200" 3 3]
  from w5 ex_s5_amb(1) have p5: "assignedEmergencyId (ambulances ex_s5 ! 0) \<noteq> - 1
     \<and> 1 \<le> assignedEmergencyId (ambulances ex_s5 ! 0)
     \<and> assignedEmergencyId (ambulances ex_s5 ! 0) < nextEmergencyId ex_s5"
    by simp
  from w5 ex_s5_log ex_s5_amb(1)
  have l5: "distinct (map em_id [ex_e1, ex_e2, ex_e3])
   \<and> (\<exists>e. e \<in> set [ex_e1, ex_e2, ex_e3]
         \<and> assignedEmergencyId (ambulances ex_s5 ! 0) = em_id e
         \<and> assignedPatientName (ambulances ex_s5 ! 0) = name (patient e)
         \<and> assignedHouseId (ambulances ex_s5 ! 0) = houseNumber (patient e))"
    by blast
  have c5: "assignedEmergencyId (ambulances ex_s5 ! 0) = em_id ex_e1"
    using ex_s5_carries(1) by (simp add: carries_def)
  from w6 ex_s6_amb(1) have p6: "assignedEmergencyId (ambulances ex_s6 ! 0) = - 1"
    by simp
  from w5 b n have pd: "assignedEmergencyId ([ex_amb 1 (pt 100 90), ex_a2] ! 1) = em_id ex_e2"
    by blast
  from ex_s5_reachable ex_s5_amb(1,4) ex_s6_reachable m6 ex_s6_amb(1) p5 p6 b n pd ex_s5_log l5 c5
    ex_s5_carries(2,3)
  show ?thesis by blast
qed

text \<open>
  C4 as stated fails: after the on-scene timer has run out, the first ambulance of the
  scenario is \<open>RETURNING\<close> (so not \<open>IDLE\<close>) and its assignment is already cleared.
\<close>

theorem C4_returning_counterexample:
  "reachable ex_s6
   \<and> ambulances ex_s6 ! 0 \<in> set (ambulances ex_s6)
   \<and> status (ambulances ex_s6 ! 0) = RETURNING
   \<and> assignedEmergencyId (ambulances ex_s6 ! 0) = - 1
   \<and> assignedPatientName (ambulances ex_s6 ! 0) = []
   \<and> assignedHouseId (ambulances ex_s6 ! 0) = - 1"
  using ex_s6_reachable ex_s6_amb by (simp add: ex_s6_def)

text \<open>
  C5, as amended. In a dispatch pass from a reachable state whose queued emergencies
  differ pairwise in (priority, createdAt) (\<open>std::priority_queue\<close> leaves the order of
  emergencies of equal rank open): on an exact grid, with the ambulances and the queued
  emergencies in range, the pass returns, and it returns whenever no ambulance is
  eligible. When it returns, the queue afterwards consists of exactly the emergencies
  pending before whose id no ambulance carries afterwards, unchanged and in the order in
  which \<open>peekAllPending\<close> listed them before the pass, and \<open>peekAllPending\<close> lists them in
  this order again. When no ambulance is eligible, the ambulances and the order of the
  pending emergencies do not change, however often the pass is repeated. When the queue
  is not empty and some eligible ambulance has a computed distance to the best-ranked
  emergency below the sentinel \<open>FLT_MAX\<close>, the best-ranked emergency is matched in this
  pass. The other two steps of a tick, the motion step and the state-machine update,
  leave the queue as it is.
\<close>

theorem C5_backlog_order:
  assumes r: "reachable h"
    and ranks: "distinct (map rank (queue h))"
  shows "(grid_ok startX startY blockSize blocksX blocksY
          \<and> (\<forall>a \<in> set (ambulances h). in_range (pos a))
          \<and> (\<forall>e \<in> set (queue h). in_range (location e))
          \<longrightarrow> (\<exists>h'. dispatchVehicles startX startY blockSize blocksX blocksY h = Some h'))
    \<and> ((\<forall>a \<in> set (ambulances h). \<not> eligible a)
          \<longrightarrow> (\<exists>h'. dispatchVehicles startX startY blockSize blocksX blocksY h = Some h'))
    \<and> (\<forall>h'. dispatchVehicles startX startY blockSize blocksX blocksY h = Some h' \<longrightarrow>
          queue h' = filter (unmatched (ambulances h')) (peekAllPending h)
          \<and> peekAllPending h' = queue h'
          \<and> (\<forall>e \<in> set (peekAllPending h). unmatched (ambulances h) e)
          \<and> ((\<forall>a \<in> set (ambulances h). \<not> eligible a)
                \<longrightarrow> peekAllPending h' = peekAllPending h \<and> ambulances h' = ambulances h)
          \<and> (queue h \<noteq> []
                \<and> (\<exists>a \<in> set (ambulances h).
                      eligible a \<and> measured (pos a) (location (hd (peekAllPending h))) < FLT_MAX)
                \<longrightarrow> hd (peekAllPending h) \<notin> set (queue h')
                    \<and> (\<exists>k < length (ambulances h').
                          status (ambulances h' ! k) = TO_SCENE
                          \<and> assignedEmergencyId (ambulances h' ! k)
                              = em_id (hd (peekAllPending h)))))
    \<and> (\<forall>h'. move_ambulances dt h = Some h' \<longrightarrow> queue h' = queue h)
    \<and> (\<forall>h'. updateAfterMovement startX startY blockSize blocksX blocksY dt h = Some h'
          \<longrightarrow> queue h' = queue h)"
proof -
  let ?ems = "peekAllPending h"
  have sorted: "sorted_wrt best_first ?ems"
    by (simp add: peekAllPending_def sorted_pq_drain)
  have dist: "distinct ?ems"
    using distinct_pq_drain [OF reachable_distinct_queue [OF r]] by (simp add: peekAllPending_def)
  have set_ems: "set ?ems = set (queue h)"
    by (simp add: peekAllPending_def set_pq_drain)
  have mset_ems: "mset ?ems = mset (queue h)"
    by (simp add: peekAllPending_def mset_pq_drain)
  from r have op: "one_place h" by (intro inv_one_place reachable_inv)
  then have "distinct (map em_id (queue h))" by (simp add: one_place_def)
  moreover have "mset (map em_id ?ems) = mset (map em_id (queue h))"
    using mset_ems by (simp only: mset_map)
  ultimately have dist_ids: "distinct (map em_id ?ems)"
    by (metis mset_eq_imp_distinct_iff)
  have fresh: "\<forall>e \<in> set ?ems. unmatched (ambulances h) e"
    using op unfolding set_ems by (simp add: one_place_def unmatched_def)
  have returns: "\<exists>h'. dispatchVehicles startX startY blockSize blocksX blocksY h = Some h'"
    if "grid_ok startX startY blockSize blocksX blocksY
          \<and> (\<forall>a \<in> set (ambulances h). in_range (pos a))
          \<and> (\<forall>e \<in> set (queue h). in_range (location e))"
    using that by (intro dispatchVehicles_returns) simp_all
  have idle_returns: "\<exists>h'. dispatchVehicles startX startY blockSize blocksX blocksY h = Some h'"
    if none: "\<forall>a \<in> set (ambulances h). \<not> eligible a"
  proof (cases "queue h = []")
    case True
    then show ?thesis by (simp add: dispatchVehicles_def)
  next
    case False
    from dispatch_list_none [OF none, of startX startY blockSize blocksX blocksY "pq_drain (queue h) []" "[]"]
    have "dispatch_loop startX startY blockSize blocksX blocksY (queue h) (ambulances h) []
        = Some (ambulances h, [] @ pq_drain (queue h) [])"
      by (simp only: dispatch_loop_list)
    with False show ?thesis by (simp add: dispatchVehicles_def)
  qed
  have pass: "queue h' = filter (unmatched (ambulances h')) ?ems
          \<and> peekAllPending h' = queue h'
          \<and> (\<forall>e \<in> set ?ems. unmatched (ambulances h) e)
          \<and> ((\<forall>a \<in> set (ambulances h). \<not> eligible a)
                \<longrightarrow> peekAllPending h' = ?ems \<and> ambulances h' = ambulances h)
          \<and> (queue h \<noteq> []
                \<and> (\<exists>a \<in> set (ambulances h).
                      eligible a \<and> measured (pos a) (location (hd ?ems)) < FLT_MAX)
                \<longrightarrow> hd ?ems \<notin> set (queue h')
                    \<and> (\<exists>k < length (ambulances h').
                          status (ambulances h' ! k) = TO_SCENE
                          \<and> assignedEmergencyId (ambulances h' ! k) = em_id (hd ?ems)))"
    if d: "dispatchVehicles startX startY blockSize blocksX blocksY h = Some h'" for h'
  proof -
    from dispatchVehicles_list [OF d] obtain ambs' backlog' where
      l: "dispatch_list startX startY blockSize blocksX blocksY ?ems (ambulances h) []
         = Some (ambs', backlog')"
      and h': "h' = h\<lparr>ambulances := ambs', queue := backlog'\<rparr>"
      by auto
    have q: "queue h' = backlog'" and a: "ambulances h' = ambs'" by (simp_all add: h')
    from dispatch_list_queue [OF l dist_ids fresh]
    have 1: "queue h' = filter (unmatched (ambulances h')) ?ems"
      by (simp add: q a)
    have "sorted_wrt best_first backlog'"
      using sorted_wrt_filter_best [OF sorted, of "unmatched (ambulances h')"] 1 q by simp
    then have "pq_drain backlog' [] = backlog'" by (rule pq_drain_sorted)
    then have 2: "peekAllPending h' = queue h'"
      by (simp add: peekAllPending_def q)
    have 3: "peekAllPending h' = ?ems \<and> ambulances h' = ambulances h"
      if none: "\<forall>a \<in> set (ambulances h). \<not> eligible a"
    proof -
      from l dispatch_list_none [OF none, of startX startY blockSize blocksX blocksY ?ems "[]"]
      have "ambs' = ambulances h" "backlog' = ?ems" by simp_all
      with sorted show ?thesis
        by (simp add: h' peekAllPending_def pq_drain_sorted)
    qed
    have 4: "hd ?ems \<notin> set (queue h')
                \<and> (\<exists>k < length (ambulances h').
                      status (ambulances h' ! k) = TO_SCENE
                      \<and> assignedEmergencyId (ambulances h' ! k) = em_id (hd ?ems))"
      if ne: "queue h \<noteq> []"
        and el: "\<exists>a \<in> set (ambulances h). eligible a \<and> measured (pos a) (location (hd ?ems)) < FLT_MAX"
    proof -
      from ne set_ems have "?ems \<noteq> []" by auto
      then obtain em ems2 where e: "?ems = [] @ em # ems2" by (cases ?ems) auto
      then have hd: "hd ?ems = em" by simp
      from l e have l': "dispatch_list startX startY blockSize blocksX blocksY ([] @ em # ems2)
          (ambulances h) [] = Some (ambs', backlog')"
        by simp
      from dist e have dist': "distinct ([] @ em # ems2)" by simp
      from el hd obtain j where j: "j < length (ambulances h)" "eligible (ambulances h ! j)"
        "measured (pos (ambulances h ! j)) (location em) < FLT_MAX"
        by (auto simp: in_set_conv_nth)
      from dispatch_turn [OF l' dist'] obtain k pth where
        k: "nearest_idle (ambulances h) (location em) k"
          "ambs' ! k = assign (ambulances h ! k) em pth" "em \<notin> set backlog'"
        using j by fastforce
      from k(1) have "k < length (ambulances h)" by (simp add: nearest_idle_def)
      with dispatch_list_inv [OF l] have "k < length ambs'" by simp
      with k show ?thesis
        by (auto simp: hd q a assign_def)
    qed
    from 1 2 fresh 3 4 show ?thesis by blast
  qed
  have moved: "queue h' = queue h" if "move_ambulances dt h = Some h'" for h'
    using that by (auto simp: move_ambulances_def split: option.splits)
  have updated: "queue h' = queue h"
    if "updateAfterMovement startX startY blockSize blocksX blocksY dt h = Some h'" for h'
    using that by (auto simp: updateAfterMovement_def split: option.splits)
  show ?thesis
    apply (intro conjI allI)
    subgoal by (rule impI) (rule returns)
    subgoal by (rule impI) (rule idle_returns)
    subgoal for h' by (rule impI) (rule pass)
    subgoal for h' by (rule impI) (rule moved)
    subgoal for h' by (rule impI) (rule updated)
    done
qed

theorem C5_backlog_order_witness:
  "reachable ex_s9
   \<and> distinct (map rank (queue ex_s9))
   \<and> grid_ok (Val 100) (Val 100) (Val 200) 3 3
   \<and> in_range (pos (ambulances ex_s9 ! 0)) \<and> in_range (pos (ambulances ex_s9 ! 1))
   \<and> length (ambulances ex_s9) = 2
   \<and> in_range (location (queue ex_s9 ! 0)) \<and> in_range (location (queue ex_s9 ! 1))
   \<and> length (queue ex_s9) = 2
   \<and> (\<exists>h'. dispatchVehicles (Val 100) (Val 100) (Val 200) 3 3 ex_s9 = Some h')
   \<and> dispatchVehicles (Val 100) (Val 100) (Val 200) 3 3 ex_s9 = Some ex_s10
   \<and> queue ex_s9 \<noteq> []
   \<and> ambulances ex_s9 ! 0 \<in> set (ambulances ex_s9)
   \<and> eligible (ambulances ex_s9 ! 0)
   \<and> measured (pos (ambulances ex_s9 ! 0)) (location (hd (peekAllPending ex_s9))) < FLT_MAX
   \<and> peekAllPending ex_s9 = [ex_e3, ex_e4]
   \<and> queue ex_s10 = filter (unmatched (ambulances ex_s10)) (peekAllPending ex_s9)
   \<and> queue ex_s10 = [ex_e4]
   \<and> peekAllPending ex_s10 = queue ex_s10
   \<and> hd (peekAllPending ex_s9) \<notin> set (queue ex_s10)
   \<and> (\<exists>k < length (ambulances ex_s10).
         status (ambulances ex_s10 ! k) = TO_SCENE
         \<and> assignedEmergencyId (ambulances ex_s10 ! k) = em_id (hd (peekAllPending ex_s9)))
   \<and> reachable ex_s7
   \<and> distinct (map rank (queue ex_s7))
   \<and> \<not> eligible (ambulances ex_s7 ! 0) \<and> \<not> eligible (ambulances ex_s7 ! 1)
   \<and> length (ambulances ex_s7) = 2
   \<and> (\<exists>h'. dispatchVehicles (Val 100) (Val 100) (Val 200) 3 3 ex_s7 = Some h')
   \<and> dispatchVehicles (Val 100) (Val 100) (Val 200) 3 3 ex_s7 = Some ex_s7
   \<and> updateAfterMovement (Val 100) (Val 100) (Val 200) 3 3 (Val (1 / 64)) ex_s7 = Some ex_s9
   \<and> queue ex_s9 = queue ex_s7"
proof -
  note w = C5_backlog_order [OF ex_s9_reachable ex_s9_facts(1),
      of "Val 100" "Val 100" "Val 200" 3 3]
  have ra: "\<forall>a \<in> set (ambulances ex_s9). in_range (pos a)"
    using ex_s9_range(1-3) by (simp add: ex_s9_def)
  have re: "\<forall>e \<in> set (queue ex_s9). in_range (location e)"
    using ex_s9_range(4-6) by (simp add: ex_s9_def ex_s7_fields)
  from w [THEN conjunct1] ex_grid ra re
  have ret: "\<exists>h'. dispatchVehicles (Val 100) (Val 100) (Val 200) 3 3 ex_s9 = Some h'"
    by blast
  from w [THEN conjunct2, THEN conjunct2, THEN conjunct1] ex_s10_dispatch
  have p: "queue ex_s10 = filter (unmatched (ambulances ex_s10)) (peekAllPending ex_s9)
          \<and> peekAllPending ex_s10 = queue ex_s10
          \<and> (\<forall>e \<in> set (peekAllPending ex_s9). unmatched (ambulances ex_s9) e)
          \<and> ((\<forall>a \<in> set (ambulances ex_s9). \<not> eligible a)
                \<longrightarrow> peekAllPending ex_s10 = peekAllPending ex_s9
                    \<and> ambulances ex_s10 = ambulances ex_s9)
          \<and> (queue ex_s9 \<noteq> []
                \<and> (\<exists>a \<in> set (ambulances ex_s9).
                      eligible a \<and> measured (pos a) (location (hd (peekAllPending ex_s9))) < FLT_MAX)
                \<longrightarrow> hd (peekAllPending ex_s9) \<notin> set (queue ex_s10)
                    \<and> (\<exists>k < length (ambulances ex_s10).
                          status (ambulances ex_s10 ! k) = TO_SCENE
                          \<and> assignedEmergencyId (ambulances ex_s10 ! k)
                              = em_id (hd (peekAllPending ex_s9))))"
    by blast
  from p have 1: "queue ex_s10 = filter (unmatched (ambulances ex_s10)) (peekAllPending ex_s9)"
    by (rule conjunct1)
  from p have 2: "peekAllPending ex_s10 = queue ex_s10"
    by (rule conjunct2 [THEN conjunct1])
  from p ex_s9_facts have 4: "hd (peekAllPending ex_s9) \<notin> set (queue ex_s10)
   \<and> (\<exists>k < length (ambulances ex_s10).
         status (ambulances ex_s10 ! k) = TO_SCENE
         \<and> assignedEmergencyId (ambulances ex_s10 ! k) = em_id (hd (peekAllPending ex_s9)))"
    by blast
  have r7: "distinct (map rank (queue ex_s7))"
    by (simp add: ex_s7_fields rank_def ex_e3_def ex_e4_def ex_em_def)
  have n7: "\<forall>a \<in> set (ambulances ex_s7). \<not> eligible a"
    using ex_busy_fleet by (simp add: ex_s7_fields)
  from C5_backlog_order [OF ex_s7_reachable r7, of "Val 100" "Val 100" "Val 200" 3 3,
      THEN conjunct2, THEN conjunct1] n7
  have 3: "\<exists>h'. dispatchVehicles (Val 100) (Val 100) (Val 200) 3 3 ex_s7 = Some h'"
    by blast
  from n7 have e7: "\<not> eligible (ambulances ex_s7 ! 0) \<and> \<not> eligible (ambulances ex_s7 ! 1)
      \<and> length (ambulances ex_s7) = 2"
    by (simp add: ex_s7_fields)
  from C5_backlog_order [OF ex_s7_reachable r7, where startX = "Val 100" and startY = "Val 100"
      and blockSize = "Val 200" and blocksX = 3 and blocksY = 3 and dt = "Val (1 / 64)",
      THEN conjunct2, THEN conjunct2, THEN conjunct2, THEN conjunct2]
    ex_s9_update
  have 5: "queue ex_s9 = queue ex_s7"
    by blast
  from ex_s9_reachable ex_s10_dispatch ex_s9_facts ex_s9_peek 1 2 4 ex_s7_reachable
    ex_s7_dispatch r7 e7 3 ex_grid ex_s9_range ret ex_s10_facts(1) ex_s9_update 5
  show ?thesis by blast
qed

text \<open>
  C5 as stated fails for an emergency that is not the best-ranked one: the fourth
  emergency of the scenario is not matched while no ambulance is idle, the first
  ambulance becomes idle, and the next pass gives it to the third emergency; the
  fourth is still queued. It also fails for the best-ranked emergency when the computed
  distance of the idle ambulance is not below \<open>FLT_MAX\<close>: with the only ambulance idle
  at \<open>(2^64, 0)\<close> and the emergency at (0, 0), the pass changes nothing.
\<close>

theorem C5_not_head_counterexample:
  "reachable ex_s7
   \<and> ex_e4 \<in> set (queue ex_s7)
   \<and> dispatchVehicles (Val 100) (Val 100) (Val 200) 3 3 ex_s7 = Some ex_s7
   \<and> status (ambulances ex_s7 ! 0) = RETURNING
   \<and> updateAfterMovement (Val 100) (Val 100) (Val 200) 3 3 (Val (1 / 64)) ex_s7 = Some ex_s9
   \<and> status (ambulances ex_s9 ! 0) = IDLE
   \<and> dispatchVehicles (Val 100) (Val 100) (Val 200) 3 3 ex_s9 = Some ex_s10
   \<and> ex_e4 \<in> set (queue ex_s10)
   \<and> reachable cz_s1
   \<and> queue cz_s1 = [cz_e]
   \<and> status (ambulances cz_s1 ! 0) = IDLE
   \<and> dispatchVehicles (Val 100) (Val 100) (Val 200) 3 3 cz_s1 = Some cz_s1"
  using ex_s7_reachable ex_s7_dispatch ex_s9_update ex_s10_dispatch ex_s9_facts(6) ex_s10_facts
    cz_reachable cz_facts(2,3) cz_dispatch
  by simp



text \<open>
  C7, as amended. In a reachable state, the update of an ambulance that is \<open>TO_SCENE\<close>
  always returns, and when \<open>updateAfterMovement\<close> returns, the ambulance is \<open>ON_SCENE\<close>
  afterwards exactly when its route cursor had consumed all waypoints or its
  straight-line distance to the last waypoint, as the program computes it in binary32,
  was below 4; in that case its \<open>onSceneTimer\<close> is the configured \<open>onSceneDurationSec\<close>;
  otherwise the ambulance is unchanged.
\<close>

theorem C7_arrival:
  assumes r: "reachable h"
    and i: "i < length (ambulances h)"
    and s: "status (ambulances h ! i) = TO_SCENE"
  shows "(\<exists>a'. update_ambulance startX startY blockSize blocksX blocksY (onSceneDurationSec h) dt
              (ambulances h ! i) hc = Some (a', hc))
    \<and> (\<forall>h'. updateAfterMovement startX startY blockSize blocksX blocksY dt h = Some h' \<longrightarrow>
          ((status (ambulances h' ! i) = ON_SCENE)
             = (currentPathIndex (ambulances h ! i) \<ge> int (length (path (ambulances h ! i)))
                \<or> (currentPathIndex (ambulances h ! i) < int (length (path (ambulances h ! i)))
                   \<and> measured (last (path (ambulances h ! i))) (pos (ambulances h ! i)) < 4)))
          \<and> (status (ambulances h' ! i) = ON_SCENE
                \<longrightarrow> onSceneTimer (ambulances h' ! i) = onSceneDurationSec h)
          \<and> (status (ambulances h' ! i) \<noteq> ON_SCENE \<longrightarrow> ambulances h' ! i = ambulances h ! i))"
proof -
  let ?a = "ambulances h ! i"
  from reachable_inv [OF r] i have "amb_ok ?a" by (simp add: hosp_inv_def)
  then have idx: "0 \<le> currentPathIndex ?a" by (simp add: amb_ok_def)
  note one = update_to_scene [OF s idx, of startX startY blockSize blocksX blocksY "onSceneDurationSec h" dt]
  have first: "\<exists>a'. update_ambulance startX startY blockSize blocksX blocksY (onSceneDurationSec h) dt
              ?a hc = Some (a', hc)"
    using one [of hc] by blast
  have second: "((status (ambulances h' ! i) = ON_SCENE)
             = (currentPathIndex ?a \<ge> int (length (path ?a))
                \<or> (currentPathIndex ?a < int (length (path ?a))
                   \<and> measured (last (path ?a)) (pos ?a) < 4)))
          \<and> (status (ambulances h' ! i) = ON_SCENE
                \<longrightarrow> onSceneTimer (ambulances h' ! i) = onSceneDurationSec h)
          \<and> (status (ambulances h' ! i) \<noteq> ON_SCENE \<longrightarrow> ambulances h' ! i = ?a)"
    if u: "updateAfterMovement startX startY blockSize blocksX blocksY dt h = Some h'" for h'
  proof -
    from u obtain ambs hc2 where
      l: "update_loop startX startY blockSize blocksX blocksY (onSceneDurationSec h) dt
            (ambulances h) (handledCount h) = Some (ambs, hc2)"
      and h': "h' = h\<lparr>ambulances := ambs, handledCount := hc2\<rparr>"
      by (auto simp: updateAfterMovement_def split: option.splits)
    from update_loop_nth [OF l i] obtain hc1 hc3 where
      n: "update_ambulance startX startY blockSize blocksX blocksY (onSceneDurationSec h) dt ?a hc1
         = Some (ambs ! i, hc3)"
      by blast
    from one [of hc1] obtain a' where
      q: "update_ambulance startX startY blockSize blocksX blocksY (onSceneDurationSec h) dt ?a hc1
         = Some (a', hc1)
        \<and> (status a' = ON_SCENE)
         = (currentPathIndex ?a \<ge> int (length (path ?a))
            \<or> (currentPathIndex ?a < int (length (path ?a)) \<and> measured (last (path ?a)) (pos ?a) < 4))
        \<and> (status a' = ON_SCENE \<longrightarrow> onSceneTimer a' = onSceneDurationSec h)
        \<and> (status a' \<noteq> ON_SCENE \<longrightarrow> a' = ?a)"
      by (rule exE)
    note a' = q [THEN conjunct1]
    note p = q [THEN conjunct2]
    from n a' have e: "ambs ! i = a'" by simp
    have eq: "ambulances h' ! i = a'" by (simp add: h' e)
    show ?thesis unfolding eq by (rule p)
  qed
  show ?thesis
  proof (intro conjI allI impI)
    show "\<exists>a'. update_ambulance startX startY blockSize blocksX blocksY (onSceneDurationSec h) dt
              ?a hc = Some (a', hc)"
      by (rule first)
  next
    fix h' assume u: "updateAfterMovement startX startY blockSize blocksX blocksY dt h = Some h'"
    show "(status (ambulances h' ! i) = ON_SCENE)
             = (currentPathIndex ?a \<ge> int (length (path ?a))
                \<or> (currentPathIndex ?a < int (length (path ?a))
                   \<and> measured (last (path ?a)) (pos ?a) < 4))"
      by (rule second [OF u, THEN conjunct1])
  next
    fix h' assume u: "updateAfterMovement startX startY blockSize blocksX blocksY dt h = Some h'"
      and o: "status (ambulances h' ! i) = ON_SCENE"
    from second [OF u, THEN conjunct2, THEN conjunct1] o
    show "onSceneTimer (ambulances h' ! i) = onSceneDurationSec h"
      by (rule mp)
  next
    fix h' assume u: "updateAfterMovement startX startY blockSize blocksX blocksY dt h = Some h'"
      and o: "status (ambulances h' ! i) \<noteq> ON_SCENE"
    from second [OF u, THEN conjunct2, THEN conjunct2] o
    show "ambulances h' ! i = ?a"
      by (rule mp)
  qed
qed

theorem C7_arrival_witness:
  "reachable ex_s4 \<and> 0 < length (ambulances ex_s4) \<and> 1 < length (ambulances ex_s4)
   \<and> status (ambulances ex_s4 ! 0) = TO_SCENE \<and> status (ambulances ex_s4 ! 1) = TO_SCENE
   \<and> updateAfterMovement (Val 100) (Val 100) (Val 200) 3 3 (Val (1 / 64)) ex_s4 = Some ex_s5
   \<and> status (ambulances ex_s5 ! 0) = ON_SCENE
   \<and> onSceneTimer (ambulances ex_s5 ! 0) = onSceneDurationSec ex_s4
   \<and> onSceneDurationSec ex_s4 = Val 4
   \<and> status (ambulances ex_s5 ! 1) \<noteq> ON_SCENE
   \<and> ambulances ex_s5 ! 1 = ambulances ex_s4 ! 1"
proof -
  have r: "reachable ex_s4"
    by (rule r_dispatch [OF ex_s3_reachable ex_s4_dispatch])
  have f: "0 < length (ambulances ex_s4)" "1 < length (ambulances ex_s4)"
    "status (ambulances ex_s4 ! 0) = TO_SCENE" "status (ambulances ex_s4 ! 1) = TO_SCENE"
    "onSceneDurationSec ex_s4 = Val 4"
    by (simp_all add: ex_s4_def ex_s3_def ex_s0_def assign_def)
  have g: "status (ambulances ex_s5 ! 0) = ON_SCENE" "status (ambulances ex_s5 ! 1) \<noteq> ON_SCENE"
    by (simp_all add: ex_s5_def ex_a2_def assign_def)
  from C7_arrival [OF r f(1) f(3), of "Val 100" "Val 100" "Val 200" 3 3 "Val (1 / 64)" 0] ex_s5_update g(1)
  have t: "onSceneTimer (ambulances ex_s5 ! 0) = onSceneDurationSec ex_s4" by blast
  from C7_arrival [OF r f(2) f(4), of "Val 100" "Val 100" "Val 200" 3 3 "Val (1 / 64)" 0] ex_s5_update g(2)
  have u: "ambulances ex_s5 ! 1 = ambulances ex_s4 ! 1" by blast
  from r f g t u ex_s5_update show ?thesis by blast
qed

text \<open>
  C7 as stated fails for the exact straight-line distance. The ambulance at (4, 0) has
  just been sent to the emergency at \<open>(2^-30, 0)\<close>: its exact distance to the last
  waypoint is \<open>4 - 2^-30\<close>, below 4, and its cursor is at the first of two waypoints.
  The coordinate difference rounds to 4 in binary32, the computed distance is 4, and
  the update leaves the ambulance \<open>TO_SCENE\<close>.
\<close>

theorem C7_threshold_counterexample:
  "reachable cy_s2
   \<and> status (ambulances cy_s2 ! 0) = TO_SCENE
   \<and> currentPathIndex (ambulances cy_s2 ! 0) = 0
   \<and> length (path (ambulances cy_s2 ! 0)) = 2
   \<and> euclid (last (path (ambulances cy_s2 ! 0))) (pos (ambulances cy_s2 ! 0))
        = Some (4294967295 / 1073741824)
   \<and> (4294967295 / 1073741824 :: real) < 4
   \<and> updateAfterMovement (Val 0) (Val 0) (Val 100) 0 0 (Val (1 / 64)) cy_s2 = Some cy_s2"
proof -
  have a: "euclid (last (path (ambulances cy_s2 ! 0))) (pos (ambulances cy_s2 ! 0))
        = Some (4294967295 / 1073741824)"
    by (simp only: cy_s2_facts cx_euclid)
  have c: "(4294967295 / 1073741824 :: real) < 4" by simp
  from cx_s2_reachable(2) cy_s2_facts(1-3) a c cy_update
  show ?thesis by blast
qed

text \<open>
  C8. Not every input with a positive cell size and non-negative cell counts lets the
  path loop terminate. On a 3 by 3 grid at the origin with cell size 3072, the
  start point (1073741824, 0) is at least 1e9 away from every intersection, so
  \<open>findNearestRoadPoint\<close> returns it unchanged; the end point (0, 0) snaps to the
  intersection (0, 0). The cursor then moves in whole cells along x, its offset from
  the end stays 1024 modulo 3072, and the loop condition never fails:
  \<open>findPathOnRoads\<close> has no result.
\<close>

theorem C8_path_loop_diverges:
  "findPathOnRoads (pt 1073741824 0) (pt 0 0) (Val 0) (Val 0) (Val 3072) 3 3 = None"
  by (simp add: findPathOnRoads_def snap_far snap_origin far_loop)

text \<open>
  C9. In every reachable state \<open>busy\<close> equals \<open>status \<noteq> IDLE\<close> for every ambulance, so
  the eligibility test \<open>status = IDLE \<and> \<not> busy\<close> is the test \<open>status = IDLE\<close>. The
  constructor creates ambulances \<open>IDLE\<close> and not busy; matching sets \<open>busy\<close> together
  with \<open>TO_SCENE\<close>; the state machine resets \<open>busy\<close> only in the step from \<open>RETURNING\<close>
  to \<open>IDLE\<close> and never sets it; the motion step changes neither \<open>busy\<close> nor \<open>status\<close>.
\<close>

theorem C9_busy_iff_not_idle:
  "(reachable h \<longrightarrow>
      (\<forall>a \<in> set (ambulances h).
          busy a = (status a \<noteq> IDLE) \<and> eligible a = (status a = IDLE)))
   \<and> (\<forall>a \<in> set (make_ambulances aid ps). status a = IDLE \<and> \<not> busy a)
   \<and> (busy (assign a em pth) \<and> status (assign a em pth) = TO_SCENE)
   \<and> (update_ambulance startX startY blockSize blocksX blocksY duration dt a hc = Some (a', hc')
        \<longrightarrow> (busy a \<and> \<not> busy a' \<longrightarrow> status a = RETURNING \<and> status a' = IDLE)
            \<and> (\<not> busy a \<longrightarrow> \<not> busy a'))
   \<and> (move_ambulance dt a = Some a' \<longrightarrow> busy a' = busy a \<and> status a' = status a)"
proof (intro conjI impI ballI)
  fix b assume r: "reachable h" and b: "b \<in> set (ambulances h)"
  from reachable_inv [OF r] b have "amb_ok b" by (simp add: hosp_inv_def)
  then show "busy b = (status b \<noteq> IDLE)" and "eligible b = (status b = IDLE)"
    by (auto simp: amb_ok_def eligible_def)
next
  fix b assume "b \<in> set (make_ambulances aid ps)"
  then have "amb_ok b \<and> status b = IDLE" using make_ambulances_ok [of aid ps] by blast
  then show "status b = IDLE" and "\<not> busy b" by (auto simp: amb_ok_def)
next
  show "busy (assign a em pth)" and "status (assign a em pth) = TO_SCENE"
    by (simp_all add: assign_def)
next
  assume u: "update_ambulance startX startY blockSize blocksX blocksY duration dt a hc = Some (a', hc')"
  {
    assume "busy a \<and> \<not> busy a'"
    with u show "status a = RETURNING" and "status a' = IDLE"
      by (auto simp: update_ambulance_def Let_def split: if_splits option.splits)
  }
  {
    assume "\<not> busy a"
    with u show "\<not> busy a'"
      by (auto simp: update_ambulance_def Let_def split: if_splits option.splits)
  }
next
  assume m: "move_ambulance dt a = Some a'"
  then show "busy a' = busy a" and "status a' = status a"
    by (auto simp: move_ambulance_def Let_def split: if_splits)
qed

theorem C9_busy_iff_not_idle_witness:
  "reachable ex_s5
   \<and> ambulances ex_s5 ! 0 \<in> set (ambulances ex_s5)
   \<and> busy (ambulances ex_s5 ! 0) \<and> status (ambulances ex_s5 ! 0) \<noteq> IDLE
   \<and> \<not> eligible (ambulances ex_s5 ! 0)
   \<and> ex_amb 1 (pt 100 90) \<in> set (make_ambulances 1 [pt 100 90, pt 300 90])
   \<and> status (ex_amb 1 (pt 100 90)) = IDLE \<and> \<not> busy (ex_amb 1 (pt 100 90))
   \<and> update_ambulance (Val 100) (Val 100) (Val 200) 3 3 (Val 4) (Val (1 / 64)) (ambulances ex_s6 ! 0) 1
        = Some ((ambulances ex_s6 ! 0)\<lparr>path := [], status := IDLE, busy := False\<rparr>, 1)
   \<and> busy (ambulances ex_s6 ! 0)
   \<and> \<not> busy ((ambulances ex_s6 ! 0)\<lparr>path := [], status := IDLE, busy := False\<rparr>)
   \<and> status (ambulances ex_s6 ! 0) = RETURNING
   \<and> move_ambulance (Val (1 / 64)) ex_a2 = Some (ex_a2\<lparr>pos := pt 300 (2955 / 32)\<rparr>)
   \<and> busy (ex_a2\<lparr>pos := pt 300 (2955 / 32)\<rparr>) = busy ex_a2"
proof -
  have mk: "ex_amb 1 (pt 100 90) \<in> set (make_ambulances 1 [pt 100 90, pt 300 90])"
    by (simp add: ex_amb_def)
  have b6: "busy (ambulances ex_s6 ! 0)"
    "\<not> busy ((ambulances ex_s6 ! 0)\<lparr>path := [], status := IDLE, busy := False\<rparr>)"
    by (simp_all add: ex_s6_def ex_a1_def assign_def)
  note w = C9_busy_iff_not_idle [where h = ex_s5 and aid = 1
      and ps = "[pt 100 90, pt 300 90]"
      and startX = "Val 100" and startY = "Val 100" and blockSize = "Val 200" and blocksX = 3 and blocksY = 3
      and duration = "Val 4" and dt = "Val (1 / 64)" and a = "ambulances ex_s6 ! 0" and hc = 1
      and a' = "(ambulances ex_s6 ! 0)\<lparr>path := [], status := IDLE, busy := False\<rparr>" and hc' = 1]
  from w ex_s5_reachable ex_s5_amb(4) have p1: "busy (ambulances ex_s5 ! 0) = (status (ambulances ex_s5 ! 0) \<noteq> IDLE)
      \<and> eligible (ambulances ex_s5 ! 0) = (status (ambulances ex_s5 ! 0) = IDLE)"
    by blast
  from w mk have p2: "status (ex_amb 1 (pt 100 90)) = IDLE \<and> \<not> busy (ex_amb 1 (pt 100 90))"
    by blast
  from w ex_return b6 have p3: "status (ambulances ex_s6 ! 0) = RETURNING" by blast
  from C9_busy_iff_not_idle [where dt = "Val (1 / 64)" and a = ex_a2
      and a' = "ex_a2\<lparr>pos := pt 300 (2955 / 32)\<rparr>"] ex_move
  have p4: "busy (ex_a2\<lparr>pos := pt 300 (2955 / 32)\<rparr>) = busy ex_a2" by blast
  from ex_s5_reachable ex_s5_amb p1 mk p2 ex_return b6 p3 ex_move p4
  show ?thesis by simp
qed

text \<open>
  C10. \<open>receiveEmergency\<close> pushes the argument with \<open>em_id\<close> replaced by the counter
  \<open>nextEmergencyId\<close> and \<open>createdAt\<close> by the clock reading, whatever the two fields held
  (the call returns as long as the counter is below \<open>INT_MAX\<close>); patient, location,
  priority and assignedHospital are stored as given, and nothing else of the hospital
  changes but the counter, which grows by one. The counter is 1 after construction
  and no other operation changes it; in a reachable state every id in the queue or
  carried by an ambulance is below the counter, so an id is never handed out twice.
\<close>

theorem C10_receive_stamps:
  "(\<forall>h'. receiveEmergency incoming now h = Some h' \<longrightarrow>
        queue h' = pq_push (incoming\<lparr>em_id := nextEmergencyId h, createdAt := now\<rparr>) (queue h)
        \<and> nextEmergencyId h' = nextEmergencyId h + 1
        \<and> ambulances h' = ambulances h \<and> handledCount h' = handledCount h
        \<and> onSceneDurationSec h' = onSceneDurationSec h \<and> hosp_location h' = hosp_location h)
   \<and> (nextEmergencyId h < INT_MAX \<longrightarrow> (\<exists>h'. receiveEmergency incoming now h = Some h'))
   \<and> receiveEmergency (incoming\<lparr>em_id := i, createdAt := t\<rparr>) now h
        = receiveEmergency incoming now h
   \<and> patient (incoming\<lparr>em_id := nextEmergencyId h, createdAt := now\<rparr>) = patient incoming
   \<and> location (incoming\<lparr>em_id := nextEmergencyId h, createdAt := now\<rparr>) = location incoming
   \<and> priority (incoming\<lparr>em_id := nextEmergencyId h, createdAt := now\<rparr>) = priority incoming
   \<and> assignedHospital (incoming\<lparr>em_id := nextEmergencyId h, createdAt := now\<rparr>)
        = assignedHospital incoming
   \<and> (\<forall>h0. Hospital_ctor loc parkingPositions startAmbId onSceneDuration = Some h0
        \<longrightarrow> nextEmergencyId h0 = 1)
   \<and> (\<forall>h'. dispatchVehicles startX startY blockSize blocksX blocksY h = Some h'
        \<longrightarrow> nextEmergencyId h' = nextEmergencyId h)
   \<and> (\<forall>h'. updateAfterMovement startX startY blockSize blocksX blocksY dt h = Some h'
        \<longrightarrow> nextEmergencyId h' = nextEmergencyId h)
   \<and> (\<forall>h'. move_ambulances dt h = Some h' \<longrightarrow> nextEmergencyId h' = nextEmergencyId h)
   \<and> (reachable h \<longrightarrow>
        (\<forall>e \<in> set (queue h). 1 \<le> em_id e \<and> em_id e < nextEmergencyId h)
        \<and> (\<forall>a \<in> set (ambulances h). assignedEmergencyId a < nextEmergencyId h))"
proof (intro conjI allI impI)
  fix h' assume "receiveEmergency incoming now h = Some h'"
  then show "queue h' = pq_push (incoming\<lparr>em_id := nextEmergencyId h, createdAt := now\<rparr>) (queue h)"
    and "nextEmergencyId h' = nextEmergencyId h + 1"
    and "ambulances h' = ambulances h" and "handledCount h' = handledCount h"
    and "onSceneDurationSec h' = onSceneDurationSec h" and "hosp_location h' = hosp_location h"
    by (auto simp: receiveEmergency_def Let_def split: if_splits)
next
  assume "nextEmergencyId h < INT_MAX"
  then show "\<exists>h'. receiveEmergency incoming now h = Some h'"
    by (simp add: receiveEmergency_def Let_def)
next
  show "receiveEmergency (incoming\<lparr>em_id := i, createdAt := t\<rparr>) now h
        = receiveEmergency incoming now h"
    by (simp add: receiveEmergency_def Let_def)
next
  fix h0 assume "Hospital_ctor loc parkingPositions startAmbId onSceneDuration = Some h0"
  then show "nextEmergencyId h0 = 1"
    by (auto simp: Hospital_ctor_def split: if_splits)
next
  fix h' assume "dispatchVehicles startX startY blockSize blocksX blocksY h = Some h'"
  from dispatch_unresolved [OF this] show "nextEmergencyId h' = nextEmergencyId h" by simp
next
  fix h' assume "updateAfterMovement startX startY blockSize blocksX blocksY dt h = Some h'"
  then show "nextEmergencyId h' = nextEmergencyId h"
    by (auto simp: updateAfterMovement_def split: option.splits)
next
  fix h' assume "move_ambulances dt h = Some h'"
  then show "nextEmergencyId h' = nextEmergencyId h"
    by (auto simp: move_ambulances_def split: option.splits)
next
  assume r: "reachable h"
  note inv = reachable_inv [OF r]
  note op = inv_one_place [OF inv]
  show "\<forall>e \<in> set (queue h). 1 \<le> em_id e \<and> em_id e < nextEmergencyId h"
    using op by (simp add: one_place_def)
  show "\<forall>a \<in> set (ambulances h). assignedEmergencyId a < nextEmergencyId h"
  proof
    fix a assume a: "a \<in> set (ambulances h)"
    show "assignedEmergencyId a < nextEmergencyId h"
    proof (cases "assignedEmergencyId a = - 1")
      case True
      from inv have "1 \<le> nextEmergencyId h"
        by (simp add: hosp_inv_def)
      with True show ?thesis by simp
    next
      case False
      with op a show ?thesis by (simp add: one_place_def)
    qed
  qed
qed simp_all

theorem C10_receive_stamps_witness:
  "receiveEmergency (ex_em 3 500 300) 3 (ex_s0\<lparr>queue := [ex_e1, ex_e2], nextEmergencyId := 3\<rparr>)
     = Some ex_s3
   \<and> queue ex_s3 = pq_push ((ex_em 3 500 300)\<lparr>em_id := 3, createdAt := 3\<rparr>) [ex_e1, ex_e2]
   \<and> nextEmergencyId ex_s3 = 3 + 1
   \<and> Hospital_ctor (pt 450 0) [pt 100 90, pt 300 90] 1 (Val 4) = Some ex_s0
   \<and> nextEmergencyId ex_s0 = 1
   \<and> nextEmergencyId ex_s0 < INT_MAX
   \<and> (\<exists>h'. receiveEmergency (ex_em 2 102 92) 1 ex_s0 = Some h')
   \<and> dispatchVehicles (Val 100) (Val 100) (Val 200) 3 3 ex_s3 = Some ex_s4
   \<and> nextEmergencyId ex_s4 = nextEmergencyId ex_s3
   \<and> reachable ex_s3 \<and> ex_e1 \<in> set (queue ex_s3) \<and> em_id ex_e1 < nextEmergencyId ex_s3"
proof -
  let ?h2 = "ex_s0\<lparr>queue := [ex_e1, ex_e2], nextEmergencyId := 3\<rparr>"
  have f: "nextEmergencyId ex_s0 < INT_MAX" "nextEmergencyId ?h2 = 3" "queue ?h2 = [ex_e1, ex_e2]"
    "ex_e1 \<in> set (queue ex_s3)"
    by (simp_all add: ex_s0_def ex_s3_def INT_MAX_def)
  from C10_receive_stamps [where h = ?h2 and incoming = "ex_em 3 500 300" and now = 3]
    ex_s3_receive(3) f
  have p1: "queue ex_s3 = pq_push ((ex_em 3 500 300)\<lparr>em_id := 3, createdAt := 3\<rparr>) [ex_e1, ex_e2]
      \<and> nextEmergencyId ex_s3 = 3 + 1"
    by simp
  from C10_receive_stamps [where h = ex_s0 and incoming = "ex_em 2 102 92" and now = 1
      and loc = "pt 450 0" and parkingPositions = "[pt 100 90, pt 300 90]"
      and startAmbId = 1 and onSceneDuration = "Val 4"] ex_s0_ctor f(1)
  have p2: "nextEmergencyId ex_s0 = 1 \<and> (\<exists>h'. receiveEmergency (ex_em 2 102 92) 1 ex_s0 = Some h')"
    by blast
  from C10_receive_stamps [where h = ex_s3 and startX = "Val 100" and startY = "Val 100" and blockSize = "Val 200"
      and blocksX = 3 and blocksY = 3] ex_s4_dispatch ex_s3_reachable f(4)
  have p3: "nextEmergencyId ex_s4 = nextEmergencyId ex_s3 \<and> em_id ex_e1 < nextEmergencyId ex_s3"
    by blast
  from ex_s3_receive(3) p1 ex_s0_ctor p2 f ex_s4_dispatch p3 ex_s3_reachable
  show ?thesis by simp
qed


end
